(* ===== verification/Prelude.thy ===== *)
theory Prelude
  imports Complex_Main "HOL-Library.Word"
begin

unbundle bit_operations_syntax

text \<open>
  The vocabulary and the generic facts that the component theories share: the names of the
  machine integer types of the C sources, the index ranges of downward \<open>for\<close> loops, single bits
  of shifted and widened words, invariants of folds (a C \<open>for\<close> loop over an index range is a
  \<open>fold\<close> here), and the rules that evaluate index ranges on numerals.

  \<open>bit_rules\<close> collects characterisations of single bits, \<open>eval_simps\<close> the rules used to evaluate
  concrete instances with the simplifier.
\<close>

type_synonym u8 = "8 word"
type_synonym u16 = "16 word"
type_synonym u32 = "32 word"
type_synonym u64 = "64 word"

named_theorems bit_rules
named_theorems eval_simps

subsection \<open>Loops over index ranges\<close>

text \<open>The values of \<open>s\<close> in \<^verbatim>\<open>for (s = hi; s >= lo; s -= d)\<close>, in order.\<close>

function for_down :: "int \<Rightarrow> int \<Rightarrow> nat \<Rightarrow> int list" where
  "for_down s lo d = (if lo \<le> s \<and> 0 < d then s # for_down (s - int d) lo d else [])"
  by pat_completeness auto
termination
  by (relation "measure (\<lambda>(s, lo, d). nat (s - lo + 1))") auto

declare for_down.simps [simp del]

lemma for_down_step:
  "lo \<le> s \<Longrightarrow> 0 < d \<Longrightarrow> for_down s lo d = s # for_down (s - int d) lo d"
  by (simp add: for_down.simps)

lemma for_down_done: "s < lo \<Longrightarrow> for_down s lo d = []"
  by (simp add: for_down.simps)

subsection \<open>Single bits of shifted and widened words\<close>

lemma bit_shl1_or [bit_rules]:
  "bit (push_bit 1 v OR w) j \<longleftrightarrow> (0 < j \<and> j < LENGTH('a) \<and> bit v (j - 1)) \<or> bit w j"
  for v w :: "'a::len word"
  by (auto simp only: bit_or_iff bit_push_bit_iff possible_bit_word)

lemma bit_ucast_and_1 [bit_rules]:
  "bit (ucast (b AND 1) :: 'b::len word) j \<longleftrightarrow> j = 0 \<and> odd b" for b :: "'a::len word"
  by (auto simp: bit_simps bit_1_iff bit_0)

lemma uint_exp: "n < LENGTH('a) \<Longrightarrow> uint (2 ^ n :: 'a::len word) = 2 ^ n"
  by transfer (simp add: take_bit_eq_mod)

lemma unat_exp: "n < LENGTH('a) \<Longrightarrow> unat (2 ^ n :: 'a::len word) = 2 ^ n"
  by (simp add: uint_exp nat_power_eq flip: nat_uint_eq)

lemma word_less_exp_iff:
  fixes v :: "'a::len word"
  assumes "n < LENGTH('a)"
  shows "v < 2 ^ n \<longleftrightarrow> (\<forall>j\<ge>n. \<not> bit v j)"
proof -
  have "v < 2 ^ n \<longleftrightarrow> take_bit n (uint v) = uint v"
    using assms by (simp add: word_less_def take_bit_int_eq_self_iff uint_exp)
  also have "\<dots> \<longleftrightarrow> take_bit n v = v"
    by (simp add: word_uint_eq_iff unsigned_take_bit_eq)
  also have "\<dots> \<longleftrightarrow> (\<forall>j\<ge>n. \<not> bit v j)"
    by (metis bit_imp_le_length bit_take_bit_iff bit_word_eqI not_le)
  finally show ?thesis .
qed

subsection \<open>Invariants of folds\<close>

lemma fold_preserves:
  "P s \<Longrightarrow> (\<And>x s. x \<in> set xs \<Longrightarrow> P s \<Longrightarrow> P (f x s)) \<Longrightarrow> P (fold f xs s)"
  by (induction xs arbitrary: s) auto

lemma fold_establishes:
  assumes "x \<in> set xs" and "I s"
    and "\<And>y s. y \<in> set xs \<Longrightarrow> I s \<Longrightarrow> I (f y s)"
    and "\<And>s. I s \<Longrightarrow> Q (f x s)"
    and "\<And>y s. y \<in> set xs \<Longrightarrow> I s \<Longrightarrow> Q s \<Longrightarrow> Q (f y s)"
  shows "Q (fold f xs s)"
proof -
  obtain ys zs where xs: "xs = ys @ x # zs" using assms(1) by (meson split_list)
  have "I (fold f ys s)"
    using assms(2) by (rule fold_preserves) (use assms(3) xs in auto)
  then have "I (f x (fold f ys s)) \<and> Q (f x (fold f ys s))"
    using assms(3,4) xs by auto
  then have "I (fold f zs (f x (fold f ys s))) \<and> Q (fold f zs (f x (fold f ys s)))"
    by (rule fold_preserves) (use assms(3,5) xs in auto)
  then show ?thesis by (simp add: xs)
qed

lemma nth_list_update_read:
  "j < length xs \<Longrightarrow> xs[i := x] ! j = (if i = j then x else xs ! j)"
  by (cases "i < length xs") (auto simp: nth_list_update list_update_beyond)

lemma upt_zero_numeral [eval_simps]:
  "[0..<numeral k] = 0 # [Suc 0..<numeral k]"
  "[Suc 0..<numeral k] = (if Suc 0 < numeral k then Suc 0 # [2..<numeral k] else [])"
  by (simp_all add: upt_rec numeral_2_eq_2)

lemma fold_nth_take:
  "n \<le> length xs \<Longrightarrow> fold (\<lambda>i. f (xs ! i)) [0..<n] a = fold f (take n xs) a"
proof (induction n arbitrary: a)
  case (Suc n)
  then show ?case
    by (simp add: take_Suc_conv_app_nth)
qed simp

end
