(* ===== verification/Gf2.thy ===== *)
theory Gf2
  imports Prelude
begin

unbundle bit_operations_syntax

text \<open>
  The bit-list helpers and the GF(2) polynomial remainder of \<^verbatim>\<open>src/frame_decode.c\<close>
  (\<open>bits_to_uint\<close>, \<open>uint_to_bits\<close>, \<open>gf2_remainder\<close>), which the IRA/IBC, IDA and LCW decoders
  share. A polynomial over GF(2) is a 32-bit word, its coefficients the bits.

  The lemmas show that the division loop is linear, that its result is reduced, and that it is
  the remainder of carry-less division (\<open>gf2_division\<close>, \<open>gf2_remainder_unique\<close>);
  \<open>gf2_encode\<close> is the systematic encoder the decoders undo.
\<close>

definition bits_to_uint :: "u8 list \<Rightarrow> nat \<Rightarrow> u32" where
  "bits_to_uint bits n =
     fold (\<lambda>i val. push_bit 1 val OR ucast (bits ! i AND 1)) [0..<n] 0"

fun uint_to_bits :: "u32 \<Rightarrow> nat \<Rightarrow> u8 list" where
  "uint_to_bits val 0 = []"
| "uint_to_bits val (Suc n) = uint_to_bits (drop_bit 1 val) n @ [ucast (val AND 1)]"

text \<open>\<open>__builtin_clz\<close> on 32 bits; the C code never calls it on 0, where it is undefined.\<close>

definition clz32 :: "u32 \<Rightarrow> nat" where
  "clz32 w = length (takeWhile (\<lambda>i. \<not> bit w i) (rev [0..<32]))"

definition poly_bits :: "u32 \<Rightarrow> nat" where
  "poly_bits poly = 32 - clz32 poly"

definition gf2_step :: "u32 \<Rightarrow> nat \<Rightarrow> nat \<Rightarrow> u32 \<Rightarrow> u32" where
  "gf2_step poly pb i val =
     (if val AND push_bit i 1 \<noteq> 0 then val XOR push_bit (i + 1 - pb) poly else val)"

definition gf2_remainder :: "u32 \<Rightarrow> u32 \<Rightarrow> u32" where
  "gf2_remainder poly val =
     (if val = 0 then 0
      else fold (gf2_step poly (poly_bits poly)) (rev [poly_bits poly - 1..<32]) val)"

subsection \<open>Bit lists and words\<close>

lemma bits_to_uint_0 [simp]: "bits_to_uint bits 0 = 0"
  by (simp add: bits_to_uint_def)

lemma bits_to_uint_Suc:
  "bits_to_uint bits (Suc n) = push_bit 1 (bits_to_uint bits n) OR ucast (bits ! n AND 1)"
  by (simp add: bits_to_uint_def)

lemma bit_bits_to_uint:
  "bit (bits_to_uint bits n) j \<longleftrightarrow> j < n \<and> j < 32 \<and> odd (bits ! (n - 1 - j))"
proof (induction n arbitrary: j)
  case (Suc n)
  show ?case
    by (cases j) (auto simp only: bits_to_uint_Suc bit_rules Suc.IH, auto)
qed simp

lemma length_uint_to_bits [simp]: "length (uint_to_bits val n) = n"
  by (induction n arbitrary: val) auto

lemma nth_uint_to_bits:
  "i < n \<Longrightarrow> uint_to_bits val n ! i = (if bit val (n - 1 - i) then 1 else 0)"
proof (induction n arbitrary: val i)
  case (Suc n)
  show ?case
  proof (cases "i = n")
    case True
    then show ?thesis
      by (auto simp: nth_append bit_0 and_one_eq odd_iff_mod_2_eq_one)
  next
    case False
    with Suc.prems have "i < n" by simp
    then show ?thesis
      using Suc.IH [of i "drop_bit 1 val"]
      by (simp add: nth_append bit_drop_bit_eq Suc_diff_Suc)
  qed
qed simp

definition bit_list :: "u8 list \<Rightarrow> bool" where
  "bit_list bs \<longleftrightarrow> set bs \<subseteq> {0, 1}"

lemma bit_list_uint_to_bits [simp]: "bit_list (uint_to_bits val n)"
  by (auto simp: bit_list_def in_set_conv_nth nth_uint_to_bits split: if_splits)

lemma bits_to_uint_uint_to_bits:
  "n \<le> 32 \<Longrightarrow> bits_to_uint (uint_to_bits val n) n = take_bit n val"
  by (rule bit_word_eqI) (auto simp: bit_bits_to_uint nth_uint_to_bits bit_take_bit_iff split: if_splits)

lemma uint_to_bits_bits_to_uint:
  assumes "n \<le> 32" "n \<le> length bs" "bit_list bs"
  shows "uint_to_bits (bits_to_uint bs n) n = take n bs"
proof (rule nth_equalityI)
  fix i assume "i < length (uint_to_bits (bits_to_uint bs n) n)"
  then have i: "i < n" by simp
  have "bs ! i \<in> {0, 1}"
    using assms i unfolding bit_list_def by (meson nth_mem order_less_le_trans subsetD)
  then show "uint_to_bits (bits_to_uint bs n) n ! i = take n bs ! i"
    using assms i by (auto simp: nth_uint_to_bits bit_bits_to_uint)
qed (use assms in simp)

subsection \<open>The degree of a polynomial\<close>

lemma clz32_less: "w \<noteq> 0 \<Longrightarrow> clz32 w < 32"
proof -
  assume "w \<noteq> 0"
  then obtain j where j: "bit w j"
    by (auto simp: bit_eq_iff)
  then have "j < 32" using bit_imp_le_length [of w j] by simp
  then have "length (takeWhile (\<lambda>i. \<not> bit w i) (rev [0..<32])) < length (rev [0..<32::nat])"
    using j takeWhile_eq_all_conv [of "\<lambda>i. \<not> bit w i" "rev [0..<32]"]
    by (metis \<open>j < 32\<close> atLeastLessThan_upt atLeastLessThan_iff le0 length_takeWhile_le
        nat_less_le set_rev takeWhile_eq_take take_all_iff order_refl)
  then show ?thesis by (simp add: clz32_def)
qed

lemma bit_clz32:
  assumes "w \<noteq> 0"
  shows "bit w (31 - clz32 w)" and "31 - clz32 w < j \<Longrightarrow> \<not> bit w j"
proof -
  let ?xs = "rev [0..<32::nat]"
  have k: "clz32 w < 32" using assms by (rule clz32_less)
  then have "\<not> \<not> bit w (?xs ! clz32 w)"
    unfolding clz32_def by (intro nth_length_takeWhile) simp
  moreover have "?xs ! clz32 w = 31 - clz32 w" using k by (simp add: rev_nth)
  ultimately show "bit w (31 - clz32 w)" by simp
  show "\<not> bit w j" if j: "31 - clz32 w < j"
  proof (cases "j < 32")
    case True
    then have i: "31 - j < clz32 w" using j by simp
    then have "takeWhile (\<lambda>i. \<not> bit w i) ?xs ! (31 - j) = ?xs ! (31 - j)"
      unfolding clz32_def by (intro takeWhile_nth)
    moreover have "?xs ! (31 - j) = j" using True by (simp add: rev_nth)
    ultimately show ?thesis
      using i nth_mem [of "31 - j" "takeWhile (\<lambda>i. \<not> bit w i) ?xs"]
      unfolding clz32_def by (metis set_takeWhileD)
  next
    case False
    then show ?thesis using bit_imp_le_length [of w j] by auto
  qed
qed

definition poly_deg :: "u32 \<Rightarrow> nat" where
  "poly_deg poly = poly_bits poly - 1"

lemma poly_deg_facts:
  assumes "poly \<noteq> 0"
  shows poly_bits_deg: "poly_bits poly = Suc (poly_deg poly)"
    and poly_deg_less: "poly_deg poly < 32"
    and bit_poly_deg: "bit poly (poly_deg poly)"
    and bit_above_poly_deg: "poly_deg poly < j \<Longrightarrow> \<not> bit poly j"
  using clz32_less [OF assms] bit_clz32 [OF assms]
  by (auto simp: poly_deg_def poly_bits_def)

subsection \<open>The division loop is linear\<close>

lemma gf2_step_alt:
  "gf2_step poly pb i v = v XOR (if bit v i then push_bit (i + 1 - pb) poly else 0)"
  by (simp add: gf2_step_def bit_iff_and_push_bit_not_eq_0)

lemma gf2_step_xor: "gf2_step poly pb i (a XOR b) = gf2_step poly pb i a XOR gf2_step poly pb i b"
  by (auto simp: gf2_step_alt bit_xor_iff ac_simps)

lemma gf2_step_0 [simp]: "gf2_step poly pb i 0 = 0"
  by (simp add: gf2_step_alt)

lemma gf2_fold_xor:
  "fold (gf2_step poly pb) is (a XOR b) = fold (gf2_step poly pb) is a XOR fold (gf2_step poly pb) is b"
  by (induction "is" arbitrary: a b) (simp_all add: gf2_step_xor)

lemma gf2_fold_0 [simp]: "fold (gf2_step poly pb) is 0 = 0"
  by (induction "is") simp_all

lemma gf2_remainder_alt:
  "poly \<noteq> 0 \<Longrightarrow> gf2_remainder poly v =
     fold (gf2_step poly (Suc (poly_deg poly))) (rev [poly_deg poly..<32]) v"
  by (simp add: gf2_remainder_def poly_bits_deg)

lemma gf2_remainder_0 [simp]: "gf2_remainder poly 0 = 0"
  by (simp add: gf2_remainder_def)

lemma gf2_remainder_xor:
  "poly \<noteq> 0 \<Longrightarrow> gf2_remainder poly (a XOR b) = gf2_remainder poly a XOR gf2_remainder poly b"
  by (simp add: gf2_remainder_alt gf2_fold_xor)

subsection \<open>The remainder is reduced\<close>

lemma gf2_fold_clears:
  assumes "poly \<noteq> 0" and "poly_deg poly \<le> n" and "\<forall>j\<ge>n. \<not> bit v j"
  shows "\<forall>j\<ge>poly_deg poly.
    \<not> bit (fold (gf2_step poly (Suc (poly_deg poly))) (rev [poly_deg poly..<n]) v) j"
  using assms(2,3)
proof (induction n arbitrary: v)
  case (Suc n)
  let ?d = "poly_deg poly"
  show ?case
  proof (cases "?d \<le> n")
    case True
    let ?v = "gf2_step poly (Suc ?d) n v"
    have "\<not> bit ?v j" if "n \<le> j" for j
      using that Suc.prems(2) True bit_poly_deg [OF assms(1)] bit_above_poly_deg [OF assms(1)]
      by (cases "j = n") (auto simp: gf2_step_alt bit_simps dest: bit_imp_le_length)
    then show ?thesis
      using Suc.IH [of ?v] True by simp
  next
    case False
    with Suc.prems have "?d = Suc n" by simp
    with Suc.prems show ?thesis by simp
  qed
qed simp

lemma gf2_remainder_bit:
  assumes "poly \<noteq> 0" and "bit (gf2_remainder poly v) j"
  shows "j < poly_deg poly"
proof -
  have "\<forall>j\<ge>32. \<not> bit v j" using bit_imp_le_length [of v] by fastforce
  then have "\<forall>j\<ge>poly_deg poly. \<not> bit (gf2_remainder poly v) j"
    using gf2_fold_clears [OF assms(1), of 32 v] poly_deg_less [OF assms(1)]
    by (simp add: gf2_remainder_alt [OF assms(1)])
  with assms(2) show ?thesis by (meson not_less)
qed

lemma gf2_remainder_high:
  "poly \<noteq> 0 \<Longrightarrow> \<forall>j\<ge>poly_deg poly. \<not> bit (gf2_remainder poly v) j"
  using gf2_remainder_bit [of poly v] leD by blast

lemma gf2_fold_small:
  "\<forall>i\<in>set is. \<not> bit v i \<Longrightarrow> fold (gf2_step poly pb) is v = v"
  by (induction "is") (simp_all add: gf2_step_alt)

lemma gf2_remainder_small:
  assumes "poly \<noteq> 0" and "\<forall>j\<ge>poly_deg poly. \<not> bit v j"
  shows "gf2_remainder poly v = v"
  using assms by (simp add: gf2_remainder_alt gf2_fold_small)

lemma gf2_remainder_less:
  "poly \<noteq> 0 \<Longrightarrow> gf2_remainder poly v < 2 ^ poly_deg poly"
  using poly_deg_less [of poly] by (simp add: word_less_exp_iff gf2_remainder_high)

subsection \<open>Division with remainder over GF(2)\<close>

text \<open>Carry-less multiplication: the reference against which the division loop is read.\<close>

primrec gf2_terms :: "u32 \<Rightarrow> u32 \<Rightarrow> nat list \<Rightarrow> u32" where
  "gf2_terms poly q [] = 0"
| "gf2_terms poly q (k # ks) = (if bit q k then push_bit k poly else 0) XOR gf2_terms poly q ks"

definition gf2_mult :: "u32 \<Rightarrow> u32 \<Rightarrow> u32" where
  "gf2_mult poly q = gf2_terms poly q [0..<32]"

lemma gf2_terms_xor: "gf2_terms poly (q XOR r) ks = gf2_terms poly q ks XOR gf2_terms poly r ks"
  by (induction ks) (auto simp: bit_xor_iff ac_simps)

lemma gf2_terms_append: "gf2_terms poly q (ks @ ls) = gf2_terms poly q ks XOR gf2_terms poly q ls"
  by (induction ks) (auto simp: ac_simps)

lemma gf2_terms_none: "\<forall>k\<in>set ks. \<not> bit q k \<Longrightarrow> gf2_terms poly q ks = 0"
  by (induction ks) auto

lemma gf2_mult_xor: "gf2_mult poly (q XOR r) = gf2_mult poly q XOR gf2_mult poly r"
  by (simp add: gf2_mult_def gf2_terms_xor)

lemma gf2_mult_0 [simp]: "gf2_mult poly 0 = 0"
  by (simp add: gf2_mult_def gf2_terms_none)

lemma gf2_mult_exp: "k < 32 \<Longrightarrow> gf2_mult poly (2 ^ k) = push_bit k poly"
proof -
  assume k: "k < 32"
  then have "[0..<32] = [0..<k] @ k # [Suc k..<32]"
    by (metis le0 less_imp_le upt_conv_Cons upt_add_eq_append le_add_diff_inverse)
  then show ?thesis
    using k by (simp add: gf2_mult_def gf2_terms_append gf2_terms_none bit_exp_iff)
qed

lemma gf2_fold_quotient:
  assumes "poly \<noteq> 0" and "\<forall>i\<in>set is. poly_deg poly \<le> i \<and> i < 32"
  shows "\<exists>q. (\<forall>j. bit q j \<longrightarrow> j + poly_deg poly < 32) \<and>
    v = gf2_mult poly q XOR fold (gf2_step poly (Suc (poly_deg poly))) is v"
  using assms(2)
proof (induction "is" arbitrary: v)
  case Nil
  then show ?case by (intro exI [of _ 0]) simp
next
  case (Cons i "is")
  let ?d = "poly_deg poly" and ?v = "gf2_step poly (Suc (poly_deg poly)) i v"
  obtain q where q: "\<forall>j. bit q j \<longrightarrow> j + ?d < 32"
    and v: "?v = gf2_mult poly q XOR fold (gf2_step poly (Suc ?d)) is ?v"
    using Cons by (metis list.set_intros(2))
  define c :: u32 where "c = (if bit v i then 2 ^ (i - ?d) else 0)"
  have i: "?d \<le> i" "i < 32" using Cons.prems by auto
  have "v = gf2_mult poly c XOR ?v"
    using i by (auto simp: c_def gf2_step_alt gf2_mult_exp ac_simps)
  also have "\<dots> = gf2_mult poly (c XOR q) XOR fold (gf2_step poly (Suc ?d)) is ?v"
    by (subst v) (simp add: gf2_mult_xor ac_simps)
  finally have "v = gf2_mult poly (c XOR q) XOR fold (gf2_step poly (Suc ?d)) (i # is) v"
    by simp
  moreover have "\<forall>j. bit (c XOR q) j \<longrightarrow> j + ?d < 32"
    using q i by (auto simp: c_def bit_xor_iff bit_exp_iff split: if_splits)
  ultimately show ?case by blast
qed

lemma gf2_remainder_shifted_poly:
  assumes "poly \<noteq> 0" and "k + poly_deg poly < 32"
  shows "gf2_remainder poly (push_bit k poly) = 0"
proof -
  let ?d = "poly_deg poly" and ?v = "push_bit k poly"
  have split: "rev [?d..<32] = rev [Suc (k + ?d)..<32] @ (k + ?d) # rev [?d..<k + ?d]"
  proof -
    have "[?d..<32] = [?d..<k + ?d] @ [k + ?d..<32]"
      using assms(2) by (metis le_add2 le_add_diff_inverse less_imp_le upt_add_eq_append)
    also have "[k + ?d..<32] = (k + ?d) # [Suc (k + ?d)..<32]"
      using assms(2) by (rule upt_conv_Cons)
    finally show ?thesis by simp
  qed
  have "fold (gf2_step poly (Suc ?d)) (rev [Suc (k + ?d)..<32]) ?v = ?v"
    using bit_above_poly_deg [OF assms(1)]
    by (intro gf2_fold_small) (auto simp: bit_push_bit_iff)
  moreover have "gf2_step poly (Suc ?d) (k + ?d) ?v = 0"
    using assms bit_poly_deg [OF assms(1)]
    by (auto simp: gf2_step_alt bit_push_bit_iff)
  ultimately show ?thesis
    by (simp add: gf2_remainder_alt [OF assms(1)] split)
qed

lemma gf2_remainder_mult:
  assumes "poly \<noteq> 0" and "\<forall>j. bit q j \<longrightarrow> j + poly_deg poly < 32"
  shows "gf2_remainder poly (gf2_mult poly q) = 0"
proof -
  have "gf2_remainder poly (gf2_terms poly q ks) = 0" for ks
    using assms by (induction ks) (auto simp: gf2_remainder_xor gf2_remainder_shifted_poly)
  then show ?thesis by (simp add: gf2_mult_def)
qed

lemma gf2_division:
  assumes "poly \<noteq> 0"
  shows "\<exists>q. (\<forall>j. bit q j \<longrightarrow> j + poly_deg poly < 32) \<and>
    v = gf2_mult poly q XOR gf2_remainder poly v"
  using gf2_fold_quotient [OF assms, of "rev [poly_deg poly..<32]" v]
  by (simp add: gf2_remainder_alt [OF assms])

lemma gf2_remainder_unique:
  assumes "poly \<noteq> 0" and "\<forall>j. bit q j \<longrightarrow> j + poly_deg poly < 32"
    and "v = gf2_mult poly q XOR r" and "r < 2 ^ poly_deg poly"
  shows "gf2_remainder poly v = r"
proof -
  have "gf2_remainder poly r = r"
    using assms(1,4) poly_deg_less [OF assms(1)]
    by (intro gf2_remainder_small) (auto simp: word_less_exp_iff)
  then show ?thesis
    using assms by (simp add: gf2_remainder_xor gf2_remainder_mult)
qed

subsection \<open>Systematic encoding\<close>

definition gf2_encode :: "u32 \<Rightarrow> u32 \<Rightarrow> u32" where
  "gf2_encode poly d =
     push_bit (poly_deg poly) d XOR gf2_remainder poly (push_bit (poly_deg poly) d)"

lemma gf2_encode_codeword:
  assumes "poly \<noteq> 0"
  shows "gf2_remainder poly (gf2_encode poly d) = 0"
proof -
  have "gf2_remainder poly (gf2_remainder poly v) = gf2_remainder poly v" for v
    by (intro gf2_remainder_small gf2_remainder_high assms)
  then show ?thesis by (simp add: gf2_encode_def gf2_remainder_xor [OF assms])
qed

lemma gf2_encode_data:
  assumes "poly \<noteq> 0" and "\<forall>j. bit d j \<longrightarrow> j + poly_deg poly < 32"
  shows "drop_bit (poly_deg poly) (gf2_encode poly d) = d"
proof (rule bit_word_eqI)
  fix n
  have "\<not> bit (gf2_remainder poly v) (poly_deg poly + n)" for v
    using gf2_remainder_bit [OF assms(1), of v] by fastforce
  then show "bit (drop_bit (poly_deg poly) (gf2_encode poly d)) n = bit d n"
    using assms(2) by (auto simp: gf2_encode_def bit_simps add.commute)
qed

subsection \<open>Properties\<close>

text \<open>
  C8. The shift-and-subtract loop of \<open>gf2_remainder\<close> computes the remainder of polynomial
  division over GF(2): the result has a degree below the divisor's, the value is a multiple of
  the divisor plus the result, and no other reduced value is.
\<close>

theorem gf2_remainder_correct:
  assumes "poly \<noteq> 0"
  shows "gf2_remainder poly v < 2 ^ poly_deg poly \<and>
    (\<exists>q. (\<forall>j. bit q j \<longrightarrow> j + poly_deg poly < 32) \<and> v = gf2_mult poly q XOR gf2_remainder poly v) \<and>
    (\<forall>q r. (\<forall>j. bit q j \<longrightarrow> j + poly_deg poly < 32) \<longrightarrow> v = gf2_mult poly q XOR r \<longrightarrow>
       r < 2 ^ poly_deg poly \<longrightarrow> r = gf2_remainder poly v)"
proof (intro conjI allI impI)
  show "gf2_remainder poly v < 2 ^ poly_deg poly" using assms by (rule gf2_remainder_less)
  show "\<exists>q. (\<forall>j. bit q j \<longrightarrow> j + poly_deg poly < 32) \<and> v = gf2_mult poly q XOR gf2_remainder poly v"
    using assms by (rule gf2_division)
  show "r = gf2_remainder poly v"
    if "\<forall>j. bit q j \<longrightarrow> j + poly_deg poly < 32" "v = gf2_mult poly q XOR r" "r < 2 ^ poly_deg poly"
    for q r
    using gf2_remainder_unique [OF assms that] by simp
qed

lemma poly_deg_1207: "poly_deg 1207 = 10"
  by (simp add: poly_deg_def poly_bits_def clz32_def eval_simps)

theorem gf2_remainder_correct_witness:
  "(1207 :: u32) \<noteq> 0 \<and> gf2_remainder 1207 1024 = 183 \<and> gf2_remainder 1207 1024 < 2 ^ 10"
proof -
  have p: "(1207 :: u32) \<noteq> 0" by simp
  have "gf2_remainder 1207 1024 = 183"
    by (simp add: gf2_remainder_alt poly_deg_1207 gf2_step_alt eval_simps)
  moreover have "gf2_remainder 1207 1024 < 2 ^ 10"
    using gf2_remainder_correct [OF p, of 1024] unfolding poly_deg_1207 by blast
  ultimately show ?thesis using p by blast
qed

end
