(* ===== verification/Bch.thy ===== *)
theory Bch
  imports Gf2
begin

unbundle bit_operations_syntax

text \<open>
  Syndrome tables for BCH correction: \<open>build_syndrome_table\<close> of \<^verbatim>\<open>src/frame_decode.c\<close> and
  \<open>build_syn\<close> of \<^verbatim>\<open>src/ida_decode.c\<close>, which has the same loops. A table is a list indexed by
  the syndrome; \<open>errs = -1\<close> marks an uncorrectable syndrome.

  Every correctable entry is sound for any polynomial (\<open>build_syndrome_table_sound\<close>). For codes
  with a minimum distance the tables are also complete: the locales \<open>single_error_code\<close>
  (distance 3) and \<open>double_error_code\<close> (distance 5) state what a decoder relies on, and
  \<open>minimum_distance\<close> reduces the distance of a concrete code to a finite check.
\<close>

record syn_entry =
  errs :: int
  locator :: u32

definition uncorrectable :: syn_entry where
  "uncorrectable = \<lparr>errs = -1, locator = 0\<rparr>"

definition single_error_entry :: "u32 \<Rightarrow> nat \<Rightarrow> nat \<Rightarrow> syn_entry list \<Rightarrow> syn_entry list" where
  "single_error_entry poly table_size b1 syn =
     (let val = push_bit b1 1; r = gf2_remainder poly val
      in if r < of_nat table_size then syn[unat r := \<lparr>errs = 1, locator = val\<rparr>] else syn)"

definition double_error_entry ::
  "u32 \<Rightarrow> nat \<Rightarrow> nat \<Rightarrow> nat \<Rightarrow> syn_entry list \<Rightarrow> syn_entry list" where
  "double_error_entry poly table_size b1 b2 syn =
     (let val = push_bit b1 1 OR push_bit b2 1; r = gf2_remainder poly val
      in if r < of_nat table_size \<and> errs (syn ! unat r) < 0
         then syn[unat r := \<lparr>errs = 2, locator = val\<rparr>] else syn)"

definition build_syndrome_table ::
  "u32 \<Rightarrow> nat \<Rightarrow> nat \<Rightarrow> int \<Rightarrow> nat \<Rightarrow> syn_entry list" where
  "build_syndrome_table poly nbits synbits max_errors table_size =
     (let syn = replicate table_size uncorrectable;
          syn = fold (single_error_entry poly table_size) [0..<nbits] syn
      in if max_errors \<ge> 2
         then fold (\<lambda>b1. fold (double_error_entry poly table_size b1) [b1 + 1..<nbits]) [0..<nbits] syn
         else syn)"

text \<open>\<open>build_syn\<close> of \<^verbatim>\<open>src/ida_decode.c\<close>: the same three loops, without the unused \<open>synbits\<close>.\<close>

definition build_syn :: "u32 \<Rightarrow> nat \<Rightarrow> int \<Rightarrow> nat \<Rightarrow> syn_entry list" where
  "build_syn poly nbits max_errors table_size =
     (let syn = replicate table_size uncorrectable;
          syn = fold (single_error_entry poly table_size) [0..<nbits] syn
      in if max_errors \<ge> 2
         then fold (\<lambda>b1. fold (double_error_entry poly table_size b1) [b1 + 1..<nbits]) [0..<nbits] syn
         else syn)"

lemma build_syn_eq: "build_syn poly nbits me ts = build_syndrome_table poly nbits sb me ts"
  by (simp add: build_syn_def build_syndrome_table_def)

subsection \<open>Error patterns\<close>

definition weight :: "u32 \<Rightarrow> nat" where
  "weight w = length (filter (bit w) [0..<32])"

definition single_errors :: "nat \<Rightarrow> u32 list" where
  "single_errors n = map (\<lambda>b. 2 ^ b) [0..<n]"

primrec pairs_xor :: "u32 list \<Rightarrow> u32 list" where
  "pairs_xor [] = []"
| "pairs_xor (x # xs) = map (\<lambda>y. x XOR y) xs @ pairs_xor xs"

definition double_errors :: "nat \<Rightarrow> u32 list" where
  "double_errors n = pairs_xor (single_errors n)"

lemma map_pairs_xor:
  "(\<And>a b. f (a XOR b) = f a XOR f b) \<Longrightarrow> map f (pairs_xor xs) = pairs_xor (map f xs)"
  by (induction xs) auto

lemma set_pairs_xor:
  "z \<in> set (pairs_xor xs) \<longleftrightarrow> (\<exists>i j. i < j \<and> j < length xs \<and> z = xs ! i XOR xs ! j)"
proof (induction xs)
  case (Cons x xs)
  have "(\<exists>i j. i < j \<and> j < length (x # xs) \<and> z = (x # xs) ! i XOR (x # xs) ! j) \<longleftrightarrow>
     (\<exists>j<length xs. z = x XOR xs ! j) \<or> (\<exists>i j. i < j \<and> j < length xs \<and> z = xs ! i XOR xs ! j)"
    (is "?l \<longleftrightarrow> ?r")
  proof
    assume ?l
    then obtain i j where "i < j" "j < length (x # xs)" "z = (x # xs) ! i XOR (x # xs) ! j" by blast
    then show ?r by (cases i; cases j) auto
  next
    assume ?r
    then show ?l
    proof
      assume "\<exists>j<length xs. z = x XOR xs ! j"
      then obtain j where "j < length xs" "z = x XOR xs ! j" by blast
      then show ?l by (intro exI [of _ 0] exI [of _ "Suc j"]) simp
    next
      assume "\<exists>i j. i < j \<and> j < length xs \<and> z = xs ! i XOR xs ! j"
      then obtain i j where "i < j" "j < length xs" "z = xs ! i XOR xs ! j" by blast
      then show ?l by (intro exI [of _ "Suc i"] exI [of _ "Suc j"]) simp
    qed
  qed
  moreover have "z \<in> (\<lambda>y. x XOR y) ` set xs \<longleftrightarrow> (\<exists>j<length xs. z = x XOR xs ! j)"
    unfolding image_iff Bex_def in_set_conv_nth by blast
  ultimately show ?case using Cons.IH by simp
qed simp

lemma set_single_errors: "e \<in> set (single_errors n) \<longleftrightarrow> (\<exists>b<n. e = 2 ^ b)"
  by (auto simp: single_errors_def)

lemma set_double_errors:
  "e \<in> set (double_errors n) \<longleftrightarrow> (\<exists>i j. i < j \<and> j < n \<and> e = 2 ^ i XOR 2 ^ j)"
  by (fastforce simp: double_errors_def set_pairs_xor single_errors_def)

lemma word_eq_by_bits32: "(\<And>i. i < 32 \<Longrightarrow> bit v i = bit w i) \<Longrightarrow> v = w" for v w :: u32
  by (rule bit_word_eqI) simp

lemma weight_0_iff: "weight e = 0 \<longleftrightarrow> e = 0"
  by (auto simp: weight_def filter_empty_conv intro: word_eq_by_bits32)

lemma weight_1_dest:
  assumes "weight e = 1" and "\<forall>j\<ge>n. \<not> bit e j"
  shows "e \<in> set (single_errors n)"
proof -
  obtain b where b: "filter (bit e) [0..<32] = [b]"
    using assms(1) by (auto simp: weight_def length_Suc_conv)
  have "b \<in> set (filter (bit e) [0..<32])" by (simp add: b)
  then have eb: "bit e b" "b < 32" by auto
  have "bit e i \<longleftrightarrow> i = b" if "i < 32" for i
  proof -
    have "bit e i \<longleftrightarrow> i \<in> set (filter (bit e) [0..<32])" using that by simp
    then show ?thesis by (simp add: b)
  qed
  then have "e = 2 ^ b" using eb by (intro word_eq_by_bits32) (auto simp: bit_exp_iff)
  moreover have "b < n" using assms(2) eb by (meson not_less)
  ultimately show ?thesis by (auto simp: set_single_errors)
qed

lemma weight_2_dest:
  assumes "weight e = 2" and "\<forall>j\<ge>n. \<not> bit e j"
  shows "e \<in> set (double_errors n)"
proof -
  obtain a b where ab: "filter (bit e) [0..<32] = [a, b]"
    using assms(1) by (auto simp: weight_def length_Suc_conv numeral_2_eq_2)
  have "sorted_wrt (<) (filter (bit e) [0..<32])"
    by (intro sorted_wrt_filter) simp
  then have lt: "a < b" by (simp add: ab)
  have "a \<in> set (filter (bit e) [0..<32])" "b \<in> set (filter (bit e) [0..<32])" by (simp_all add: ab)
  then have e: "bit e a" "bit e b" "b < 32" by auto
  have "bit e i \<longleftrightarrow> i = a \<or> i = b" if "i < 32" for i
  proof -
    have "bit e i \<longleftrightarrow> i \<in> set (filter (bit e) [0..<32])" using that by simp
    then show ?thesis by (simp add: ab)
  qed
  then have "e = 2 ^ a XOR 2 ^ b"
    using e lt by (intro word_eq_by_bits32) (auto simp: bit_exp_iff bit_xor_iff)
  moreover have "b < n" using assms(2) e by (meson not_less)
  ultimately show ?thesis using lt by (auto simp: set_double_errors)
qed

lemma weight_card: "weight w = card {i. i < 32 \<and> bit w i}"
proof -
  have "weight w = card (set (filter (bit w) [0..<32]))"
    unfolding weight_def by (rule distinct_card [symmetric]) simp
  then show ?thesis by (simp add: conj_commute)
qed

lemma weight_single: "b < 32 \<Longrightarrow> weight (2 ^ b) = 1"
proof -
  assume "b < 32"
  then have "{i. i < 32 \<and> bit ((2::u32) ^ b) i} = {b}" by (auto simp: bit_exp_iff)
  then show ?thesis by (simp add: weight_card)
qed

lemma weight_double: "a < b \<Longrightarrow> b < 32 \<Longrightarrow> weight (2 ^ a XOR 2 ^ b) = 2"
proof -
  assume "a < b" "b < 32"
  then have "{i. i < 32 \<and> bit ((2::u32) ^ a XOR 2 ^ b) i} = {a, b}"
    by (auto simp: bit_exp_iff bit_xor_iff)
  then show ?thesis using \<open>a < b\<close> by (simp add: weight_card)
qed

lemma bits_below_32: "{i. i < 32 \<and> bit w i} = {i. bit w i}" for w :: u32
  by (auto dest: bit_imp_le_length)

lemma finite_bits [simp]: "finite {i. bit w i}" for w :: u32
  by (metis bits_below_32 finite_Collect_conjI finite_Collect_less_nat)

lemma weight_bits: "weight w = card {i. bit w i}"
  by (simp add: weight_card bits_below_32)

lemma weight_xor_le: "weight (v XOR w) \<le> weight v + weight w"
proof -
  have "weight (v XOR w) \<le> card ({i. bit v i} \<union> {i. bit w i})"
    unfolding weight_bits by (intro card_mono) (auto simp: bit_xor_iff)
  also have "\<dots> \<le> weight v + weight w"
    unfolding weight_bits by (rule card_Un_le)
  finally show ?thesis .
qed

lemma weight_flip: "bit e b \<Longrightarrow> weight e = Suc (weight (e XOR 2 ^ b))"
proof -
  assume b: "bit e b"
  then have "b < 32" by (auto dest: bit_imp_le_length)
  then have "{i. bit (e XOR 2 ^ b) i} = {i. bit e i} - {b}"
    using b by (auto simp: bit_xor_iff bit_exp_iff)
  then show ?thesis using b by (simp add: weight_bits card_Suc_Diff1 del: card_Diff_insert)
qed

lemma weight_drop_bit:
  assumes "\<forall>i<m. \<not> bit e i"
  shows "weight (drop_bit m e) = weight e"
proof -
  have "{i. bit e i} = (+) m ` {i. bit (drop_bit m e) i}" (is "?l = ?r")
  proof
    show "?l \<subseteq> ?r"
    proof
      fix i assume i: "i \<in> ?l"
      then have "m \<le> i" using assms by (meson mem_Collect_eq not_less)
      then have "i = m + (i - m)" by simp
      moreover have "bit (drop_bit m e) (i - m)" using i \<open>m \<le> i\<close> by (simp add: bit_drop_bit_eq)
      ultimately show "i \<in> ?r" by blast
    qed
  qed (auto simp: bit_drop_bit_eq)
  then show ?thesis by (simp add: weight_bits card_image)
qed

lemma weight_le_2_dest:
  assumes "weight e \<le> 2" and "e < 2 ^ n" and "n < 32"
  shows "e = 0 \<or> e \<in> set (single_errors n) \<or> e \<in> set (double_errors n)"
proof -
  have "\<forall>j\<ge>n. \<not> bit e j" using assms by (simp add: word_less_exp_iff)
  then show ?thesis
    using assms(1) weight_0_iff [of e] weight_1_dest [of e n] weight_2_dest [of e n]
    by (cases "weight e = 0"; cases "weight e = 1") auto
qed

subsection \<open>Every correctable entry is sound\<close>

definition entry_sound :: "u32 \<Rightarrow> nat \<Rightarrow> int \<Rightarrow> nat \<Rightarrow> syn_entry \<Rightarrow> bool" where
  "entry_sound poly nbits t i en \<longleftrightarrow>
     (errs en \<ge> 0 \<longrightarrow>
       unat (gf2_remainder poly (locator en)) = i \<and> locator en < 2 ^ nbits \<and>
       errs en = int (weight (locator en)) \<and> 1 \<le> errs en \<and> errs en \<le> t)"

definition table_sound :: "u32 \<Rightarrow> nat \<Rightarrow> int \<Rightarrow> nat \<Rightarrow> syn_entry list \<Rightarrow> bool" where
  "table_sound poly nbits t ts syn \<longleftrightarrow>
     length syn = ts \<and> (\<forall>i<ts. entry_sound poly nbits t i (syn ! i))"

lemma table_sound_update:
  assumes "table_sound poly nbits t ts syn" and "entry_sound poly nbits t i en"
  shows "table_sound poly nbits t ts (syn[i := en])"
  using assms by (cases "i < ts") (auto simp: table_sound_def nth_list_update list_update_beyond)

lemma table_sound_mono: "table_sound poly nbits t ts syn \<Longrightarrow> t \<le> t' \<Longrightarrow> table_sound poly nbits t' ts syn"
  unfolding table_sound_def entry_sound_def by force

lemma single_error_entry_sound:
  assumes "table_sound poly nbits t ts syn" and "b < nbits" and "nbits < 32" and "1 \<le> t"
  shows "table_sound poly nbits t ts (single_error_entry poly ts b syn)"
proof -
  have "(2::u32) ^ b < 2 ^ nbits"
    using assms(2,3) by (auto simp: word_less_exp_iff bit_exp_iff)
  then have "entry_sound poly nbits t (unat (gf2_remainder poly (2 ^ b)))
      \<lparr>errs = 1, locator = 2 ^ b\<rparr>"
    using assms(2-4) by (simp add: entry_sound_def weight_single)
  then show ?thesis
    using assms(1) by (auto simp: single_error_entry_def Let_def table_sound_update)
qed

lemma or_exp_eq_xor: "a \<noteq> b \<Longrightarrow> 2 ^ a OR 2 ^ b = (2 ^ a XOR 2 ^ b :: u32)"
  by (intro bit_word_eqI) (auto simp: bit_or_iff bit_xor_iff bit_exp_iff)

lemma double_error_entry_sound:
  assumes "table_sound poly nbits t ts syn" and "a < b" and "b < nbits" and "nbits < 32" and "2 \<le> t"
  shows "table_sound poly nbits t ts (double_error_entry poly ts a b syn)"
proof -
  have "(2::u32) ^ a XOR 2 ^ b < 2 ^ nbits"
    using assms by (auto simp: word_less_exp_iff bit_exp_iff bit_xor_iff)
  then have "entry_sound poly nbits t (unat (gf2_remainder poly (2 ^ a XOR 2 ^ b)))
      \<lparr>errs = 2, locator = 2 ^ a XOR 2 ^ b\<rparr>"
    using assms by (simp add: entry_sound_def weight_double)
  then show ?thesis
    using assms(1,2) by (auto simp: double_error_entry_def Let_def table_sound_update or_exp_eq_xor)
qed

definition single_table :: "u32 \<Rightarrow> nat \<Rightarrow> nat \<Rightarrow> syn_entry list" where
  "single_table poly nbits ts =
     fold (single_error_entry poly ts) [0..<nbits] (replicate ts uncorrectable)"

lemma build_syndrome_table_alt:
  "build_syndrome_table poly nbits sb me ts =
     (if me \<ge> 2
      then fold (\<lambda>b1. fold (double_error_entry poly ts b1) [b1 + 1..<nbits]) [0..<nbits]
             (single_table poly nbits ts)
      else single_table poly nbits ts)"
  by (simp add: build_syndrome_table_def single_table_def Let_def)

lemma single_table_sound:
  assumes "nbits < 32"
  shows "table_sound poly nbits 1 ts (single_table poly nbits ts)"
  unfolding single_table_def
proof (rule fold_preserves)
  show "table_sound poly nbits 1 ts (replicate ts uncorrectable)"
    by (simp add: table_sound_def entry_sound_def uncorrectable_def)
qed (use assms in \<open>simp add: single_error_entry_sound\<close>)

lemma double_errors_fold_sound:
  assumes "nbits < 32" and "b1 < nbits" and "table_sound poly nbits 2 ts s"
  shows "table_sound poly nbits 2 ts (fold (double_error_entry poly ts b1) [b1 + 1..<nbits] s)"
  using assms(3) by (rule fold_preserves) (use assms in \<open>simp add: double_error_entry_sound\<close>)

lemma build_syndrome_table_sound:
  assumes "nbits < 32"
  shows "table_sound poly nbits 2 ts (build_syndrome_table poly nbits sb me ts)"
proof -
  have s: "table_sound poly nbits 2 ts (single_table poly nbits ts)"
    using single_table_sound [OF assms] by (rule table_sound_mono) simp
  moreover have "table_sound poly nbits 2 ts
      (fold (\<lambda>b1. fold (double_error_entry poly ts b1) [b1 + 1..<nbits]) [0..<nbits]
        (single_table poly nbits ts))"
    using s by (rule fold_preserves) (use assms double_errors_fold_sound in auto)
  ultimately show ?thesis by (simp add: build_syndrome_table_alt)
qed

lemma length_build_syndrome_table:
  "nbits < 32 \<Longrightarrow> length (build_syndrome_table poly nbits sb me ts) = ts"
  using build_syndrome_table_sound by (simp add: table_sound_def)

subsection \<open>Correctable entries stay correctable\<close>

lemma length_single_error_entry [simp]: "length (single_error_entry poly ts b syn) = length syn"
  by (simp add: single_error_entry_def Let_def)

lemma length_double_error_entry [simp]: "length (double_error_entry poly ts a b syn) = length syn"
  by (simp add: double_error_entry_def Let_def)

lemma length_single_table [simp]: "length (single_table poly nbits ts) = ts"
  unfolding single_table_def by (rule fold_preserves) auto

lemma single_error_entry_nonneg:
  "0 \<le> errs (syn ! i) \<Longrightarrow> i < length syn \<Longrightarrow> 0 \<le> errs (single_error_entry poly ts b syn ! i)"
  by (auto simp: single_error_entry_def Let_def nth_list_update_read)

lemma double_error_entry_keeps:
  "0 \<le> errs (syn ! i) \<Longrightarrow> i < length syn \<Longrightarrow> double_error_entry poly ts a b syn ! i = syn ! i"
  by (auto simp: double_error_entry_def Let_def nth_list_update_read)

lemma double_errors_fold_keeps:
  assumes "0 \<le> errs (syn ! i)" and "i < length syn"
  shows "fold (double_error_entry poly ts b1) bs syn ! i = syn ! i"
proof -
  have "length (fold (double_error_entry poly ts b1) bs syn) = length syn \<and>
     fold (double_error_entry poly ts b1) bs syn ! i = syn ! i"
    using assms
    by (induction bs arbitrary: syn) (auto simp: double_error_entry_keeps)
  then show ?thesis by blast
qed

lemma length_double_errors_fold [simp]:
  "length (fold (double_error_entry poly ts b1) bs syn) = length syn"
  by (induction bs arbitrary: syn) auto

lemma build_syndrome_table_keeps:
  assumes "0 \<le> errs (single_table poly nbits ts ! i)" and "i < ts"
  shows "build_syndrome_table poly nbits sb me ts ! i = single_table poly nbits ts ! i"
proof -
  have "fold (\<lambda>b1. fold (double_error_entry poly ts b1) [b1 + 1..<nbits]) bs syn ! i = syn ! i"
    if "0 \<le> errs (syn ! i)" "i < length syn" for bs syn
    using that by (induction bs arbitrary: syn) (simp_all add: double_errors_fold_keeps)
  then show ?thesis using assms by (simp add: build_syndrome_table_alt)
qed

subsection \<open>Codes with a minimum distance\<close>

locale syndrome_code =
  fixes poly :: u32 and nbits :: nat and table_size :: nat
  assumes poly_nonzero: "poly \<noteq> 0"
    and nbits_less: "nbits < 32"
    and table_size: "table_size = 2 ^ poly_deg poly"
begin

lemma syndrome_in_table: "gf2_remainder poly v < of_nat table_size"
  using gf2_remainder_less [OF poly_nonzero] by (simp add: table_size)

lemma unat_syndrome_less: "unat (gf2_remainder poly v) < table_size"
proof -
  have "unat (gf2_remainder poly v) < unat (2 ^ poly_deg poly :: u32)"
    using gf2_remainder_less [OF poly_nonzero] by (simp add: word_less_nat_alt)
  then show ?thesis
    using poly_deg_less [OF poly_nonzero] by (simp add: table_size unat_exp)
qed

lemma xor_less: "a < 2 ^ nbits \<Longrightarrow> b < 2 ^ nbits \<Longrightarrow> a XOR b < (2 ^ nbits :: u32)"
  using nbits_less by (auto simp: word_less_exp_iff bit_xor_iff)

lemma syndrome_of_received:
  "gf2_remainder poly c = 0 \<Longrightarrow> gf2_remainder poly (c XOR e) = gf2_remainder poly e"
  by (simp add: gf2_remainder_xor [OF poly_nonzero])

end

locale single_error_code = syndrome_code +
  assumes distance3: "e < 2 ^ nbits \<Longrightarrow> e \<noteq> 0 \<Longrightarrow> weight e \<le> 2 \<Longrightarrow> gf2_remainder poly e \<noteq> 0"
begin

lemma single_syndrome_inj:
  assumes "v < 2 ^ nbits" "w < 2 ^ nbits" "weight v \<le> 1" "weight w \<le> 1"
    and "gf2_remainder poly v = gf2_remainder poly w"
  shows "v = w"
proof (rule ccontr)
  assume "v \<noteq> w"
  then have "v XOR w \<noteq> 0" by (metis xor.right_neutral xor.assoc xor_self_eq)
  moreover have "weight (v XOR w) \<le> 2" using weight_xor_le [of v w] assms by simp
  ultimately have "gf2_remainder poly (v XOR w) \<noteq> 0"
    using distance3 [OF xor_less [OF assms(1,2)]] by simp
  then show False using assms(5) by (simp add: gf2_remainder_xor [OF poly_nonzero])
qed

lemma single_table_nonneg:
  assumes "b < nbits"
  shows "0 \<le> errs (single_table poly nbits table_size ! unat (gf2_remainder poly (2 ^ b)))"
  unfolding single_table_def
proof (rule fold_establishes [where I = "\<lambda>s. length s = table_size" and x = b])
  show "0 \<le> errs (single_error_entry poly table_size b s ! unat (gf2_remainder poly (2 ^ b)))"
    if "length s = table_size" for s
    using that unat_syndrome_less [of "2 ^ b"] syndrome_in_table [of "2 ^ b"]
    by (simp add: single_error_entry_def Let_def)
qed (use assms unat_syndrome_less in \<open>auto simp: single_error_entry_nonneg\<close>)

lemma exp_less: "b < nbits \<Longrightarrow> (2 :: u32) ^ b < 2 ^ nbits"
  using nbits_less by (auto simp: word_less_exp_iff bit_exp_iff)

lemma single_entry:
  assumes "b < nbits"
  shows "build_syndrome_table poly nbits sb me table_size ! unat (gf2_remainder poly (2 ^ b)) =
    \<lparr>errs = 1, locator = 2 ^ b\<rparr>"
proof -
  let ?i = "unat (gf2_remainder poly (2 ^ b))" and ?t = "single_table poly nbits table_size"
  define en where "en = ?t ! ?i"
  have nn: "0 \<le> errs en" unfolding en_def using assms by (rule single_table_nonneg)
  have "entry_sound poly nbits 1 ?i en"
    using single_table_sound [OF nbits_less] unat_syndrome_less by (simp add: table_sound_def en_def)
  then have e: "gf2_remainder poly (locator en) = gf2_remainder poly (2 ^ b)"
    "locator en < 2 ^ nbits" "errs en = 1" "weight (locator en) = 1"
    using nn by (auto simp: entry_sound_def word_unat_eq_iff)
  have "weight (2 ^ b) \<le> 1" using assms nbits_less by (simp add: weight_single)
  then have "locator en = 2 ^ b"
    using e(4) by (intro single_syndrome_inj [OF e(2) exp_less [OF assms] _ _ e(1)]) simp_all
  then have "en = \<lparr>errs = 1, locator = 2 ^ b\<rparr>"
    using e(3) by (cases en) simp
  then show ?thesis
    using build_syndrome_table_keeps [OF nn [unfolded en_def] unat_syndrome_less] by (simp add: en_def)
qed

lemma single_error_corrected:
  assumes "weight e = 1" and "e < 2 ^ nbits"
  shows "build_syndrome_table poly nbits sb me table_size ! unat (gf2_remainder poly e) =
    \<lparr>errs = 1, locator = e\<rparr>"
proof -
  have "e \<in> set (single_errors nbits)"
    using assms nbits_less by (intro weight_1_dest) (auto simp: word_less_exp_iff)
  then show ?thesis using single_entry by (auto simp: set_single_errors)
qed

end

locale double_error_code = syndrome_code +
  assumes distance5: "e < 2 ^ nbits \<Longrightarrow> e \<noteq> 0 \<Longrightarrow> weight e \<le> 4 \<Longrightarrow> gf2_remainder poly e \<noteq> 0"

sublocale double_error_code \<subseteq> single_error_code
  by unfold_locales (rule distance5, auto)

context double_error_code
begin

lemma syndrome_inj:
  assumes "v < 2 ^ nbits" "w < 2 ^ nbits" "weight v \<le> 2" "weight w \<le> 2"
    and "gf2_remainder poly v = gf2_remainder poly w"
  shows "v = w"
proof (rule ccontr)
  assume "v \<noteq> w"
  then have "v XOR w \<noteq> 0" by (metis xor.right_neutral xor.assoc xor_self_eq)
  moreover have "weight (v XOR w) \<le> 4" using weight_xor_le [of v w] assms by simp
  ultimately have "gf2_remainder poly (v XOR w) \<noteq> 0"
    using distance5 [OF xor_less [OF assms(1,2)]] by simp
  then show False using assms(5) by (simp add: gf2_remainder_xor [OF poly_nonzero])
qed

lemma double_table_nonneg:
  assumes "a < b" and "b < nbits" and "2 \<le> me"
  shows "0 \<le> errs (build_syndrome_table poly nbits sb me table_size !
    unat (gf2_remainder poly (2 ^ a XOR 2 ^ b)))" (is "0 \<le> errs (_ ! ?i)")
proof -
  have inner: "0 \<le> errs (fold (double_error_entry poly table_size a) [a + 1..<nbits] s ! ?i)"
    if "length s = table_size" for s
  proof (rule fold_establishes [where I = "\<lambda>s. length s = table_size" and x = b])
    show "0 \<le> errs (double_error_entry poly table_size a b s' ! ?i)"
      if "length s' = table_size" for s'
      using that assms(1) unat_syndrome_less [of "2 ^ a XOR 2 ^ b"]
        syndrome_in_table [of "2 ^ a XOR 2 ^ b"]
      by (simp add: double_error_entry_def Let_def or_exp_eq_xor)
  qed (use that assms unat_syndrome_less in \<open>auto simp: double_error_entry_keeps\<close>)
  have "0 \<le> errs (fold (\<lambda>b1. fold (double_error_entry poly table_size b1) [b1 + 1..<nbits])
      [0..<nbits] (single_table poly nbits table_size) ! ?i)"
    by (rule fold_establishes [where I = "\<lambda>s. length s = table_size" and x = a])
      (use assms inner unat_syndrome_less in \<open>auto simp: double_errors_fold_keeps\<close>)
  then show ?thesis using assms(3) by (simp add: build_syndrome_table_alt)
qed

lemma error_corrected:
  assumes "weight e \<le> 2" and "e < 2 ^ nbits" and "e \<noteq> 0" and "2 \<le> me"
  shows "build_syndrome_table poly nbits sb me table_size ! unat (gf2_remainder poly e) =
    \<lparr>errs = int (weight e), locator = e\<rparr>"
proof -
  let ?i = "unat (gf2_remainder poly e)"
  define en where "en = build_syndrome_table poly nbits sb me table_size ! ?i"
  consider i where "i < nbits" "e = 2 ^ i"
    | i j where "i < j" "j < nbits" "e = 2 ^ i XOR 2 ^ j"
    using weight_le_2_dest [OF assms(1,2) nbits_less] assms(3)
    by (auto simp: set_single_errors set_double_errors)
  then have nn: "0 \<le> errs en"
    using double_table_nonneg [OF _ _ assms(4)] single_entry [of _ sb me]
    by cases (simp_all add: en_def)
  have "entry_sound poly nbits 2 ?i en"
    using build_syndrome_table_sound [OF nbits_less] unat_syndrome_less
    by (simp add: table_sound_def en_def)
  then have l: "gf2_remainder poly (locator en) = gf2_remainder poly e"
    "locator en < 2 ^ nbits" "errs en = int (weight (locator en))" "weight (locator en) \<le> 2"
    using nn by (auto simp: entry_sound_def word_unat_eq_iff)
  have "locator en = e"
    by (rule syndrome_inj [OF l(2) assms(2) l(4) assms(1) l(1)])
  then have "en = \<lparr>errs = int (weight e), locator = e\<rparr>" using l(3) by (cases en) simp
  then show ?thesis by (simp add: en_def)
qed

end

subsection \<open>Deciding the minimum distance\<close>

definition mulx :: "u32 \<Rightarrow> u32 \<Rightarrow> u32" where
  "mulx poly v =
     (let w = push_bit 1 v in if bit w (poly_deg poly) then w XOR poly else w)"

fun xpowers :: "u32 \<Rightarrow> u32 \<Rightarrow> nat \<Rightarrow> u32 list" where
  "xpowers poly v 0 = []"
| "xpowers poly v (Suc n) = v # xpowers poly (mulx poly v) n"

text \<open>\<open>no_sum k xs v\<close>: no at most \<open>k\<close> members of \<open>xs\<close> have the sum \<open>v\<close>.\<close>

fun no_sum :: "nat \<Rightarrow> nat list \<Rightarrow> nat \<Rightarrow> bool" where
  "no_sum k [] v \<longleftrightarrow> v \<noteq> 0"
| "no_sum 0 (x # xs) v \<longleftrightarrow> v \<noteq> 0"
| "no_sum (Suc k) (x # xs) v \<longleftrightarrow> no_sum (Suc k) xs v \<and> no_sum k xs (v XOR x)"

lemma no_sum_nonzero: "no_sum k xs v \<Longrightarrow> v \<noteq> 0"
  by (induction k xs v rule: no_sum.induct) auto

lemma no_sum_sound:
  assumes "poly \<noteq> 0" and "distinct bs"
    and "no_sum k (map (\<lambda>b. unat (gf2_remainder poly (2 ^ b))) bs) (unat v)"
    and "{j. bit e j} \<subseteq> set bs" and "weight e \<le> k"
  shows "gf2_remainder poly e \<noteq> v"
  using assms(2-)
proof (induction bs arbitrary: k v e)
  case Nil
  then have "e = 0" by (auto simp: bit_eq_iff)
  with Nil show ?case by auto
next
  case (Cons b bs)
  show ?case
  proof (cases "bit e b")
    case True
    let ?e = "e XOR 2 ^ b" and ?r = "gf2_remainder poly (2 ^ b)"
    have w: "weight e = Suc (weight ?e)" using True by (rule weight_flip)
    then obtain k' where k: "k = Suc k'" using Cons.prems(4) by (cases k) auto
    have "{j. bit ?e j} \<subseteq> set bs"
      using Cons.prems(3) True by (auto simp: bit_xor_iff bit_exp_iff dest: bit_imp_le_length)
    moreover have "no_sum k' (map (\<lambda>b. unat (gf2_remainder poly (2 ^ b))) bs) (unat (v XOR ?r))"
      using Cons.prems(2) by (simp add: k unsigned_xor_eq)
    ultimately have "gf2_remainder poly ?e \<noteq> v XOR ?r"
      using Cons.IH [of k' "v XOR ?r" ?e] Cons.prems(1,4) w k by simp
    moreover have "gf2_remainder poly e = gf2_remainder poly ?e XOR ?r"
      by (simp add: gf2_remainder_xor [OF assms(1)] xor.assoc)
    ultimately show ?thesis by (metis xor.assoc xor_self_eq xor.right_neutral)
  next
    case False
    have "{j. bit e j} \<subseteq> set bs" using Cons.prems(3) False by auto
    then show ?thesis
      using Cons.IH [of k v e] Cons.prems
      by (cases k) (auto simp: weight_0_iff dest: no_sum_nonzero)
  qed
qed

lemma gf2_fold_shift:
  assumes "\<forall>i\<in>set is. d \<le> i \<and> i < 31"
  shows "fold (gf2_step poly (Suc d)) (map Suc is) (push_bit 1 v) =
    push_bit 1 (fold (gf2_step poly (Suc d)) is v)"
  using assms
proof (induction "is" arbitrary: v)
  case (Cons i "is")
  have "gf2_step poly (Suc d) (Suc i) (push_bit 1 v) = push_bit 1 (gf2_step poly (Suc d) i v)"
  proof -
    have "bit (push_bit 1 v) (Suc i) = bit v i"
      using Cons.prems by (simp only: bit_push_bit_iff) simp
    moreover have "Suc i + 1 - Suc d = 1 + (i + 1 - Suc d)" using Cons.prems by auto
    then have "push_bit (Suc i + 1 - Suc d) poly = push_bit 1 (push_bit (i + 1 - Suc d) poly)"
      by (simp only: push_bit_push_bit)
    ultimately show ?thesis
      by (cases "bit v i") (simp_all only: gf2_step_alt push_bit_xor push_bit_of_0 if_True if_False)
  qed
  then show ?case using Cons by (simp only: fold_simps list.map) simp
qed simp

lemma gf2_remainder_shift:
  assumes "poly \<noteq> 0" and "poly_deg poly < 31" and "\<not> bit v 31"
  shows "gf2_remainder poly (push_bit 1 v) = mulx poly (gf2_remainder poly v)"
proof -
  let ?d = "poly_deg poly" and ?f = "fold (gf2_step poly (Suc (poly_deg poly)))"
  have u: "rev [?d..<32] = map Suc (rev [?d..<31]) @ [?d]"
  proof -
    have "[?d..<32] = ?d # [Suc ?d..<32]" using assms(2) by (intro upt_conv_Cons) simp
    also have "[Suc ?d..<32] = map Suc [?d..<31]" by (simp add: map_Suc_upt)
    finally show ?thesis by (simp add: rev_map)
  qed
  have "rev [?d..<32] = 31 # rev [?d..<31]"
    using assms(2) upt_Suc_append [of ?d 31] by simp
  then have v: "gf2_remainder poly v = ?f (rev [?d..<31]) v"
    using assms(3) by (simp add: gf2_remainder_alt [OF assms(1)] gf2_step_alt)
  have "gf2_remainder poly (push_bit 1 v) =
      gf2_step poly (Suc ?d) ?d (?f (map Suc (rev [?d..<31])) (push_bit 1 v))"
    by (simp only: gf2_remainder_alt [OF assms(1)] u) simp
  also have "\<dots> = gf2_step poly (Suc ?d) ?d (push_bit 1 (gf2_remainder poly v))"
    by (subst gf2_fold_shift) (auto simp: v)
  finally show ?thesis by (simp only: mulx_def gf2_step_alt Let_def) simp
qed

lemma mulx_0_dest:
  assumes "poly \<noteq> 0" and "bit poly 0" and "poly_deg poly < 31"
    and "\<forall>j\<ge>poly_deg poly. \<not> bit v j" and "mulx poly v = 0"
  shows "v = 0"
proof (cases "bit (push_bit 1 v) (poly_deg poly)")
  case True
  then have "push_bit 1 v XOR poly = 0" using assms(5) by (simp only: mulx_def Let_def if_True)
  then have "\<not> bit (push_bit 1 v XOR poly) 0" by (simp only: bit_0_eq) simp
  moreover have "\<not> bit (push_bit 1 v) 0" by (simp only: bit_push_bit_iff) simp
  ultimately show ?thesis using assms(2) by (simp only: bit_xor_iff) simp
next
  case False
  then have "push_bit 1 v = 0" using assms(5) by (simp only: mulx_def Let_def if_False)
  then have z: "\<not> bit (push_bit 1 v) (Suc j)" for j by (simp only: bit_0_eq) simp
  have "\<not> bit v j" for j
  proof (cases "j < 31")
    case True
    then have "bit (push_bit 1 v) (Suc j) = bit v j" by (simp only: bit_push_bit_iff) simp
    then show ?thesis using z by blast
  next
    case False
    then show ?thesis using assms(3,4) by simp
  qed
  then show ?thesis by (intro bit_word_eqI) simp
qed


lemma gf2_remainder_push_0_dest:
  assumes "poly \<noteq> 0" and "bit poly 0" and "poly_deg poly < 31"
    and "\<forall>j. bit v j \<longrightarrow> j + m < 32" and "gf2_remainder poly (push_bit m v) = 0"
  shows "gf2_remainder poly v = 0"
  using assms(4,5)
proof (induction m)
  case (Suc m)
  have "push_bit (Suc m) v = push_bit 1 (push_bit m v)"
    by (simp only: push_bit_push_bit) simp
  moreover have "\<not> bit (push_bit m v) 31"
    using Suc.prems(1) by (auto simp: bit_push_bit_iff)
  ultimately have "mulx poly (gf2_remainder poly (push_bit m v)) = 0"
    using Suc.prems(2) gf2_remainder_shift [OF assms(1,3), of "push_bit m v"] by simp
  then have "gf2_remainder poly (push_bit m v) = 0"
    by (rule mulx_0_dest [OF assms(1-3) gf2_remainder_high [OF assms(1)]])
  moreover have "\<forall>j. bit v j \<longrightarrow> j + m < 32" using Suc.prems(1) by fastforce
  ultimately show ?case using Suc.IH by blast
qed simp

lemma gf2_remainder_1: "poly \<noteq> 0 \<Longrightarrow> 0 < poly_deg poly \<Longrightarrow> gf2_remainder poly 1 = 1"
  by (intro gf2_remainder_small) (auto simp: bit_1_iff)

lemma xpowers_syndromes:
  assumes "poly \<noteq> 0" and "poly_deg poly < 31" and "k + n \<le> 32"
  shows "map (\<lambda>b. gf2_remainder poly (2 ^ b)) [k..<k + n] =
    xpowers poly (gf2_remainder poly (2 ^ k)) n"
  using assms(3)
proof (induction n arbitrary: k)
  case (Suc n)
  have "gf2_remainder poly (2 ^ Suc k) = mulx poly (gf2_remainder poly (2 ^ k))" if "0 < n"
  proof -
    have "\<not> bit ((2::u32) ^ k) 31" using Suc.prems that by (auto simp: bit_exp_iff)
    moreover have e: "(2::u32) ^ Suc k = push_bit 1 (2 ^ k)" by simp
    ultimately show ?thesis unfolding e by (intro gf2_remainder_shift [OF assms(1,2)])
  qed
  moreover have "[k..<k + Suc n] = k # [Suc k..<Suc k + n]" by (simp add: upt_conv_Cons)
  ultimately show ?case
    using Suc.IH [of "Suc k"] Suc.prems by (cases n) auto
qed simp

lemma minimum_distance:
  assumes "poly \<noteq> 0" and "bit poly 0" and "0 < poly_deg poly" and "poly_deg poly < 31"
    and "n < 32" and "no_sum t (map unat (tl (xpowers poly 1 n))) 1"
    and "e < 2 ^ n" and "e \<noteq> 0" and "weight e \<le> Suc t"
  shows "gf2_remainder poly e \<noteq> 0"
proof
  assume r: "gf2_remainder poly e = 0"
  have hi: "\<forall>j\<ge>n. \<not> bit e j" using assms(5,7) by (simp add: word_less_exp_iff)
  define m where "m = (LEAST j. bit e j)"
  have m: "bit e m" "\<forall>i<m. \<not> bit e i"
    using assms(8) unfolding m_def by (auto simp: bit_eq_iff dest: not_less_Least intro: LeastI)
  define v where "v = drop_bit m e"
  have pv: "push_bit m v = e"
  proof (rule bit_word_eqI)
    fix j assume "j < LENGTH(32)"
    then show "bit (push_bit m v) j = bit e j"
      using m(2) by (cases "m \<le> j") (auto simp: v_def bit_push_bit_iff bit_drop_bit_eq)
  qed
  have vn: "j + m < n" if "bit v j" for j
  proof -
    have "bit e (m + j)" using that by (simp add: v_def bit_drop_bit_eq)
    then show ?thesis using hi by (metis add.commute not_less)
  qed
  have v0: "bit v 0" using m(1) by (simp add: v_def bit_drop_bit_eq)
  have "gf2_remainder poly v = 0"
    using r pv vn assms(5) by (intro gf2_remainder_push_0_dest [OF assms(1,2,4), of v m]) force+
  then have *: "gf2_remainder poly (v XOR 2 ^ 0) = 1"
    using assms(1,3) by (simp add: gf2_remainder_xor gf2_remainder_1)
  have n: "0 < n" using vn [OF v0] by simp
  have "map (\<lambda>b. gf2_remainder poly (2 ^ b)) [0..<n] = xpowers poly 1 n"
    using xpowers_syndromes [OF assms(1,4), of 0 n] assms(5) gf2_remainder_1 [OF assms(1,3)]
    by simp
  then have S: "xpowers poly 1 n = map (\<lambda>b. gf2_remainder poly (2 ^ b)) [0..<n]" by simp
  have "no_sum t (map (\<lambda>b. unat (gf2_remainder poly (2 ^ b))) [1..<n]) (unat (1::u32))"
    using assms(6) n by (simp add: S upt_conv_Cons comp_def)
  moreover have "{j. bit (v XOR 2 ^ 0) j} \<subseteq> set [1..<n]"
  proof
    fix j assume j: "j \<in> {j. bit (v XOR 2 ^ 0) j}"
    then have "j \<noteq> 0" using v0 by (cases j) (simp_all only: mem_Collect_eq bit_xor_iff bit_exp_iff, simp_all)
    moreover from j this have "bit v j" by (simp add: bit_xor_iff bit_1_iff)
    ultimately show "j \<in> set [1..<n]" using vn by fastforce
  qed
  moreover have "weight (v XOR 2 ^ 0) \<le> t"
    using weight_flip [OF v0] weight_drop_bit [OF m(2)] assms(9) by (simp add: v_def)
  ultimately have "gf2_remainder poly (v XOR 2 ^ 0) \<noteq> 1"
    by (intro no_sum_sound [OF assms(1)]) auto
  then show False using * by simp
qed

lemma xpowers_numeral [eval_simps]:
  "xpowers poly v (numeral k) = v # xpowers poly (mulx poly v) (pred_numeral k)"
  by (simp add: numeral_eq_Suc)

subsection \<open>Table-driven decoding\<close>

text \<open>
  The correction step that all the BCH decoders of the program contain: look the syndrome up,
  flip the located bits. The codeword is returned with the number of flipped bits.
\<close>

definition syndrome_decode :: "u32 \<Rightarrow> nat \<Rightarrow> syn_entry list \<Rightarrow> u32 \<Rightarrow> (int \<times> u32) option" where
  "syndrome_decode poly ts syn v =
     (let s = gf2_remainder poly v
      in if s = 0 then Some (0, v)
         else if s < of_nat ts \<and> errs (syn ! unat s) \<ge> 0
         then Some (errs (syn ! unat s), v XOR locator (syn ! unat s))
         else None)"

lemma weight_0 [simp]: "weight 0 = 0"
  by (simp add: weight_0_iff)

lemma xor_cancel [simp]: "(v XOR w) XOR w = v" "v XOR (v XOR w) = w" for v w :: "'a::len word"
  by (simp_all add: xor.assoc flip: xor.assoc [of v v w])

context syndrome_code
begin

lemma syndrome_decode_sound:
  assumes "syndrome_decode poly table_size (build_syndrome_table poly nbits sb me table_size) v = Some (k, c)"
    and "v < 2 ^ nbits"
  shows "gf2_remainder poly c = 0" and "c < 2 ^ nbits" and "k = int (weight (v XOR c))" and "k \<le> 2" and "0 \<le> k"
proof -
  let ?i = "unat (gf2_remainder poly v)"
  define en where "en = build_syndrome_table poly nbits sb me table_size ! ?i"
  have "gf2_remainder poly c = 0 \<and> c < 2 ^ nbits \<and> k = int (weight (v XOR c)) \<and> k \<le> 2 \<and> 0 \<le> k"
  proof (cases "gf2_remainder poly v = 0")
    case True
    then show ?thesis using assms by (simp add: syndrome_decode_def)
  next
    case False
    with assms(1) have en: "0 \<le> errs en" "k = errs en" "c = v XOR locator en"
      by (auto simp: syndrome_decode_def Let_def en_def split: if_splits)
    have "entry_sound poly nbits 2 ?i en"
      using build_syndrome_table_sound [OF nbits_less] unat_syndrome_less
      by (simp add: table_sound_def en_def)
    with en(1) have "gf2_remainder poly (locator en) = gf2_remainder poly v" "locator en < 2 ^ nbits"
      "errs en = int (weight (locator en))" "errs en \<le> 2"
      by (auto simp: entry_sound_def word_unat_eq_iff)
    then show ?thesis using en assms(2)
      by (simp add: gf2_remainder_xor [OF poly_nonzero] xor_less)
  qed
  then show "gf2_remainder poly c = 0" "c < 2 ^ nbits" "k = int (weight (v XOR c))" "k \<le> 2" "0 \<le> k"
    by blast+
qed

lemma syndrome_decode_entry:
  assumes "gf2_remainder poly c = 0" and "gf2_remainder poly e \<noteq> 0"
    and "build_syndrome_table poly nbits sb me table_size ! unat (gf2_remainder poly e) =
      \<lparr>errs = int (weight e), locator = e\<rparr>"
  shows "syndrome_decode poly table_size (build_syndrome_table poly nbits sb me table_size) (c XOR e) =
    Some (int (weight e), c)"
  using assms syndrome_in_table [of e] by (simp add: syndrome_decode_def syndrome_of_received)

end

context single_error_code
begin

lemma syndrome_decode_corrects1:
  assumes "gf2_remainder poly c = 0" and "e < 2 ^ nbits" and "weight e \<le> 1"
  shows "syndrome_decode poly table_size (build_syndrome_table poly nbits sb me table_size) (c XOR e) =
    Some (int (weight e), c)"
proof (cases "e = 0")
  case True
  then show ?thesis using assms(1) by (simp add: syndrome_decode_def)
next
  case False
  then have "weight e = 1" using assms(3) weight_0_iff [of e] by linarith
  then show ?thesis using single_error_corrected [OF _ assms(2)] distance3 [OF assms(2) False]
    by (intro syndrome_decode_entry [OF assms(1)]) simp_all
qed

end

context double_error_code
begin

lemma syndrome_decode_corrects2:
  assumes "gf2_remainder poly c = 0" and "e < 2 ^ nbits" and "weight e \<le> 2" and "2 \<le> me"
  shows "syndrome_decode poly table_size (build_syndrome_table poly nbits sb me table_size) (c XOR e) =
    Some (int (weight e), c)"
proof (cases "e = 0")
  case True
  then show ?thesis using assms(1) by (simp add: syndrome_decode_def)
next
  case False
  then show ?thesis
    using error_corrected [OF assms(3,2) False assms(4)] distance5 [OF assms(2) False] assms(3)
    by (intro syndrome_decode_entry [OF assms(1)]) simp_all
qed

end

lemma poly_deg_numerals [eval_simps]:
  "poly_deg 29 = 4" "poly_deg 41 = 5" "poly_deg 465 = 8" "poly_deg 1207 = 10" "poly_deg 3545 = 11"
  by (simp_all add: poly_deg_def poly_bits_def clz32_def eval_simps)

lemmas distance_eval = xpowers_numeral mulx_def poly_deg_numerals Let_def

subsection \<open>Properties\<close>

text \<open>
  Whatever polynomial and code length a syndrome table is built for, every entry it offers
  for correction is sound: flipping the locator's bits changes the syndrome by exactly the
  entry's index, the locator lies inside the code word, and \<open>errs\<close> is its number of bits, one
  or two.
\<close>

theorem syndrome_table_sound:
  assumes "nbits < 32" and "i < ts" and "errs (build_syndrome_table poly nbits sb me ts ! i) \<ge> 0"
  shows "unat (gf2_remainder poly (locator (build_syndrome_table poly nbits sb me ts ! i))) = i \<and>
    locator (build_syndrome_table poly nbits sb me ts ! i) < 2 ^ nbits \<and>
    errs (build_syndrome_table poly nbits sb me ts ! i) =
      int (weight (locator (build_syndrome_table poly nbits sb me ts ! i))) \<and>
    errs (build_syndrome_table poly nbits sb me ts ! i) \<in> {1, 2}"
  using build_syndrome_table_sound [OF assms(1), of poly ts sb me] assms(2,3)
  by (auto simp: table_sound_def entry_sound_def)

lemma table_3_entry: "build_syndrome_table 3 1 1 1 2 ! 1 = \<lparr>errs = 1, locator = 1\<rparr>"
proof -
  have "poly_deg 3 = 1" by (simp add: poly_deg_def poly_bits_def clz32_def eval_simps)
  then have "gf2_remainder 3 1 = 1" by (simp add: gf2_remainder_1)
  then show ?thesis
    by (simp add: build_syndrome_table_def single_error_entry_def uncorrectable_def Let_def numeral_2_eq_2)
qed

theorem syndrome_table_sound_witness:
  "errs (build_syndrome_table 3 1 1 1 2 ! 1) \<ge> 0 \<and>
   unat (gf2_remainder 3 (locator (build_syndrome_table 3 1 1 1 2 ! 1))) = 1"
proof -
  have nn: "errs (build_syndrome_table 3 1 1 1 2 ! 1) \<ge> 0" unfolding table_3_entry by simp
  have "unat (gf2_remainder 3 (locator (build_syndrome_table 3 1 1 1 2 ! 1))) = 1"
    using syndrome_table_sound [OF _ _ nn] by simp
  with nn show ?thesis by blast
qed

end
