(* ===== verification/Interleave.thy ===== *)
theory Interleave
  imports Prelude
begin

text \<open>
  The symbol de-interleavers of \<^verbatim>\<open>src/frame_decode.c\<close> (\<open>de_interleave\<close>, \<open>de_interleave3\<close>,
  \<open>de_interleave_llr\<close>) and \<^verbatim>\<open>src/ida_decode.c\<close> (\<open>de_interleave_n\<close>, \<open>de_interleave_llr_n\<close>): each
  output stream takes every second (or third) two-bit symbol of the input, from the end.

  \<open>interleave_n\<close> and \<open>interleave3\<close> are the transmitter's side. The lemmas show that the two are
  inverse to each other for every even number of symbols, so that no bit is lost or duplicated.
\<close>

subsection \<open>De-interleavers\<close>

definition pick_symbols :: "'a list \<Rightarrow> int list \<Rightarrow> 'a list" where
  "pick_symbols inp ss = concat (map (\<lambda>s. [inp ! nat (2 * s), inp ! nat (2 * s + 1)]) ss)"

definition de_interleave :: "u8 list \<Rightarrow> u8 list \<times> u8 list" where
  "de_interleave inp = (pick_symbols inp (for_down 31 1 2), pick_symbols inp (for_down 30 0 2))"

definition de_interleave_llr :: "real list \<Rightarrow> real list \<times> real list" where
  "de_interleave_llr inp = (pick_symbols inp (for_down 31 1 2), pick_symbols inp (for_down 30 0 2))"

definition de_interleave3 :: "'a list \<Rightarrow> 'a list \<times> 'a list \<times> 'a list" where
  "de_interleave3 inp =
     (pick_symbols inp (for_down 47 2 3), pick_symbols inp (for_down 46 1 3),
      pick_symbols inp (for_down 45 0 3))"

definition de_interleave_n :: "u8 list \<Rightarrow> int \<Rightarrow> u8 list \<times> u8 list" where
  "de_interleave_n inp n_sym =
     (pick_symbols inp (for_down (n_sym - 1) 1 2), pick_symbols inp (for_down (n_sym - 2) 0 2))"

definition de_interleave_llr_n :: "real list \<Rightarrow> int \<Rightarrow> real list \<times> real list" where
  "de_interleave_llr_n inp n_sym =
     (pick_symbols inp (for_down (n_sym - 1) 1 2), pick_symbols inp (for_down (n_sym - 2) 0 2))"

subsection \<open>Index ranges in closed form\<close>

lemma for_down_closed:
  assumes "0 < d" and "lo \<le> r" and "r < lo + int d"
  shows "for_down (r + int (d * k)) lo d = map (\<lambda>j. r + int (d * (k - j))) [0..<Suc k]"
proof (induction k)
  case 0
  then show ?case using assms by (simp add: for_down_step for_down_done)
next
  case (Suc k)
  have le: "lo \<le> r + int (d * Suc k)" using assms(2) by (simp add: add_increasing2 del: of_nat_mult)
  have "for_down (r + int (d * Suc k)) lo d = (r + int (d * Suc k)) # for_down (r + int (d * k)) lo d"
    unfolding for_down_step [OF le assms(1)] by (simp add: mult_Suc_right del: of_nat_mult)
  also have "\<dots> = map (\<lambda>j. r + int (d * (Suc k - j))) (0 # map Suc [0..<Suc k])"
    unfolding Suc.IH by (simp add: comp_def del: of_nat_mult)
  also have "0 # map Suc [0..<Suc k] = [0..<Suc (Suc k)]"
    unfolding map_Suc_upt by (rule upt_conv_Cons [symmetric]) simp
  finally show ?case .
qed

lemma length_concat_pairs: "length (concat (map (\<lambda>x. [f x, g x]) xs)) = 2 * length xs"
  by (induction xs) simp_all

lemma length_pick_symbols [simp]: "length (pick_symbols inp ss) = 2 * length ss"
  by (simp add: pick_symbols_def length_concat_pairs)

lemma nth_concat_pairs:
  assumes "i < 2 * length xs"
  shows "concat (map (\<lambda>x. [f x, g x]) xs) ! i = (if even i then f (xs ! (i div 2)) else g (xs ! (i div 2)))"
  using assms
proof (induction xs arbitrary: i)
  case (Cons x xs)
  consider "i = 0" | "i = 1" | j where "i = Suc (Suc j)" by (cases i) (auto, metis old.nat.exhaust)
  then show ?case using Cons by cases simp_all
qed simp

lemma nth_pick_symbols:
  assumes "i < 2 * length ss" and "\<forall>s\<in>set ss. 0 \<le> s"
  shows "pick_symbols inp ss ! i = inp ! (2 * nat (ss ! (i div 2)) + i mod 2)"
proof -
  have "0 \<le> ss ! (i div 2)" using assms by simp
  then have "nat (2 * (ss ! (i div 2))) = 2 * nat (ss ! (i div 2))"
    "nat (2 * (ss ! (i div 2)) + 1) = 2 * nat (ss ! (i div 2)) + 1" by linarith+
  then show ?thesis using assms(1)
    by (auto simp: pick_symbols_def nth_concat_pairs odd_iff_mod_2_eq_one)
qed

lemma for_down_half:
  assumes "0 < h"
  shows "for_down (int (2 * h) - 1) 1 2 = map (\<lambda>j. int (2 * (h - Suc j)) + 1) [0..<h]"
    and "for_down (int (2 * h) - 2) 0 2 = map (\<lambda>j. int (2 * (h - Suc j))) [0..<h]"
proof -
  obtain k where h: "h = Suc k" using assms gr0_conv_Suc by blast
  have "int (2 * h) - 1 = 1 + int (2 * k)" "int (2 * h) - 2 = 0 + int (2 * k)" by (simp_all add: h)
  then show "for_down (int (2 * h) - 1) 1 2 = map (\<lambda>j. int (2 * (h - Suc j)) + 1) [0..<h]"
    "for_down (int (2 * h) - 2) 0 2 = map (\<lambda>j. int (2 * (h - Suc j))) [0..<h]"
    using for_down_closed [of 2 1 1 k] for_down_closed [of 2 0 0 k] by (simp_all add: h add.commute)
qed

subsection \<open>Interleaving\<close>

definition interleave_n :: "nat \<Rightarrow> 'a list \<Rightarrow> 'a list \<Rightarrow> 'a list" where
  "interleave_n n o1 o2 =
     concat (map (\<lambda>s. if odd s then [o1 ! (n - Suc s), o1 ! (n - s)]
                      else [o2 ! (n - Suc (Suc s)), o2 ! (n - Suc s)]) [0..<n])"

lemma interleave_n_alt:
  "interleave_n n o1 o2 =
     concat (map (\<lambda>s. [if odd s then o1 ! (n - Suc s) else o2 ! (n - Suc (Suc s)),
                       if odd s then o1 ! (n - s) else o2 ! (n - Suc s)]) [0..<n])"
  unfolding interleave_n_def by (intro arg_cong [where f = concat] map_cong) auto

lemma length_interleave_n [simp]: "length (interleave_n n o1 o2) = 2 * n"
  by (simp add: interleave_n_alt length_concat_pairs)

lemma nth_interleave_n:
  assumes "b < 2"
  shows "2 * t + 1 < n \<Longrightarrow> interleave_n n o1 o2 ! (2 * (2 * t + 1) + b) = o1 ! (n - (2 * t + 2) + b)"
    and "2 * t + 1 < n \<Longrightarrow> interleave_n n o1 o2 ! (2 * (2 * t) + b) = o2 ! (n - (2 * t + 2) + b)"
proof -
  have d: "(2 * (2 * t + 1) + b) div 2 = 2 * t + 1" "(2 * (2 * t) + b) div 2 = 2 * t"
    "even (2 * (2 * t + 1) + b) \<longleftrightarrow> b = 0" "even (2 * (2 * t) + b) \<longleftrightarrow> b = 0"
    using assms by presburger+
  assume t: "2 * t + 1 < n"
  then have l: "2 * (2 * t + 1) + b < 2 * n" "2 * (2 * t) + b < 2 * n" using assms by auto
  have nth: "[0..<n] ! (2 * t + 1) = 2 * t + 1" "[0..<n] ! (2 * t) = 2 * t" using t by simp_all
  have n: "n - (2 * t + 1) = n - (2 * t + 2) + 1" using t by linarith
  have b: "b = 0 \<or> b = 1" using assms by linarith
  show "interleave_n n o1 o2 ! (2 * (2 * t + 1) + b) = o1 ! (n - (2 * t + 2) + b)"
    using l(1) b n unfolding interleave_n_alt by (subst nth_concat_pairs) (auto simp only: length_upt d nth, auto)
  show "interleave_n n o1 o2 ! (2 * (2 * t) + b) = o2 ! (n - (2 * t + 2) + b)"
    using l(2) b n unfolding interleave_n_alt by (subst nth_concat_pairs) (auto simp only: length_upt d nth, auto)
qed

lemma de_interleave_pick:
  fixes inp :: "'a list"
  assumes "0 < h"
  shows "length (pick_symbols inp (for_down (int (2 * h) - 1) 1 2)) = 2 * h"
    and "length (pick_symbols inp (for_down (int (2 * h) - 2) 0 2)) = 2 * h"
    and "i < 2 * h \<Longrightarrow> pick_symbols inp (for_down (int (2 * h) - 1) 1 2) ! i =
           inp ! (2 * (2 * (h - Suc (i div 2)) + 1) + i mod 2)"
    and "i < 2 * h \<Longrightarrow> pick_symbols inp (for_down (int (2 * h) - 2) 0 2) ! i =
           inp ! (2 * (2 * (h - Suc (i div 2))) + i mod 2)"
proof -
  show "length (pick_symbols inp (for_down (int (2 * h) - 1) 1 2)) = 2 * h"
    "length (pick_symbols inp (for_down (int (2 * h) - 2) 0 2)) = 2 * h"
    by (simp_all add: for_down_half [OF assms] del: of_nat_mult)
  assume i: "i < 2 * h"
  then have "i div 2 < h" by simp
  moreover have "nat (int (2 * x) + 1) = 2 * x + 1" "nat (int (2 * x)) = 2 * x" for x by simp_all
  ultimately show "pick_symbols inp (for_down (int (2 * h) - 1) 1 2) ! i =
      inp ! (2 * (2 * (h - Suc (i div 2)) + 1) + i mod 2)"
    "pick_symbols inp (for_down (int (2 * h) - 2) 0 2) ! i = inp ! (2 * (2 * (h - Suc (i div 2))) + i mod 2)"
    using i by (subst nth_pick_symbols; simp add: for_down_half [OF assms] del: of_nat_mult)+
qed

lemma pick_interleave:
  assumes "0 < h" and "length o1 = 2 * h" and "length o2 = 2 * h"
  shows "pick_symbols (interleave_n (2 * h) o1 o2) (for_down (int (2 * h) - 1) 1 2) = o1"
    and "pick_symbols (interleave_n (2 * h) o1 o2) (for_down (int (2 * h) - 2) 0 2) = o2"
proof -
  have "pick_symbols (interleave_n (2 * h) o1 o2) (for_down (int (2 * h) - 1) 1 2) ! i = o1 ! i"
    "pick_symbols (interleave_n (2 * h) o1 o2) (for_down (int (2 * h) - 2) 0 2) ! i = o2 ! i"
    if i: "i < 2 * h" for i
  proof -
    define q b t where "q = i div 2" and "b = i mod 2" and "t = h - Suc q"
    then have b: "b < 2" and t: "2 * t + 1 < 2 * h" and i_eq: "2 * h - (2 * t + 2) + b = i"
      using i by presburger+
    show "pick_symbols (interleave_n (2 * h) o1 o2) (for_down (int (2 * h) - 1) 1 2) ! i = o1 ! i"
      unfolding de_interleave_pick(3) [OF assms(1) i] q_def [symmetric] b_def [symmetric] t_def [symmetric]
        nth_interleave_n(1) [OF b t] i_eq ..
    show "pick_symbols (interleave_n (2 * h) o1 o2) (for_down (int (2 * h) - 2) 0 2) ! i = o2 ! i"
      unfolding de_interleave_pick(4) [OF assms(1) i] q_def [symmetric] b_def [symmetric] t_def [symmetric]
        nth_interleave_n(2) [OF b t] i_eq ..
  qed
  then show "pick_symbols (interleave_n (2 * h) o1 o2) (for_down (int (2 * h) - 1) 1 2) = o1"
    "pick_symbols (interleave_n (2 * h) o1 o2) (for_down (int (2 * h) - 2) 0 2) = o2"
    using assms by (auto intro!: nth_equalityI simp: de_interleave_pick(1,2) simp del: of_nat_mult length_pick_symbols)
qed

lemma interleave_pick:
  assumes "0 < h" and "length inp = 4 * h"
  shows "interleave_n (2 * h) (pick_symbols inp (for_down (int (2 * h) - 1) 1 2))
           (pick_symbols inp (for_down (int (2 * h) - 2) 0 2)) = inp" (is "?l = inp")
proof (rule nth_equalityI)
  fix i assume "i < length ?l"
  then have i: "i < 4 * h" by simp
  define b t where "b = i mod 2" and "t = i div 4"
  define j where "j = 2 * h - (2 * t + 2) + b"
  have b: "b < 2" and t: "2 * t + 1 < 2 * h" using i by (simp_all add: b_def t_def) presburger
  have j: "j < 2 * h" "j mod 2 = b" "h - Suc (j div 2) = t"
  proof -
    obtain u where "h = t + u + 1" using t by (metis add.assoc add.commute less_iff_Suc_add Suc_eq_plus1
      nat_mult_less_cancel_disj add_lessD1)
    then have "j = 2 * u + b" "h = t + u + 1" by (simp_all add: j_def)
    then show "j < 2 * h" "j mod 2 = b" "h - Suc (j div 2) = t" using b by auto
  qed
  have "i = 2 * (2 * t + 1) + b \<or> i = 2 * (2 * t) + b" unfolding b_def t_def by presburger
  then show "?l ! i = inp ! i"
  proof
    assume i: "i = 2 * (2 * t + 1) + b"
    show ?thesis
      unfolding i nth_interleave_n(1) [OF b t] j_def [symmetric] de_interleave_pick(3) [OF assms(1) j(1)] j ..
  next
    assume i: "i = 2 * (2 * t) + b"
    show ?thesis
      unfolding i nth_interleave_n(2) [OF b t] j_def [symmetric] de_interleave_pick(4) [OF assms(1) j(1)] j ..
  qed
qed (simp add: assms(2))

lemma de_interleave_n_eq: "de_interleave inp = de_interleave_n inp 32"
  by (simp add: de_interleave_def de_interleave_n_def)

lemma de_interleave_llr_n_eq: "de_interleave_llr inp = de_interleave_llr_n inp 32"
  by (simp add: de_interleave_llr_def de_interleave_llr_n_def)

lemma de_interleave_n_interleave:
  assumes "even n" and "0 < n" and "length o1 = n" and "length o2 = n"
  shows "de_interleave_n (interleave_n n o1 o2) (int n) = (o1, o2)"
proof -
  from assms(1,2) obtain h where "n = 2 * h" "0 < h" by (auto elim: evenE)
  then show ?thesis using pick_interleave [of h o1 o2] assms(3,4)
    by (simp add: de_interleave_n_def)
qed

lemma interleave_n_de_interleave:
  assumes "even n" and "0 < n" and "length inp = 2 * n"
  shows "(case de_interleave_n inp (int n) of (o1, o2) \<Rightarrow> interleave_n n o1 o2) = inp"
proof -
  from assms(1,2) obtain h where "n = 2 * h" "0 < h" by (auto elim: evenE)
  then show ?thesis using interleave_pick [of h inp] assms(3)
    by (simp add: de_interleave_n_def)
qed

lemma length_de_interleave_n:
  assumes "even n" and "0 < n" and "de_interleave_n inp (int n) = (o1, o2)"
  shows "length o1 = n" "length o2 = n"
proof -
  from assms(1,2) obtain h where "n = 2 * h" "0 < h" by (auto elim: evenE)
  then show "length o1 = n" "length o2 = n" using de_interleave_pick(1,2) [of h inp] assms(3)
    by (auto simp: de_interleave_n_def)
qed

lemma de_interleave_interleave:
  "length o1 = 32 \<Longrightarrow> length o2 = 32 \<Longrightarrow> de_interleave (interleave_n 32 o1 o2) = (o1, o2)"
  using de_interleave_n_interleave [of 32 o1 o2] by (simp add: de_interleave_n_eq)

lemma set_for_down: "x \<in> set (for_down s lo d) \<Longrightarrow> lo \<le> x \<and> x \<le> s"
proof (induction s lo d rule: for_down.induct)
  case (1 s lo d)
  then show ?case by (subst (asm) (2) for_down.simps) (force split: if_splits)
qed

lemma pick_symbols_append:
  assumes "\<And>s. s \<in> set ss \<Longrightarrow> 0 \<le> s \<and> 2 * s + 1 < int (length inp)"
  shows "pick_symbols (inp @ rest) ss = pick_symbols inp ss"
proof -
  have "(inp @ rest) ! nat j = inp ! nat j" if "0 \<le> j" "j < int (length inp)" for j
    using that by (simp add: nth_append nat_less_iff)
  then show ?thesis unfolding pick_symbols_def
    using assms by (intro arg_cong [where f = concat] map_cong) force+
qed

lemma de_interleave_n_append:
  assumes "2 * n \<le> int (length inp)"
  shows "de_interleave_n (inp @ rest) n = de_interleave_n inp n"
  using assms unfolding de_interleave_n_def
  by (auto intro!: pick_symbols_append dest!: set_for_down)

lemma de_interleave_append: "64 \<le> length inp \<Longrightarrow> de_interleave (inp @ rest) = de_interleave inp"
  by (simp add: de_interleave_n_eq de_interleave_n_append)

lemma de_interleave3_append:
  assumes "96 \<le> length inp"
  shows "de_interleave3 (inp @ rest) = de_interleave3 inp"
  using assms unfolding de_interleave3_def
  by (auto intro!: pick_symbols_append dest!: set_for_down)

subsection \<open>Three streams\<close>

definition interleave3 :: "'a list \<Rightarrow> 'a list \<Rightarrow> 'a list \<Rightarrow> 'a list" where
  "interleave3 o1 o2 o3 =
     concat (map (\<lambda>s. [[o3, o2, o1] ! (s mod 3) ! (2 * ((47 - s) div 3)),
                       [o3, o2, o1] ! (s mod 3) ! (2 * ((47 - s) div 3) + 1)]) [0..<48])"

lemma length_interleave3 [simp]: "length (interleave3 o1 o2 o3) = 96"
  by (simp add: interleave3_def length_concat_pairs)

lemma pick_interleave3:
  assumes "r < 3" and "length ([o3, o2, o1] ! r) = 32"
  shows "pick_symbols (interleave3 o1 o2 o3) (for_down (int r + int (3 * 15)) (int r) 3) = [o3, o2, o1] ! r"
proof -
  have ss: "for_down (int r + int (3 * 15)) (int r) 3 = map (\<lambda>j. int r + int (3 * (15 - j))) [0..<16]"
    using for_down_closed [of 3 "int r" "int r" 15] by simp
  show ?thesis
  proof (rule nth_equalityI)
    show "length (pick_symbols (interleave3 o1 o2 o3) (for_down (int r + int (3 * 15)) (int r) 3)) =
        length ([o3, o2, o1] ! r)" unfolding ss by (simp add: assms(2))
    fix i assume "i < length (pick_symbols (interleave3 o1 o2 o3) (for_down (int r + int (3 * 15)) (int r) 3))"
    then have i: "i < 32" unfolding ss by simp
    define s where "s = r + 3 * (15 - i div 2)"
    have e: "nat (int r + int (3 * (15 - i div 2))) = s" by (simp add: s_def nat_int_add)
    have s: "s < 48" "s mod 3 = r" "(47 - s) div 3 = i div 2" using i assms(1) by (auto simp: s_def)
    have d: "(2 * s + i mod 2) div 2 = s" "even (2 * s + i mod 2) \<longleftrightarrow> even i"
      "2 * s + i mod 2 < 2 * length [0..<48]" using s(1) by auto
    have "pick_symbols (interleave3 o1 o2 o3) (for_down (int r + int (3 * 15)) (int r) 3) ! i =
        interleave3 o1 o2 o3 ! (2 * s + i mod 2)"
      using i nth_pick_symbols [of i "map (\<lambda>j. int r + int (3 * (15 - j))) [0..<16]" "interleave3 o1 o2 o3"] e
      unfolding ss by (simp add: nth_upt [of 0 "i div 2" 16] del: of_nat_mult of_nat_add)
    also have "\<dots> = [o3, o2, o1] ! r ! i"
      unfolding interleave3_def nth_concat_pairs [OF d(3)] d using s by (auto simp: odd_two_times_div_two_succ)
    finally show "pick_symbols (interleave3 o1 o2 o3) (for_down (int r + int (3 * 15)) (int r) 3) ! i =
        [o3, o2, o1] ! r ! i" .
  qed
qed

lemma de_interleave3_interleave:
  assumes "length o1 = 32" "length o2 = 32" "length o3 = 32"
  shows "de_interleave3 (interleave3 o1 o2 o3) = (o1, o2, o3)"
  using pick_interleave3 [of 2 o3 o2 o1] pick_interleave3 [of 1 o3 o2 o1] pick_interleave3 [of 0 o3 o2 o1] assms
  by (simp add: de_interleave3_def)

subsection \<open>Properties\<close>



end
