(* ===== verification/QpskDemod.thy ===== *)
theory QpskDemod
  imports Prelude "HOL-Library.Signed_Division"
begin

unbundle bit_operations_syntax

text \<open>
  The demodulator of \<^verbatim>\<open>src/qpsk_demod.c\<close>, with the protocol constants of \<^verbatim>\<open>src/iridium.h\<close>
  and the frame types of \<^verbatim>\<open>src/burst_downmix.h\<close> and \<^verbatim>\<open>src/qpsk_demod.h\<close>: decimation (plain and
  Gardner timing recovery), phase tracking, hard decision, unique word check, differential
  decoding and the mapping of symbols to bits. \<open>float\<close> and \<open>double\<close> values are exact reals and
  \<open>float complex\<close> values exact complex numbers. Arrays are lists; a loop that may run forever is
  an \<open>option\<close>-valued partial function.

  The lemmas show that the phase-tracking loop preserves amplitudes and leaves a clean
  constellation alone, that the symbol and confidence counts are within bounds, that the two
  unique words cannot both match, that timing recovery ends and reads inside the burst, and that
  differential decoding inverts differential encoding.
\<close>

subsection \<open>Protocol constants and frames\<close>

definition IR_UW_LENGTH :: nat where "IR_UW_LENGTH = 12"
definition IR_SYMBOLS_PER_SECOND :: real where "IR_SYMBOLS_PER_SECOND = 25000"

definition IR_UW_DL :: "int list" where "IR_UW_DL = [0, 2, 2, 2, 2, 0, 0, 0, 2, 0, 0, 2]"
definition IR_UW_UL :: "int list" where "IR_UW_UL = [2, 2, 0, 0, 0, 2, 0, 0, 2, 0, 2, 2]"

datatype ir_direction = DIR_UNDEF | DIR_DOWNLINK | DIR_UPLINK

record downmix_frame =
  dm_id :: u64
  dm_timestamp :: u64
  dm_center_frequency :: real
  dm_sample_rate :: real
  dm_samples_per_symbol :: real
  dm_direction :: ir_direction
  dm_magnitude :: real
  dm_noise :: real
  dm_uw_start :: real
  dm_num_samples :: nat
  dm_samples :: "complex list"

record demod_frame =
  fr_id :: u64
  fr_timestamp :: u64
  fr_center_frequency :: real
  fr_direction :: ir_direction
  fr_magnitude :: real
  fr_noise :: real
  fr_confidence :: int
  fr_level :: real
  fr_n_symbols :: int
  fr_n_payload_symbols :: int
  fr_bits :: "u8 list"
  fr_llr :: "real list option"
  fr_n_bits :: int

subsection \<open>Work buffers\<close>

text \<open>
  \<open>work_capacity\<close> is the only state of the buffers that outlives a call; the argument says whether
  the five \<open>realloc\<close> calls succeed.
\<close>

definition ensure_work_buffers :: "bool \<Rightarrow> int \<Rightarrow> int \<Rightarrow> int \<times> bool" where
  "ensure_work_buffers realloc_ok max_symbols work_capacity =
     (if max_symbols \<le> work_capacity then (work_capacity, True)
      else if realloc_ok then (max_symbols + 256, True)
      else (work_capacity, False))"

subsection \<open>Decimation\<close>

text \<open>Conversion of a floating-point value to \<open>int\<close>: truncation towards zero.\<close>

definition trunc :: "real \<Rightarrow> int" where
  "trunc x = (if x \<ge> 0 then \<lfloor>x\<rfloor> else \<lceil>x\<rceil>)"

definition cubic_index :: "int \<Rightarrow> real \<Rightarrow> int" where
  "cubic_index n_samples pos =
     (let idx = trunc pos;
          idx = (if idx < 1 then 1 else idx)
      in if idx \<ge> n_samples - 2 then n_samples - 3 else idx)"

definition cubic_interp :: "complex list \<Rightarrow> int \<Rightarrow> real \<Rightarrow> complex" where
  "cubic_interp inp n_samples pos =
     (let mu = complex_of_real (pos - real_of_int (trunc pos));
          idx = cubic_index n_samples pos;
          s0 = inp ! nat (idx - 1); s1 = inp ! nat idx;
          s2 = inp ! nat (idx + 1); s3 = inp ! nat (idx + 2);
          mu2 = mu * mu; mu3 = mu2 * mu;
          a = - (1/2) * s0 + (3/2) * s1 - (3/2) * s2 + (1/2) * s3;
          b = s0 - (5/2) * s1 + 2 * s2 - (1/2) * s3;
          c = - (1/2) * s0 + (1/2) * s2;
          d = s1
      in a * mu3 + b * mu2 + c * mu + d)"

definition GARDNER_KP :: real where "GARDNER_KP = 2 / 100"
definition GARDNER_KI :: real where "GARDNER_KI = 2 / 10000"

definition clamp :: "real \<Rightarrow> real \<Rightarrow> real" where
  "clamp b x = (let x = (if x > b then b else x) in if x < - b then - b else x)"

text \<open>The timing update of one symbol: the new position (before the step of \<open>sps\<close>) and integral.\<close>

definition gardner_adjust ::
  "complex list \<Rightarrow> int \<Rightarrow> real \<Rightarrow> nat \<Rightarrow> complex \<Rightarrow> complex \<Rightarrow> real \<times> real \<Rightarrow> real \<times> real" where
  "gardner_adjust inp n_samples sps n prev_sym on_time =
     (\<lambda>(pos, timing_offset).
       if n > 0 then
         let mid_pos = pos - sps * (1/2)
         in if mid_pos \<ge> 1 then
              let mid = cubic_interp inp n_samples mid_pos;
                  diff = prev_sym - on_time;
                  error = clamp 1 (Re (diff * cnj mid));
                  timing_offset = timing_offset + GARDNER_KI * error;
                  adjust = clamp (1/2) (GARDNER_KP * error + timing_offset)
              in (pos + adjust, timing_offset)
            else (pos, timing_offset)
       else (pos, timing_offset))"

partial_function (option) gardner_loop ::
  "complex list \<Rightarrow> int \<Rightarrow> real \<Rightarrow> complex \<Rightarrow> real \<times> real \<Rightarrow> complex list \<Rightarrow> complex list option" where
  "gardner_loop inp n_samples sps prev_sym st out =
     (if fst st < real_of_int (n_samples - 3) then
        let on_time = cubic_interp inp n_samples (fst st);
            st' = gardner_adjust inp n_samples sps (length out) prev_sym on_time st
        in gardner_loop inp n_samples sps on_time (fst st' + sps, snd st') (out @ [on_time])
      else Some out)"

definition decimate_gardner :: "complex list \<Rightarrow> int \<Rightarrow> real \<Rightarrow> complex list option" where
  "decimate_gardner inp n_samples sps = gardner_loop inp n_samples sps 0 (0, 0) []"

partial_function (option) simple_loop ::
  "complex list \<Rightarrow> int \<Rightarrow> int \<Rightarrow> int \<Rightarrow> complex list \<Rightarrow> complex list option" where
  "simple_loop inp n_samples step i out =
     (if i < n_samples then simple_loop inp n_samples step (i + step) (out @ [inp ! nat i])
      else Some out)"

definition decimate_simple :: "complex list \<Rightarrow> int \<Rightarrow> real \<Rightarrow> complex list option" where
  "decimate_simple inp n_samples sps = simple_loop inp n_samples (trunc sps) 0 []"

subsection \<open>Phase tracking\<close>

definition PLL_ALPHA :: real where "PLL_ALPHA = 2 / 10"
definition M_SQRT1_2f :: real where "M_SQRT1_2f = 1 / sqrt 2"

definition nearest_point :: "complex \<Rightarrow> complex" where
  "nearest_point z =
     (if Re z \<ge> 0 \<and> Im z \<ge> 0 then Complex M_SQRT1_2f M_SQRT1_2f
      else if Re z \<ge> 0 then Complex M_SQRT1_2f (- M_SQRT1_2f)
      else if Im z < 0 then Complex (- M_SQRT1_2f) (- M_SQRT1_2f)
      else Complex (- M_SQRT1_2f) M_SQRT1_2f)"

record pll =
  phi_hat :: complex
  total_phase :: real
  pll_out :: "complex list"

definition pll_step :: "real \<Rightarrow> complex \<Rightarrow> pll \<Rightarrow> pll" where
  "pll_step alpha z st =
     (let o_i = z * phi_hat st;
          st = st\<lparr>pll_out := pll_out st @ [o_i]\<rparr>;
          er = cnj (nearest_point o_i) * o_i;
          er_mag = cmod er
      in if er_mag < 1 / 10 ^ 10 then st
         else
           let phi_hat_t = er / complex_of_real er_mag;
               scaled_angle = alpha * Arg phi_hat_t;
               correction = Complex (cos scaled_angle) (sin scaled_angle);
               phi = cnj correction * phi_hat st;
               phi_mag = cmod phi
           in st\<lparr>total_phase := total_phase st + scaled_angle,
                 phi_hat := (if phi_mag > 0 then phi / complex_of_real phi_mag else phi)\<rparr>)"

definition pll_init :: pll where
  "pll_init = \<lparr>phi_hat = 1, total_phase = 0, pll_out = []\<rparr>"

definition qpsk_pll :: "complex list \<Rightarrow> real \<Rightarrow> pll" where
  "qpsk_pll inp alpha = fold (pll_step alpha) inp pll_init"

subsection \<open>Hard decision\<close>

definition CONFIDENCE_ANGLE :: real where "CONFIDENCE_ANGLE = 22"
definition MAGNITUDE_DROP :: real where "MAGNITUDE_DROP = 8"
definition MAX_LOW_COUNT :: int where "MAX_LOW_COUNT = 3"

definition hard_symbol :: "complex \<Rightarrow> int" where
  "hard_symbol z =
     (if Re z \<ge> 0 \<and> Im z \<ge> 0 then 0
      else if Re z < 0 \<and> Im z \<ge> 0 then 1
      else if Re z < 0 then 2
      else 3)"

definition fmod :: "real \<Rightarrow> real \<Rightarrow> real" where
  "fmod x y = x - real_of_int (trunc (x / y)) * y"

definition phase_offset :: "complex \<Rightarrow> real" where
  "phase_offset z = 45 - fmod ((Arg z + pi) * 180 / pi) 90"

text \<open>
  One pass over the burst. The accumulated list holds, per symbol, the entries written to
  \<open>symbols\<close>, \<open>magnitudes\<close> and \<open>offsets\<close>; the returned count is \<open>n\<close>, shortened at the end of the
  frame.
\<close>

record decision =
  d_sym :: int
  d_mag :: real
  d_offset :: real

definition decide :: "complex \<Rightarrow> decision" where
  "decide z = \<lparr>d_sym = hard_symbol z, d_mag = sqrt (Re z * Re z + Im z * Im z), d_offset = phase_offset z\<rparr>"

fun demod_scan :: "complex list \<Rightarrow> real \<Rightarrow> int \<Rightarrow> int \<Rightarrow> decision list \<Rightarrow> decision list \<times> int" where
  "demod_scan [] max_mag low_count n acc = (acc, n)"
| "demod_scan (z # zs) max_mag low_count n acc =
     (let e = decide z;
          acc = acc @ [e];
          max_mag = (if d_mag e > max_mag then d_mag e else max_mag);
          n = n + 1
      in if d_mag e < max_mag / MAGNITUDE_DROP then
           let low_count = low_count + 1
           in if low_count \<ge> MAX_LOW_COUNT then (acc, n - MAX_LOW_COUNT)
              else demod_scan zs max_mag low_count n acc
         else demod_scan zs max_mag 0 n acc)"

record hard_demod =
  hd_n :: int
  hd_symbols :: "int list"
  hd_level :: real
  hd_confidence :: int

definition demod_qpsk :: "complex list \<Rightarrow> hard_demod" where
  "demod_qpsk burst =
     (let (entries, n) = demod_scan burst 0 0 0 [];
          kept = take (nat n) entries;
          n_ok = int (length (filter (\<lambda>e. \<bar>d_offset e\<bar> \<le> CONFIDENCE_ANGLE) kept));
          s = sum_list (map d_mag kept)
      in \<lparr>hd_n = n, hd_symbols = map d_sym entries,
          hd_level = (if n > 0 then s / real_of_int n else 0),
          hd_confidence = (if n > 0 then (100 * n_ok) div n else 0)\<rparr>)"

subsection \<open>Differential decoding, unique words, bits\<close>

definition dqpsk_map :: "int list" where "dqpsk_map = [0, 2, 3, 1]"

definition dqpsk_step :: "int \<Rightarrow> int \<times> int list \<Rightarrow> int \<times> int list" where
  "dqpsk_step s = (\<lambda>(old_sym, out). (s, out @ [dqpsk_map ! nat ((s - old_sym + 4) mod 4)]))"

definition decode_dqpsk :: "int list \<Rightarrow> int list" where
  "decode_dqpsk symbols = snd (fold dqpsk_step symbols (0, []))"

definition UW_MAX_ERRORS :: int where "UW_MAX_ERRORS = 2"

definition unique_word :: "ir_direction \<Rightarrow> int list" where
  "unique_word d = (if d = DIR_DOWNLINK then IR_UW_DL else IR_UW_UL)"

definition symbol_distance :: "int \<Rightarrow> int \<Rightarrow> int" where
  "symbol_distance a b = (let diff = \<bar>a - b\<bar> in if diff = 3 then 1 else diff)"

definition check_sync_word :: "int list \<Rightarrow> int \<Rightarrow> ir_direction \<Rightarrow> bool" where
  "check_sync_word symbols n d =
     (if n < int IR_UW_LENGTH then False
      else fold (\<lambda>i diffs. diffs + symbol_distance (symbols ! i) (unique_word d ! i)) [0..<IR_UW_LENGTH] 0
           \<le> UW_MAX_ERRORS)"

definition UW_SOFT_THRESHOLD :: real where "UW_SOFT_THRESHOLD = 3"

definition soft_symbol_error :: "complex \<Rightarrow> int \<Rightarrow> real" where
  "soft_symbol_error z u =
     (let expected = pi * (1/4) + real_of_int u * pi * (1/2);
          actual = Arg z;
          actual = (if actual < 0 then actual + 2 * pi else actual);
          diff = actual - expected;
          diff = (if diff > pi then diff - 2 * pi else diff);
          diff = (if diff < - pi then diff + 2 * pi else diff)
      in \<bar>diff\<bar> * (2 / pi))"

definition soft_check_sync_word :: "complex list \<Rightarrow> int \<Rightarrow> ir_direction \<Rightarrow> real" where
  "soft_check_sync_word out n d =
     (if n < int IR_UW_LENGTH then 999
      else fold (\<lambda>i total_error. total_error + soft_symbol_error (out ! i) (unique_word d ! i))
             [0..<IR_UW_LENGTH] 0)"

definition map_symbols_to_bits :: "int list \<Rightarrow> u8 list" where
  "map_symbols_to_bits symbols =
     concat (map (\<lambda>s. [word_of_int (drop_bit 1 s AND 1), word_of_int (s AND 1)]) symbols)"

subsection \<open>The demodulator\<close>

text \<open>
  What a call depends on besides its frame: the options, the success of the allocations, and the
  capacity of the work buffers. \<open>saved\<close> in the result lists the frames handed to
  \<open>save_burst_iq\<close>, in order, with the direction they have at that point.
\<close>

record demod_env =
  use_gardner :: bool
  use_chase :: int
  save_bursts_dir :: bool
  realloc_ok :: bool
  bits_ok :: bool
  llr_ok :: bool

record demod_result =
  work_capacity :: int
  demod_in :: downmix_frame
  saved :: "downmix_frame list"
  demod_out :: "demod_frame option"

text \<open>Step 4: the direction of the burst, or \<open>None\<close> when no unique word is close enough.\<close>

definition verify_unique_word :: "int list \<Rightarrow> complex list \<Rightarrow> int \<Rightarrow> ir_direction \<Rightarrow> ir_direction option" where
  "verify_unique_word symbols out actual_symbols dir =
     (let dl_ok = check_sync_word symbols actual_symbols DIR_DOWNLINK;
          ul_ok = check_sync_word symbols actual_symbols DIR_UPLINK
      in if \<not> dl_ok \<and> \<not> ul_ok then
           let dl_err = soft_check_sync_word out actual_symbols DIR_DOWNLINK;
               ul_err = soft_check_sync_word out actual_symbols DIR_UPLINK;
               min_err = (if dl_err < ul_err then dl_err else ul_err)
           in if min_err > UW_SOFT_THRESHOLD then None
              else if ul_err < dl_err then Some DIR_UPLINK else Some DIR_DOWNLINK
         else if ul_ok \<and> \<not> dl_ok then Some DIR_UPLINK
         else if dl_ok \<and> \<not> ul_ok then Some DIR_DOWNLINK
         else Some dir)"

definition soft_reliability :: "complex list \<Rightarrow> int \<Rightarrow> real list" where
  "soft_reliability out actual_symbols =
     (let used = take (nat actual_symbols) out;
          sum_mag = sum_list (map cmod used);
          scale = (if actual_symbols > 0 \<and> sum_mag > 0
                   then M_SQRT1_2f / (sum_mag / real_of_int actual_symbols) else 1)
      in concat (map (\<lambda>z. [\<bar>Re z\<bar> * scale, \<bar>Im z\<bar> * scale]) used))"

definition build_frame ::
  "downmix_frame \<Rightarrow> hard_demod \<Rightarrow> real \<Rightarrow> u8 list \<Rightarrow> real list option \<Rightarrow> demod_frame" where
  "build_frame inp h total_ph bs l =
     \<lparr>fr_id = dm_id inp, fr_timestamp = dm_timestamp inp,
      center_frequency =
        (if hd_n h > 0 then
           let duration = real_of_int (hd_n h) / IR_SYMBOLS_PER_SECOND
           in dm_center_frequency inp + total_ph / duration / pi / 2
         else dm_center_frequency inp),
      fr_direction = dm_direction inp, fr_magnitude = dm_magnitude inp, fr_noise = dm_noise inp,
      fr_confidence = hd_confidence h, fr_level = hd_level h,
      fr_n_symbols = hd_n h, fr_n_payload_symbols = hd_n h - int IR_UW_LENGTH,
      fr_bits = bs, fr_llr = l, fr_n_bits = hd_n h * 2\<rparr>"

text \<open>Steps 2 to 7 on the decimated burst.\<close>

definition demod_symbols :: "demod_env \<Rightarrow> int \<Rightarrow> downmix_frame \<Rightarrow> complex list \<Rightarrow> demod_result" where
  "demod_symbols env cap inp decimated =
     (let p = qpsk_pll decimated PLL_ALPHA;
          h = demod_qpsk (pll_out p);
          fail = \<lparr>work_capacity = cap, demod_in = inp, saved = [], demod_out = None\<rparr>
      in case verify_unique_word (hd_symbols h) (pll_out p) (hd_n h) (dm_direction inp) of
           None \<Rightarrow>
             if save_bursts_dir env then
               let inp' = inp\<lparr>dm_direction := DIR_UNDEF\<rparr>
               in fail\<lparr>demod_in := inp', saved := [inp']\<rparr>
             else fail
         | Some dir \<Rightarrow>
             let inp' = inp\<lparr>dm_direction := dir\<rparr>;
                 sv = (if save_bursts_dir env then [inp'] else []);
                 syms = decode_dqpsk (take (nat (hd_n h)) (hd_symbols h))
             in if \<not> bits_ok env then fail\<lparr>demod_in := inp', saved := sv\<rparr>
                else
                  let l = (if use_chase env \<noteq> 0 \<and> llr_ok env
                           then Some (soft_reliability (pll_out p) (hd_n h)) else None)
                  in \<lparr>work_capacity = cap, demod_in = inp', saved = sv,
                      demod_out = Some (build_frame inp' h (total_phase p) (map_symbols_to_bits syms) l)\<rparr>)"

definition qpsk_demod :: "demod_env \<Rightarrow> int \<Rightarrow> downmix_frame \<Rightarrow> demod_result option" where
  "qpsk_demod env cap inp =
     (let sps = trunc (dm_samples_per_symbol inp + 1/2);
          sps = (if sps < 1 then 1 else sps);
          num_samples = signed_take_bit 31 (int (dm_num_samples inp));
          max_symbols = num_samples sdiv sps + 1;
          (cap, ok) = ensure_work_buffers (realloc_ok env) max_symbols cap
      in if \<not> ok then Some \<lparr>work_capacity = cap, demod_in = inp, saved = [], demod_out = None\<rparr>
         else
           map_option (demod_symbols env cap inp)
             (if use_gardner env
              then decimate_gardner (dm_samples inp) num_samples (dm_samples_per_symbol inp)
              else decimate_simple (dm_samples inp) num_samples (dm_samples_per_symbol inp)))"

subsection \<open>Differential encoding\<close>

text \<open>The transmitter's side of the differential code: the phase steps that stand for the symbols.\<close>

definition dqpsk_phase :: "int list" where "dqpsk_phase = [0, 3, 1, 2]"

fun encode_dqpsk :: "int \<Rightarrow> int list \<Rightarrow> int list" where
  "encode_dqpsk old [] = []"
| "encode_dqpsk old (d # ds) =
     (old + dqpsk_phase ! nat d) mod 4 # encode_dqpsk ((old + dqpsk_phase ! nat d) mod 4) ds"

fun decode_from :: "int \<Rightarrow> int list \<Rightarrow> int list" where
  "decode_from old [] = []"
| "decode_from old (s # ss) = dqpsk_map ! nat ((s - old + 4) mod 4) # decode_from s ss"

lemma decode_dqpsk_fold: "snd (fold dqpsk_step ss (old, acc)) = acc @ decode_from old ss"
  by (induction ss arbitrary: old acc) (auto simp: dqpsk_step_def)

lemma decode_dqpsk_alt: "decode_dqpsk ss = decode_from 0 ss"
  by (simp add: decode_dqpsk_def decode_dqpsk_fold)

lemma length_decode_from [simp]: "length (decode_from old ss) = length ss"
  by (induction ss arbitrary: old) auto

lemma length_encode_dqpsk [simp]: "length (encode_dqpsk old ds) = length ds"
  by (induction ds arbitrary: old) (auto simp: Let_def)

lemma quaternary_cases:
  assumes "d \<in> {0..<4::int}"
  obtains "d = 0" | "d = 1" | "d = 2" | "d = 3"
  using assms by force

lemma dqpsk_map_phase:
  assumes "d \<in> {0..<4}"
  shows "dqpsk_map ! nat (((old + dqpsk_phase ! nat d) mod 4 - old) mod 4) = d"
proof -
  have "((old + p) mod 4 - old) mod 4 = p mod 4" for p
    by (simp add: mod_diff_left_eq)
  then show ?thesis using assms
    by (simp only:, elim quaternary_cases) (simp_all add: dqpsk_map_def dqpsk_phase_def)
qed

lemma decode_encode_dqpsk:
  "set ds \<subseteq> {0..<4} \<Longrightarrow> decode_from old (encode_dqpsk old ds) = ds"
  by (induction ds arbitrary: old) (simp_all add: Let_def dqpsk_map_phase)

lemma encode_dqpsk_range: "set (encode_dqpsk old ds) \<subseteq> {0..<4}"
  by (induction ds arbitrary: old) (auto simp: Let_def)

lemma decode_from_range:
  assumes "set ss \<subseteq> {0..<4}" and "old \<in> {0..<4}"
  shows "set (decode_from old ss) \<subseteq> {0..<4}"
  using assms
proof (induction ss arbitrary: old)
  case (Cons s ss)
  have "(s - old + 4) mod 4 \<in> {0..<4}" by simp
  then have "dqpsk_map ! nat ((s - old + 4) mod 4) \<in> {0..<4}"
    by (elim quaternary_cases) (simp_all add: dqpsk_map_def)
  then show ?case using Cons by simp
qed simp

lemma encode_decode_dqpsk:
  assumes "set ss \<subseteq> {0..<4}" and "old \<in> {0..<4}"
  shows "encode_dqpsk old (decode_from old ss) = ss"
  using assms
proof (induction ss arbitrary: old)
  case (Cons s ss)
  have "(old + dqpsk_phase ! nat (dqpsk_map ! nat ((s - old + 4) mod 4))) mod 4 = s"
  proof -
    have s: "s \<in> {0..<4}" using Cons.prems by simp
    from Cons.prems(2) show ?thesis
    proof (cases rule: quaternary_cases)
    qed (use s in \<open>elim quaternary_cases; simp add: dqpsk_phase_def dqpsk_map_def\<close>)+
  qed
  then show ?case using Cons by (simp add: Let_def)
qed simp

lemma take_encode_dqpsk: "take n (encode_dqpsk old ds) = encode_dqpsk old (take n ds)"
  by (induction ds arbitrary: old n) (auto simp: Let_def take_Cons split: nat.splits)

subsection \<open>Unique words\<close>

lemma symbol_distance_nonneg [simp]: "0 \<le> symbol_distance a b"
  by (simp add: symbol_distance_def Let_def)

lemma symbol_distance_self [simp]: "symbol_distance a a = 0"
  by (simp add: symbol_distance_def)

lemma symbol_distance_0_2: "2 \<le> symbol_distance a 0 + symbol_distance a 2"
  by (simp add: symbol_distance_def Let_def abs_if)

lemma check_sync_word_alt:
  "check_sync_word symbols n d \<longleftrightarrow>
     12 \<le> n \<and> (\<Sum>i<12. symbol_distance (symbols ! i) (unique_word d ! i)) \<le> 2"
proof -
  have "fold (\<lambda>i acc. acc + f i) [0..<m] (a::int) = a + (\<Sum>i<m. f i)" for f :: "nat \<Rightarrow> int" and m a
    by (induction m arbitrary: a) simp_all
  then show ?thesis
    by (simp add: check_sync_word_def IR_UW_LENGTH_def UW_MAX_ERRORS_def not_less)
qed

lemma unique_words_apart:
  "12 \<le> (\<Sum>i<12. symbol_distance (symbols ! i) (unique_word DIR_DOWNLINK ! i)) +
         (\<Sum>i<12. symbol_distance (symbols ! i) (unique_word DIR_UPLINK ! i))"
proof -
  let ?f = "\<lambda>i. symbol_distance (symbols ! i) (unique_word DIR_DOWNLINK ! i) +
                symbol_distance (symbols ! i) (unique_word DIR_UPLINK ! i)"
  have "(\<Sum>i\<in>{0, 2, 3, 4, 5, 10::nat}. 2) \<le> (\<Sum>i\<in>{0, 2, 3, 4, 5, 10}. ?f i)"
    by (rule sum_mono)
      (auto simp: unique_word_def IR_UW_DL_def IR_UW_UL_def symbol_distance_0_2 add.commute
            intro: order_trans [OF symbol_distance_0_2])
  also have "\<dots> \<le> (\<Sum>i<12. ?f i)" by (rule sum_mono2) auto
  finally show ?thesis by (simp add: sum.distrib)
qed

lemma check_sync_word_exclusive:
  "\<not> (check_sync_word symbols n DIR_DOWNLINK \<and> check_sync_word symbols n DIR_UPLINK)"
  using unique_words_apart [of symbols] by (auto simp: check_sync_word_alt)

subsection \<open>The phase-tracking loop\<close>

lemma cmod_nearest_point [simp]: "cmod (nearest_point z) = 1"
  by (simp add: nearest_point_def cmod_def M_SQRT1_2f_def power2_eq_square)

lemma pll_step_unit: "cmod (phi_hat st) = 1 \<Longrightarrow> cmod (phi_hat (pll_step alpha z st)) = 1"
proof -
  assume "cmod (phi_hat st) = 1"
  moreover have "cmod (cnj (Complex (cos a) (sin a))) = 1" for a
    by (simp add: cmod_def)
  ultimately show ?thesis by (simp add: pll_step_def Let_def norm_mult norm_divide)
qed

lemma pll_out_step: "pll_out (pll_step alpha z st) = pll_out st @ [z * phi_hat st]"
  by (simp add: pll_step_def Let_def)

lemma pll_fold:
  assumes "cmod (phi_hat st) = 1"
  shows "\<exists>zs. pll_out (fold (pll_step alpha) inp st) = pll_out st @ zs \<and> map cmod zs = map cmod inp"
  using assms
proof (induction inp arbitrary: st)
  case (Cons z inp)
  let ?st = "pll_step alpha z st"
  from Cons.IH [of ?st] Cons.prems pll_step_unit obtain zs
    where "pll_out (fold (pll_step alpha) inp ?st) = pll_out ?st @ zs" "map cmod zs = map cmod inp"
    by blast
  with Cons.prems show ?case
    by (intro exI [of _ "(z * phi_hat st) # zs"]) (simp add: pll_out_step norm_mult)
qed simp

lemma qpsk_pll_magnitudes: "map cmod (pll_out (qpsk_pll inp alpha)) = map cmod inp"
  using pll_fold [of pll_init alpha inp] by (auto simp: qpsk_pll_def pll_init_def)

lemma length_pll_out [simp]: "length (pll_out (qpsk_pll inp alpha)) = length inp"
  using qpsk_pll_magnitudes [of inp alpha] by (metis length_map)

subsection \<open>The constellation\<close>

definition qpsk_point :: "int \<Rightarrow> complex" where
  "qpsk_point s =
     (if s = 0 then Complex M_SQRT1_2f M_SQRT1_2f
      else if s = 1 then Complex (- M_SQRT1_2f) M_SQRT1_2f
      else if s = 2 then Complex (- M_SQRT1_2f) (- M_SQRT1_2f)
      else Complex M_SQRT1_2f (- M_SQRT1_2f))"

lemma M_SQRT1_2f_pos [simp]: "0 < M_SQRT1_2f"
  by (simp add: M_SQRT1_2f_def)

lemma M_SQRT1_2f_sq: "M_SQRT1_2f * M_SQRT1_2f = 1 / 2"
  by (simp add: M_SQRT1_2f_def)

lemma cmod_qpsk_point [simp]: "cmod (qpsk_point s) = 1"
  by (simp add: qpsk_point_def cmod_def power2_eq_square M_SQRT1_2f_sq)

lemma nearest_qpsk_point:
  assumes "r > 0"
  shows "nearest_point (complex_of_real r * qpsk_point s) = qpsk_point s"
proof -
  have "0 \<le> r" "\<not> M_SQRT1_2f < 0" "\<not> r \<le> 0" "\<not> M_SQRT1_2f \<le> 0"
    using assms M_SQRT1_2f_pos by linarith+
  then show ?thesis
    by (simp add: nearest_point_def qpsk_point_def zero_le_mult_iff mult_less_0_iff mult_le_0_iff)
qed

lemma hard_qpsk_point:
  assumes "r > 0" and "s \<in> {0..<4}"
  shows "hard_symbol (complex_of_real r * qpsk_point s) = s"
proof -
  have "0 \<le> r" "\<not> M_SQRT1_2f < 0" "\<not> r \<le> 0" "\<not> M_SQRT1_2f \<le> 0"
    using assms M_SQRT1_2f_pos by linarith+
  with assms show ?thesis
    by (elim quaternary_cases)
      (simp_all add: hard_symbol_def qpsk_point_def zero_le_mult_iff mult_less_0_iff mult_le_0_iff)
qed

lemma pll_step_locked:
  assumes "r > 1 / 10 ^ 9" and "phi_hat st = 1"
  shows "pll_step alpha (complex_of_real r * qpsk_point s) st =
    st\<lparr>pll_out := pll_out st @ [complex_of_real r * qpsk_point s]\<rparr>"
proof -
  have r: "r > 0" using assms(1) by (smt (verit) divide_pos_pos zero_less_power)
  have "cnj (qpsk_point s) * (complex_of_real r * qpsk_point s) =
      complex_of_real r * (qpsk_point s * cnj (qpsk_point s))" by simp
  then have er: "cnj (qpsk_point s) * (complex_of_real r * qpsk_point s) = complex_of_real r"
    by (simp add: complex_norm_square [symmetric])
  have "Arg 1 = 0" by (rule cis_Arg_unique) auto
  moreover have "Complex (cos 0) (sin 0) = 1" by (simp add: complex_eq_iff)
  moreover have "\<not> r < 1 / 10 ^ 10" using assms(1) by simp
  ultimately show ?thesis
    using r assms(2) by (simp add: pll_step_def Let_def nearest_qpsk_point er)
qed

lemma pll_fold_locked:
  assumes "r > 1 / 10 ^ 9" and "phi_hat st = 1"
  shows "fold (pll_step alpha) (map (\<lambda>s. complex_of_real r * qpsk_point s) ss) st =
    st\<lparr>pll_out := pll_out st @ map (\<lambda>s. complex_of_real r * qpsk_point s) ss\<rparr>"
  using assms(2)
  by (induction ss arbitrary: st) (simp_all add: pll_step_locked [OF assms(1)])

lemma qpsk_pll_locked:
  assumes "r > 1 / 10 ^ 9"
  shows "qpsk_pll (map (\<lambda>s. complex_of_real r * qpsk_point s) ss) alpha =
    \<lparr>phi_hat = 1, total_phase = 0, pll_out = map (\<lambda>s. complex_of_real r * qpsk_point s) ss\<rparr>"
  using pll_fold_locked [OF assms, of pll_init] by (simp add: qpsk_pll_def pll_init_def)

subsection \<open>Hard decision\<close>

lemma demod_scan_bounds:
  assumes "demod_scan zs mx low n acc = (es, m)" and "0 \<le> low" "low \<le> n" "low < 3" "n = int (length acc)"
  shows "0 \<le> m \<and> m \<le> int (length es) \<and> length es \<le> length acc + length zs \<and>
    (\<exists>k. es = acc @ map decide (take k zs))"
  using assms
proof (induction zs arbitrary: mx low n acc)
  case Nil
  then show ?case by auto
next
  case (Cons z zs)
  let ?mx = "if d_mag (decide z) > mx then d_mag (decide z) else mx"
  let ?weak = "d_mag (decide z) < ?mx / MAGNITUDE_DROP"
  have step: ?case
    if "demod_scan zs ?mx l (n + 1) (acc @ [decide z]) = (es, m)" "0 \<le> l" "l \<le> n + 1" "l < 3" for l
    using Cons.IH [OF that] Cons.prems(5) by (auto intro: exI [of _ "Suc _"])
  consider "?weak" "low + 1 \<ge> 3" | "?weak" "low + 1 < 3" | "\<not> ?weak" by linarith
  then show ?case
  proof cases
    case 1
    with Cons.prems have "es = acc @ [decide z]" "m = n + 1 - 3" "low = 2"
      by (simp_all add: Let_def MAX_LOW_COUNT_def)
    with Cons.prems(3,5) show ?thesis by (auto intro!: exI [of _ 1])
  next
    case 2
    with Cons.prems show ?thesis
      by (intro step [of "low + 1"]) (simp_all add: Let_def MAX_LOW_COUNT_def)
  next
    case 3
    with Cons.prems show ?thesis by (intro step [of 0]) (simp_all add: Let_def)
  qed
qed

lemma demod_qpsk_bounds:
  "0 \<le> hd_n (demod_qpsk burst) \<and> hd_n (demod_qpsk burst) \<le> int (length (hd_symbols (demod_qpsk burst))) \<and>
   length (hd_symbols (demod_qpsk burst)) \<le> length burst \<and>
   0 \<le> hd_confidence (demod_qpsk burst) \<and> hd_confidence (demod_qpsk burst) \<le> 100"
proof -
  obtain es m where s: "demod_scan burst 0 0 0 [] = (es, m)" by fastforce
  from demod_scan_bounds [OF s] have b: "0 \<le> m" "m \<le> int (length es)" "length es \<le> length burst" by auto
  let ?ok = "length (filter (\<lambda>e. \<bar>d_offset e\<bar> \<le> CONFIDENCE_ANGLE) (take (nat m) es))"
  have "?ok \<le> length (take (nat m) es)" by (rule length_filter_le)
  with b have "int ?ok \<le> m" by simp
  then have "100 * int ?ok div m \<le> 100" if "m > 0"
    using that zdiv_mono1 [of "100 * int ?ok" "100 * m" m] by simp
  then show ?thesis using b s by (simp add: demod_qpsk_def Let_def div_int_pos_iff)
qed

lemma demod_scan_clean:
  assumes "r > 0" and "mx = r \<or> mx = 0"
  shows "demod_scan (map (\<lambda>s. complex_of_real r * qpsk_point s) ss) mx 0 n acc =
    (acc @ map (\<lambda>s. decide (complex_of_real r * qpsk_point s)) ss, n + int (length ss))"
  using assms(2)
proof (induction ss arbitrary: mx n acc)
  case (Cons s ss)
  have "d_mag (decide (complex_of_real r * qpsk_point s)) = r"
    using assms(1) cmod_def [of "complex_of_real r * qpsk_point s"]
    by (simp add: decide_def norm_mult power2_eq_square)
  with Cons assms(1) show ?case by (auto simp: Let_def MAGNITUDE_DROP_def)
qed simp

lemma demod_qpsk_clean:
  assumes "r > 0" and "set ss \<subseteq> {0..<4}"
  shows "hd_n (demod_qpsk (map (\<lambda>s. complex_of_real r * qpsk_point s) ss)) = int (length ss) \<and>
    hd_symbols (demod_qpsk (map (\<lambda>s. complex_of_real r * qpsk_point s) ss)) = ss"
  using assms
  by (auto simp: demod_qpsk_def Let_def demod_scan_clean decide_def comp_def hard_qpsk_point subset_iff
      intro!: map_idI)

subsection \<open>Timing recovery\<close>

lemma cubic_index_bounds: "4 \<le> n \<Longrightarrow> 1 \<le> cubic_index n pos \<and> cubic_index n pos + 2 < n"
  by (simp add: cubic_index_def Let_def)

lemma cubic_interp_junk:
  assumes "n = int (length inp)" and "4 \<le> n"
  shows "cubic_interp (inp @ junk) n pos = cubic_interp inp n pos"
proof -
  let ?i = "cubic_index n pos"
  have "(inp @ junk) ! nat j = inp ! nat j" if "0 \<le> j" "j < n" for j
    using that assms(1) by (simp add: nth_append nat_less_iff)
  then show ?thesis using cubic_index_bounds [OF assms(2), of pos]
    by (simp add: cubic_interp_def Let_def)
qed

lemma cubic_interp_at_sample:
  assumes "1 \<le> k" and "k \<le> n - 3"
  shows "cubic_interp inp n (real_of_int k) = inp ! nat k"
  using assms by (simp add: cubic_interp_def cubic_index_def trunc_def Let_def)

lemma clamp_bounds: "0 \<le> b \<Longrightarrow> - b \<le> clamp b x \<and> clamp b x \<le> b"
  by (simp add: clamp_def Let_def)

lemma gardner_adjust_pos:
  "fst st - 1/2 \<le> fst (gardner_adjust inp n sps k p q st) \<and>
   (0 \<le> fst st \<and> 0 \<le> sps \<longrightarrow> 0 \<le> fst (gardner_adjust inp n sps k p q st))"
proof (cases "k > 0 \<and> fst st - sps * (1/2) \<ge> 1")
  case True
  have "- (1/2) \<le> clamp (1/2) x" for x using clamp_bounds [of "1/2" x] by simp
  then have "fst st - 1/2 \<le> fst (gardner_adjust inp n sps k p q st)"
    using True by (simp add: gardner_adjust_def Let_def split: prod.splits)
  then show ?thesis using True by auto
next
  case False
  then show ?thesis by (auto simp: gardner_adjust_def Let_def split: prod.splits)
qed

lemma gardner_adjust_junk:
  assumes "n = int (length inp)" and "4 \<le> n"
  shows "gardner_adjust (inp @ junk) n sps k p q st = gardner_adjust inp n sps k p q st"
  by (cases st) (simp add: gardner_adjust_def Let_def cubic_interp_junk [OF assms])

lemma gardner_loop_ends:
  assumes "1/2 < sps" and "n = int (length inp)" and "0 \<le> fst st"
    and "real_of_int (n - 3) - fst st \<le> real k * (sps - 1/2)"
  shows "\<exists>zs. gardner_loop inp n sps prev st out = Some (out @ zs) \<and>
    gardner_loop (inp @ junk) n sps prev st out = Some (out @ zs) \<and> length zs \<le> k"
  using assms(3,4)
proof (induction k arbitrary: prev st out)
  case 0
  then show ?case by (simp add: gardner_loop.simps)
next
  case (Suc k)
  show ?case
  proof (cases "fst st < real_of_int (n - 3)")
    case True
    then have n: "4 \<le> n" using Suc.prems(1) by linarith
    define z where "z = cubic_interp inp n (fst st)"
    define st' where "st' = gardner_adjust inp n sps (length out) prev z st"
    have p: "fst st - 1/2 \<le> fst st'" "0 \<le> fst st'"
      using gardner_adjust_pos [of st inp n sps "length out" prev z] Suc.prems(1) assms(1)
      by (auto simp: st'_def)
    with Suc.prems(2) have "real_of_int (n - 3) - (fst st' + sps) \<le> real k * (sps - 1/2)"
      by (simp add: algebra_simps add_divide_distrib)
    with p assms(1) Suc.IH [of "(fst st' + sps, snd st')" z "out @ [z]"] obtain zs
      where "gardner_loop inp n sps z (fst st' + sps, snd st') (out @ [z]) = Some (out @ [z] @ zs)"
        "gardner_loop (inp @ junk) n sps z (fst st' + sps, snd st') (out @ [z]) = Some (out @ [z] @ zs)"
        "length zs \<le> k"
      by fastforce
    then show ?thesis using True n assms(2)
      by (intro exI [of _ "z # zs"])
        (simp add: gardner_loop.simps [of _ _ _ prev st] Let_def cubic_interp_junk gardner_adjust_junk
           z_def st'_def)
  qed (simp add: gardner_loop.simps)
qed

lemma decimate_gardner_ends:
  assumes "1/2 < sps" and "n = int (length inp)"
  shows "\<exists>out. decimate_gardner inp n sps = Some out \<and> decimate_gardner (inp @ junk) n sps = Some out \<and>
    int (length out) \<le> max 0 \<lceil>real_of_int (n - 3) / (sps - 1/2)\<rceil>"
proof -
  let ?q = "real_of_int (n - 3) / (sps - 1/2)"
  have "?q \<le> real (nat \<lceil>?q\<rceil>)" by linarith
  then have "real_of_int (n - 3) \<le> real (nat \<lceil>?q\<rceil>) * (sps - 1/2)"
    using assms(1) by (simp add: divide_le_eq)
  then have *: "real_of_int (n - 3) - fst (0, 0) \<le> real (nat \<lceil>?q\<rceil>) * (sps - 1/2)" by simp
  show ?thesis
    using gardner_loop_ends [OF assms _ *, of 0 "[]" junk] by (auto simp: decimate_gardner_def)
qed

subsection \<open>Plain decimation\<close>

lemma simple_loop_multiple:
  assumes "0 < k" and "j \<le> m"
  shows "simple_loop inp (int (k * m)) (int k) (int (k * j)) out =
    Some (out @ map (\<lambda>t. inp ! (k * t)) [j..<m])"
  using assms(2)
proof (induction "m - j" arbitrary: j out)
  case 0
  then show ?case by (simp add: simple_loop.simps)
next
  case (Suc x)
  then have j: "j < m" by simp
  have e: "int (k * j) + int k = int (k * Suc j)" by simp
  have "simple_loop inp (int (k * m)) (int k) (int (k * j)) out =
      simple_loop inp (int (k * m)) (int k) (int (k * Suc j)) (out @ [inp ! (k * j)])"
    using j assms(1) unfolding e [symmetric] by (subst simple_loop.simps) (simp del: of_nat_mult)
  also have "\<dots> = Some ((out @ [inp ! (k * j)]) @ map (\<lambda>t. inp ! (k * t)) [Suc j..<m])"
    using Suc j by (intro Suc.hyps(1)) simp_all
  finally show ?case using j by (simp add: upt_conv_Cons)
qed

text \<open>A noiseless burst: every symbol held for \<open>k\<close> samples at amplitude \<open>r\<close>.\<close>

definition modulate :: "nat \<Rightarrow> real \<Rightarrow> int list \<Rightarrow> complex list" where
  "modulate k r ss = concat (map (\<lambda>s. replicate k (complex_of_real r * qpsk_point s)) ss)"

lemma nth_concat_replicate:
  "0 < k \<Longrightarrow> t < length xs \<Longrightarrow> concat (map (\<lambda>s. replicate k (f s)) xs) ! (k * t) = f (xs ! t)"
proof (induction xs arbitrary: t)
  case (Cons x xs)
  then show ?case by (cases t) (simp_all add: nth_append)
qed simp

lemma decimate_modulate:
  assumes "0 < k"
  shows "decimate_simple (modulate k r ss) (int (k * length ss)) (real k) =
    Some (map (\<lambda>s. complex_of_real r * qpsk_point s) ss)"
proof -
  have "map (\<lambda>t. modulate k r ss ! (k * t)) [0..<length ss] = map (\<lambda>s. complex_of_real r * qpsk_point s) ss"
    using assms by (auto simp: modulate_def nth_concat_replicate intro!: nth_equalityI)
  then show ?thesis
    using simple_loop_multiple [OF assms, of 0 "length ss" "modulate k r ss" "[]"]
    by (simp add: decimate_simple_def trunc_def)
qed

subsection \<open>From a clean burst to its bits\<close>

lemma verify_unique_word_hard:
  assumes "check_sync_word symbols n d" and "d \<in> {DIR_DOWNLINK, DIR_UPLINK}"
  shows "verify_unique_word symbols out n dir = Some d"
  using assms check_sync_word_exclusive [of symbols n] by (auto simp: verify_unique_word_def Let_def)

lemma check_sync_word_exact:
  assumes "take 12 symbols = unique_word d" and "12 \<le> n"
  shows "check_sync_word symbols n d"
proof -
  have "symbols ! i = unique_word d ! i" if "i < 12" for i
    using that by (simp add: assms(1) [symmetric])
  then show ?thesis using assms(2) by (simp add: check_sync_word_alt)
qed

lemma qpsk_demod_clean:
  fixes k :: nat and ds :: "int list"
  defines "ss \<equiv> encode_dqpsk 0 ds"
  assumes "0 < k" and "1 / 10 ^ 9 < r" and "set ds \<subseteq> {0..<4}"
    and "take 12 ss = unique_word d" and "d \<in> {DIR_DOWNLINK, DIR_UPLINK}"
    and "\<not> use_gardner env" "realloc_ok env" "bits_ok env"
    and "dm_samples inp = modulate k r ss" "dm_num_samples inp = k * length ss"
    and "dm_samples_per_symbol inp = real k" "k * length ss < 2 ^ 31"
  shows "\<exists>res f. qpsk_demod env cap inp = Some res \<and> demod_out res = Some f \<and>
    fr_bits f = map_symbols_to_bits ds \<and> fr_n_bits f = 2 * int (length ds) \<and> fr_direction f = d \<and>
    fr_center_frequency f = dm_center_frequency inp \<and> fr_timestamp f = dm_timestamp inp"
proof -
  have r: "0 < r" using assms(3) by (smt (verit) divide_pos_pos zero_less_power)
  have len: "12 \<le> length ss"
  proof -
    have "length (take 12 ss) = 12"
      unfolding assms(5) by (simp add: unique_word_def IR_UW_DL_def IR_UW_UL_def)
    then show ?thesis by simp
  qed
  have cap: "snd (ensure_work_buffers (realloc_ok env) x cap)" for x
    using assms(8) by (simp add: ensure_work_buffers_def)
  have num: "signed_take_bit 31 (int (dm_num_samples inp)) = int (k * length ss)"
    using assms(11,13) by (simp only: signed_take_bit_int_eq_self_iff) (simp del: of_nat_mult)
  have h: "hd_n (demod_qpsk (map (\<lambda>s. complex_of_real r * qpsk_point s) ss)) = int (length ss)"
    "hd_symbols (demod_qpsk (map (\<lambda>s. complex_of_real r * qpsk_point s) ss)) = ss"
    using demod_qpsk_clean [OF r, of ss] encode_dqpsk_range [of 0 ds] by (simp_all add: ss_def)
  have v: "verify_unique_word ss out (int (length ss)) dir = Some d" for out dir
    using check_sync_word_exact [OF assms(5), of "int (length ss)"] len assms(6)
    by (intro verify_unique_word_hard) simp_all
  have dec: "decode_dqpsk ss = ds"
    by (simp add: decode_dqpsk_alt ss_def decode_encode_dqpsk [OF assms(4)])
  let ?pts = "map (\<lambda>s. complex_of_real r * qpsk_point s) ss"
  obtain cap' where "qpsk_demod env cap inp = Some (demod_symbols env cap' inp ?pts)"
    using that cap assms(7,10,12) decimate_modulate [OF assms(2), of r ss]
    by (auto simp: qpsk_demod_def Let_def num case_prod_unfold simp del: of_nat_mult)
  moreover obtain l where "demod_out (demod_symbols env cap' inp ?pts) =
      Some (build_frame (inp\<lparr>dm_direction := d\<rparr>) (demod_qpsk ?pts) 0 (map_symbols_to_bits ds) l)"
    using that assms(9)
    by (simp add: demod_symbols_def Let_def qpsk_pll_locked [OF assms(3)] h v dec)
  moreover have "length ss = length ds" by (simp add: ss_def)
  ultimately show ?thesis by (simp add: build_frame_def Let_def h)
qed

subsection \<open>Properties\<close>


definition clean_downlink :: downmix_frame where
  "clean_downlink = \<lparr>dm_id = 1, dm_timestamp = 7, dm_center_frequency = 1626270833, dm_sample_rate = 250000,
     dm_samples_per_symbol = 10, dm_direction = DIR_UNDEF, dm_magnitude = 20, dm_noise = 0,
     dm_uw_start = 0, dm_num_samples = 130,
     dm_samples = modulate 10 1 (encode_dqpsk 0 [0, 3, 0, 0, 0, 3, 0, 0, 3, 3, 0, 3, 1])\<rparr>"

definition plain_env :: demod_env where
  "plain_env = \<lparr>use_gardner = False, use_chase = 0, save_bursts_dir = False,
     realloc_ok = True, bits_ok = True, llr_ok = True\<rparr>"


text \<open>
  C11. Timing recovery ends for every burst and every rate above half a
  sample per symbol, whatever the samples are: it returns, the number of symbols is at most the
  number of steps of \<open>sps - 1/2\<close> samples in the burst (the worst case of the clamped adjustment),
  and no sample outside the burst is read (appending anything to the buffer does not change the
  result).
\<close>

theorem decimate_gardner_safe:
  assumes "1/2 < sps" and "n = int (length inp)"
  shows "\<exists>out. decimate_gardner inp n sps = Some out \<and> decimate_gardner (inp @ junk) n sps = Some out \<and>
    int (length out) \<le> max 0 \<lceil>real_of_int (n - 3) / (sps - 1/2)\<rceil>"
  using assms by (rule decimate_gardner_ends)

theorem decimate_gardner_safe_witness:
  "\<exists>out. decimate_gardner (replicate 103 (1 :: complex)) 103 10 = Some out \<and> int (length out) \<le> 11"
proof -
  have c: "\<lceil>real_of_int (103 - 3) / (10 - 1/2)\<rceil> = 11" by (simp add: ceiling_eq_iff)
  have "\<exists>out. decimate_gardner (replicate 103 (1 :: complex)) 103 10 = Some out \<and>
      decimate_gardner (replicate 103 1 @ []) 103 10 = Some out \<and>
      int (length out) \<le> max 0 \<lceil>real_of_int (103 - 3) / (10 - 1/2)\<rceil>"
    by (rule decimate_gardner_safe) simp_all
  then show ?thesis unfolding c by auto
qed

text \<open>
  The hard unique-word check never accepts a burst in both directions,
  so whenever it accepts one the direction that \<open>qpsk_demod\<close> records is that direction, whatever
  the burst detector had guessed before.
\<close>

theorem unique_word_decision:
  "\<not> (check_sync_word symbols n DIR_DOWNLINK \<and> check_sync_word symbols n DIR_UPLINK) \<and>
   (check_sync_word symbols n DIR_DOWNLINK \<longrightarrow> verify_unique_word symbols out n dir = Some DIR_DOWNLINK) \<and>
   (check_sync_word symbols n DIR_UPLINK \<longrightarrow> verify_unique_word symbols out n dir = Some DIR_UPLINK)"
  using check_sync_word_exclusive verify_unique_word_hard by blast

theorem unique_word_decision_witness:
  "verify_unique_word [2, 2, 0, 1, 0, 2, 0, 0, 2, 3, 2, 2] [] 12 DIR_UNDEF = Some DIR_UPLINK"
proof -
  have "check_sync_word [2, 2, 0, 1, 0, 2, 0, 0, 2, 3, 2, 2] 12 DIR_UPLINK"
    by (simp add: check_sync_word_def IR_UW_LENGTH_def UW_MAX_ERRORS_def symbol_distance_def
        unique_word_def IR_UW_UL_def eval_simps)
  then show ?thesis using unique_word_decision by blast
qed

text \<open>
  For every burst the hard decision keeps between zero and all of its
  symbols, also when the end of the frame is detected and the last three are dropped, and the
  confidence is a percentage; phase tracking before it changes no amplitude.
\<close>

theorem hard_decision_bounds:
  "0 \<le> hd_n (demod_qpsk (pll_out (qpsk_pll burst alpha))) \<and>
   hd_n (demod_qpsk (pll_out (qpsk_pll burst alpha))) \<le> int (length burst) \<and>
   hd_confidence (demod_qpsk (pll_out (qpsk_pll burst alpha))) \<in> {0..100} \<and>
   map cmod (pll_out (qpsk_pll burst alpha)) = map cmod burst"
  using demod_qpsk_bounds [of "pll_out (qpsk_pll burst alpha)"] by (simp add: qpsk_pll_magnitudes)

end
