(* ===== verification/FrameDecode.thy ===== *)
theory FrameDecode
  imports Bch Interleave QpskDemod
begin

unbundle bit_operations_syntax

text \<open>
  The IRA (ring alert) and IBC (broadcast) frame decoder of \<^verbatim>\<open>src/frame_decode.c\<close>, with the types
  of \<^verbatim>\<open>src/frame_decode.h\<close>: syndrome tables, BCH(31,21) block decoding, field extraction, and
  \<open>frame_decode\<close> itself. The syndrome tables, which the C code keeps in static arrays filled by
  \<open>frame_decode_init\<close>, are a record passed to the operations that read them. \<open>double\<close> values are
  exact reals.

  The BCH polynomials are shown to have minimum distance 5 (data) and 3 (header) and interpret
  the locales of \<open>Bch\<close>; block decoding corrects every pattern of at most two errors and never
  returns a non-codeword; the frame decoder inverts the transmitter's encoding of IBC frames
  under such errors, and accepts only frames with an exact access code and a valid beam.
\<close>

subsection \<open>Constants and types\<close>

definition BCH_POLY_RA :: u32 where "BCH_POLY_RA = 1207"
definition BCH_POLY_HDR :: u32 where "BCH_POLY_HDR = 29"
definition BCH_RA_DATA :: nat where "BCH_RA_DATA = 21"

definition access_dl :: "u8 list" where
  "access_dl = [0,0,1,1,0,0,0,0,0,0,1,1,0,0,0,0,1,1,1,1,0,0,1,1]"
definition access_ul :: "u8 list" where
  "access_ul = [1,1,0,0,1,1,0,0,0,0,1,1,1,1,0,0,1,1,1,1,1,1,0,0]"

datatype frame_type = FRAME_UNKNOWN | FRAME_IRA | FRAME_IBC

record ira_page =
  tmsi :: u32
  msc_id :: int

text \<open>\<open>pages\<close> holds the first \<open>n_pages\<close> entries of the C array of 12.\<close>

record ira_data =
  ira_sat_id :: int
  ira_beam_id :: int
  ira_lat :: real
  ira_lon :: real
  ira_alt :: int
  ira_pos_xyz :: "int \<times> int \<times> int"
  ira_n_pages :: int
  ira_pages :: "ira_page list"

record ibc_data =
  ibc_sat_id :: int
  ibc_beam_id :: int
  ibc_timeslot :: int
  ibc_sv_blocking :: int
  ibc_bc_type :: int
  ibc_iri_time :: u32

text \<open>The tagged union: the payload that \<open>df_type\<close> selects; \<open>No_Payload\<close> is the zeroed one.\<close>

datatype frame_payload = No_Payload | Ira ira_data | Ibc ibc_data

record decoded_frame =
  df_type :: frame_type
  df_timestamp :: u64
  df_frequency :: real
  df_payload :: frame_payload

subsection \<open>Syndrome tables\<close>

record frame_tables =
  syn_ra :: "syn_entry list"
  syn_hdr :: "syn_entry list"

definition frame_decode_init :: frame_tables where
  "frame_decode_init =
     \<lparr>syn_ra = build_syndrome_table BCH_POLY_RA 31 10 2 1024,
      syn_hdr = build_syndrome_table BCH_POLY_HDR 7 4 1 16\<rparr>"

text \<open>\<open>None\<close> is the return value \<open>-1\<close>, on which the locator is not written.\<close>

definition bch_31_21_correct :: "frame_tables \<Rightarrow> u32 \<Rightarrow> (int \<times> u32) option" where
  "bch_31_21_correct t syndrome =
     (if syndrome = 0 then Some (0, 0)
      else if syndrome < 1024 \<and> errs (syn_ra t ! unat syndrome) \<ge> 0
      then Some (errs (syn_ra t ! unat syndrome), locator (syn_ra t ! unat syndrome))
      else None)"

subsection \<open>Block decoding\<close>

text \<open>
  Returns the number of corrected errors with the data and check bits, or \<open>None\<close> for \<open>-1\<close>. The
  reliabilities are an argument of the C function that it does not use.
\<close>

definition chase_bch_decode_p ::
  "frame_tables \<Rightarrow> u8 list \<Rightarrow> real list option \<Rightarrow> (int \<times> u8 list \<times> u8 list) option" where
  "chase_bch_decode_p t block32 llr32 =
     (let val = bits_to_uint block32 31;
          syndrome = gf2_remainder BCH_POLY_RA val
      in if syndrome = 0 then
           Some (0, uint_to_bits (drop_bit 10 val) BCH_RA_DATA, uint_to_bits (val AND 0x3FF) 10)
         else if syndrome < 1024 \<and> errs (syn_ra t ! unat syndrome) \<ge> 0 then
           let val = val XOR locator (syn_ra t ! unat syndrome)
           in Some (errs (syn_ra t ! unat syndrome),
                    uint_to_bits (drop_bit 10 val) BCH_RA_DATA, uint_to_bits (val AND 0x3FF) 10)
         else None)"

definition check_parity32 :: "u8 list \<Rightarrow> u8 list \<Rightarrow> nat \<Rightarrow> u8 list \<Rightarrow> nat \<Rightarrow> bool" where
  "check_parity32 block32 bch_data n_data bch_check n_check =
     (let ones = fold (\<lambda>i ones. ones + uint (bch_data ! i)) [0..<n_data] 0;
          ones = fold (\<lambda>i ones. ones + uint (bch_check ! i)) [0..<n_check] ones;
          ones = ones + uint (block32 ! 31)
      in ones mod 2 = 0)"

subsection \<open>Field extraction\<close>

definition extract_signed12 :: "u8 list \<Rightarrow> int" where
  "extract_signed12 bits =
     (let sign = uint (bits ! 0);
          mag = fold (\<lambda>i mag. push_bit 1 mag OR uint (bits ! i)) [1..<12] 0
      in if sign \<noteq> 0 then mag - 2 ^ 11 else mag)"

definition extract_uint :: "u8 list \<Rightarrow> nat \<Rightarrow> int" where
  "extract_uint bits n = fold (\<lambda>i val. push_bit 1 val OR uint (bits ! i)) [0..<n] 0"

definition atan2 :: "real \<Rightarrow> real \<Rightarrow> real" where
  "atan2 y x = Arg (Complex x y)"

definition all_ones :: "u8 list \<Rightarrow> bool" where
  "all_ones page = list_all (\<lambda>i. page ! i \<noteq> 0) [0..<42]"

definition parse_page :: "u8 list \<Rightarrow> ira_page" where
  "parse_page page =
     \<lparr>tmsi = fold (\<lambda>i t. push_bit 1 t OR ucast (page ! i)) [0..<32] 0,
      msc_id = extract_uint (drop 34 page) 5\<rparr>"

text \<open>The paging loop from bit \<open>offset\<close> on, \<open>pages\<close> being the entries filled so far.\<close>

function parse_pages :: "u8 list \<Rightarrow> int \<Rightarrow> int \<Rightarrow> ira_page list \<Rightarrow> ira_page list" where
  "parse_pages bch_data n_bits offset pages =
     (if offset + 42 \<le> n_bits \<and> length pages < 12 then
        let page = drop (nat offset) bch_data
        in if all_ones page then pages
           else parse_pages bch_data n_bits (offset + 42) (pages @ [parse_page page])
      else pages)"
  by pat_completeness auto
termination by (relation "measure (\<lambda>(d, n, off, p). 12 - length p)") auto

declare parse_pages.simps [simp del]

definition ira_zero :: ira_data where
  "ira_zero = \<lparr>ira_sat_id = 0, ira_beam_id = 0, ira_lat = 0, ira_lon = 0, ira_alt = 0,
     ira_pos_xyz = (0, 0, 0), ira_n_pages = 0, ira_pages = []\<rparr>"

definition parse_ira :: "u8 list \<Rightarrow> int \<Rightarrow> ira_data" where
  "parse_ira bch_data n_bits =
     (if n_bits < 63 then ira_zero
      else
        let pos_x = extract_signed12 (drop 13 bch_data);
            pos_y = extract_signed12 (drop 25 bch_data);
            pos_z = extract_signed12 (drop 37 bch_data);
            x = real_of_int pos_x; y = real_of_int pos_y; z = real_of_int pos_z;
            xy = sqrt (x * x + y * y);
            pages = parse_pages bch_data n_bits 63 []
        in \<lparr>ira_sat_id = extract_uint bch_data 7,
            ira_beam_id = extract_uint (drop 7 bch_data) 6,
            ira_lat = atan2 z xy * 180 / pi,
            ira_lon = atan2 y x * 180 / pi,
            ira_alt = trunc (sqrt (x * x + y * y + z * z) * 4) - 6378 + 23,
            ira_pos_xyz = (pos_x, pos_y, pos_z),
            ira_n_pages = int (length pages),
            ira_pages = pages\<rparr>)"

definition ibc_zero :: ibc_data where
  "ibc_zero = \<lparr>ibc_sat_id = 0, ibc_beam_id = 0, ibc_timeslot = 0, ibc_sv_blocking = 0,
     ibc_bc_type = 0, ibc_iri_time = 0\<rparr>"

definition parse_ibc :: "u8 list \<Rightarrow> int \<Rightarrow> int \<Rightarrow> ibc_data" where
  "parse_ibc bch_data n_bits hdr_type =
     (let ibc = ibc_zero\<lparr>ibc_bc_type := hdr_type\<rparr>
      in if n_bits < 42 then ibc
         else
           let ibc = ibc\<lparr>ibc_sat_id := extract_uint bch_data 7,
                         ibc_beam_id := extract_uint (drop 7 bch_data) 6,
                         ibc_timeslot := uint (bch_data ! 14),
                         ibc_sv_blocking := uint (bch_data ! 15)\<rparr>
           in if n_bits \<ge> 84 \<and> extract_uint (drop 42 bch_data) 6 = 1
              then ibc\<lparr>ibc_iri_time :=
                fold (\<lambda>i t. push_bit 1 t OR ucast (bch_data ! i)) [52..<84] 0\<rparr>
              else ibc)"

subsection \<open>Frame decoding\<close>

text \<open>One pair of interleaved blocks: the 42 data bits, or \<open>None\<close> when a block or a parity fails.\<close>

definition decode_pair :: "frame_tables \<Rightarrow> u8 list \<Rightarrow> real list option \<Rightarrow> u8 list option" where
  "decode_pair t data data_llr =
     (let (di1, di2) = de_interleave data;
          l = map_option de_interleave_llr data_llr
      in case (chase_bch_decode_p t di1 (map_option fst l), chase_bch_decode_p t di2 (map_option snd l)) of
           (Some (ea, d1, rc1), Some (eb, d2, rc2)) \<Rightarrow>
             if \<not> check_parity32 di1 d1 BCH_RA_DATA rc1 10 then None
             else if \<not> check_parity32 di2 d2 BCH_RA_DATA rc2 10 then None
             else Some (d1 @ d2)
         | _ \<Rightarrow> None)"

text \<open>
  The block loops of the IBC and the IRA branch, which differ in the limit on the input and in the
  size of \<open>bch_stream\<close>; \<open>stream\<close> is the filled part of that buffer.
\<close>

function decode_blocks ::
  "frame_tables \<Rightarrow> u8 list \<Rightarrow> real list option \<Rightarrow> int \<Rightarrow> int \<Rightarrow> int \<Rightarrow> u8 list \<Rightarrow> u8 list" where
  "decode_blocks t data data_llr limit bufsize offset stream =
     (if offset + 64 \<le> limit \<and> int (length stream) + 2 * int BCH_RA_DATA \<le> bufsize then
        case decode_pair t (drop (nat offset) data) (map_option (drop (nat offset)) data_llr) of
          None \<Rightarrow> stream
        | Some d \<Rightarrow> decode_blocks t data data_llr limit bufsize (offset + 64) (stream @ d)
      else stream)"
  by pat_completeness auto
termination
  by (relation "measure (\<lambda>(t, d, l, limit, b, off, s). nat (limit - off))") auto

declare decode_blocks.simps [simp del]

text \<open>The corrected IBC header, or \<open>None\<close> when it cannot be corrected.\<close>

definition ibc_header :: "frame_tables \<Rightarrow> u8 list \<Rightarrow> u32 option" where
  "ibc_header t data =
     (let hdr_val = bits_to_uint data 6;
          hdr_syn = gf2_remainder BCH_POLY_HDR hdr_val
      in if hdr_syn = 0 then Some hdr_val
         else if hdr_syn < 16 \<and> errs (syn_hdr t ! unat hdr_syn) \<ge> 0
         then Some (hdr_val XOR locator (syn_hdr t ! unat hdr_syn))
         else None)"

text \<open>IBC detection: the return value and the payload when the frame is confirmed as IBC.\<close>

definition try_ibc :: "frame_tables \<Rightarrow> u8 list \<Rightarrow> real list option \<Rightarrow> int \<Rightarrow> (bool \<times> ibc_data) option" where
  "try_ibc t data data_llr data_len =
     (if data_len \<ge> 6 + 64 then
        case ibc_header t data of
          None \<Rightarrow> None
        | Some hdr_val \<Rightarrow>
            (case decode_pair t (drop 6 data) (map_option (drop 6) data_llr) of
               None \<Rightarrow> None
             | Some d \<Rightarrow>
                 let hdr_data = uint_to_bits (drop_bit 4 hdr_val) 3;
                     bc_type = extract_uint hdr_data 3;
                     ibc_max = (if data_len < 262 then data_len else 262);
                     stream = decode_blocks t data data_llr ibc_max 256 (6 + 64) d;
                     ibc = parse_ibc stream (int (length stream)) bc_type
                 in Some (\<not> (ibc_beam_id ibc < 1 \<or> ibc_beam_id ibc > 48), ibc))
      else None)"

definition decode_triple :: "frame_tables \<Rightarrow> u8 list \<Rightarrow> real list option \<Rightarrow> u8 list option" where
  "decode_triple t data data_llr =
     (let (ra1, ra2, ra3) = de_interleave3 data;
          l = map_option de_interleave3 data_llr
      in case (chase_bch_decode_p t ra1 (map_option fst l),
               chase_bch_decode_p t ra2 (map_option (fst \<circ> snd) l),
               chase_bch_decode_p t ra3 (map_option (snd \<circ> snd) l)) of
           (Some (e1, d1, c1), Some (e2, d2, c2), Some (e3, d3, c3)) \<Rightarrow>
             if check_parity32 ra1 d1 BCH_RA_DATA c1 10 \<and> check_parity32 ra2 d2 BCH_RA_DATA c2 10 \<and>
                check_parity32 ra3 d3 BCH_RA_DATA c3 10
             then Some (d1 @ d2 @ d3) else None
         | _ \<Rightarrow> None)"

definition try_ira :: "frame_tables \<Rightarrow> u8 list \<Rightarrow> real list option \<Rightarrow> int \<Rightarrow> (bool \<times> ira_data) option" where
  "try_ira t data data_llr data_len =
     (if data_len \<ge> 96 then
        case decode_triple t data data_llr of
          None \<Rightarrow> None
        | Some d \<Rightarrow>
            let stream = decode_blocks t data data_llr data_len 512 96 d;
                ira = parse_ira stream (int (length stream))
            in Some (\<not> (ira_beam_id ira < 1 \<or> ira_beam_id ira > 48), ira)
      else None)"

definition frame_decode :: "frame_tables \<Rightarrow> demod_frame \<Rightarrow> bool \<times> decoded_frame" where
  "frame_decode t frame =
     (let out = \<lparr>df_type = FRAME_UNKNOWN, df_timestamp = fr_timestamp frame,
                 df_frequency = fr_center_frequency frame, df_payload = No_Payload\<rparr>
      in if fr_n_bits frame < 24 then (False, out)
         else
           let is_dl = (take 24 (fr_bits frame) = access_dl);
               is_ul = (take 24 (fr_bits frame) = access_ul)
           in if \<not> is_dl \<and> \<not> is_ul then (False, out)
              else
                let data = drop 24 (fr_bits frame);
                    data_llr = map_option (drop 24) (fr_llr frame);
                    data_len = fr_n_bits frame - 24
                in case try_ibc t data data_llr data_len of
                     Some (ok, ibc) \<Rightarrow> (ok, out\<lparr>df_type := FRAME_IBC, df_payload := Ibc ibc\<rparr>)
                   | None \<Rightarrow>
                       (case try_ira t data data_llr data_len of
                          Some (ok, ira) \<Rightarrow> (ok, out\<lparr>df_type := FRAME_IRA, df_payload := Ira ira\<rparr>)
                        | None \<Rightarrow> (False, out)))"

subsection \<open>The codes\<close>

lemma no_sum_ra: "no_sum 3 (map unat (tl (xpowers BCH_POLY_RA 1 31))) 1"
  unfolding BCH_POLY_RA_def numeral_3_eq_3 by (simp add: distance_eval)

interpretation ra: double_error_code BCH_POLY_RA 31 1024
proof unfold_locales
  show "BCH_POLY_RA \<noteq> 0" by (simp add: BCH_POLY_RA_def)
  show "(1024 :: nat) = 2 ^ poly_deg BCH_POLY_RA" by (simp add: BCH_POLY_RA_def eval_simps)
  show "gf2_remainder BCH_POLY_RA e \<noteq> 0" if "e < 2 ^ 31" "e \<noteq> 0" "weight e \<le> 4" for e
    by (rule minimum_distance [OF _ _ _ _ _ no_sum_ra])
      (use that in \<open>simp_all add: BCH_POLY_RA_def eval_simps\<close>)
qed simp

lemma no_sum_hdr: "no_sum 1 (map unat (tl (xpowers BCH_POLY_HDR 1 7))) 1"
  unfolding BCH_POLY_HDR_def One_nat_def by (simp add: distance_eval)

interpretation hdr: single_error_code BCH_POLY_HDR 7 16
proof unfold_locales
  show "BCH_POLY_HDR \<noteq> 0" by (simp add: BCH_POLY_HDR_def)
  show "(16 :: nat) = 2 ^ poly_deg BCH_POLY_HDR" by (simp add: BCH_POLY_HDR_def eval_simps)
  show "gf2_remainder BCH_POLY_HDR e \<noteq> 0" if "e < 2 ^ 7" "e \<noteq> 0" "weight e \<le> 2" for e
    by (rule minimum_distance [OF _ _ _ _ _ no_sum_hdr])
      (use that in \<open>simp_all add: BCH_POLY_HDR_def eval_simps\<close>)
qed simp

subsection \<open>Bit lists and their values\<close>

lemma uint_to_bits_split:
  "uint_to_bits v (m + n) = uint_to_bits (drop_bit n v) m @ uint_to_bits v n"
proof (induction n arbitrary: v)
  case (Suc n)
  show ?case using Suc [of "drop_bit 1 v"] by (simp add: drop_bit_drop_bit add.commute)
qed simp

lemma uint_to_bits_mask: "uint_to_bits (v AND mask n) n = uint_to_bits v n"
  by (rule nth_equalityI) (auto simp: nth_uint_to_bits bit_and_iff bit_mask_iff dest: bit_imp_le_length)

lemma bit_below: "v < 2 ^ n \<Longrightarrow> n < 32 \<Longrightarrow> bit v j \<Longrightarrow> j < n" for v :: u32
  using word_less_exp_iff [of n v] by (cases "j < n") auto

lemma take_bit_below: "v < 2 ^ n \<Longrightarrow> n < 32 \<Longrightarrow> take_bit n v = v" for v :: u32
  by (rule bit_word_eqI) (auto simp: bit_take_bit_iff dest: bit_below)

lemma codeword_bits_split:
  "uint_to_bits (drop_bit 10 c) BCH_RA_DATA @ uint_to_bits (c AND 0x3FF) 10 = uint_to_bits c 31"
proof -
  have m: "(0x3FF :: u32) = mask 10" by (simp add: mask_eq_exp_minus_1)
  show ?thesis unfolding m uint_to_bits_mask using uint_to_bits_split [of c 21 10]
    by (simp add: BCH_RA_DATA_def)
qed

lemma sum_uint_to_bits:
  "sum_list (map uint (uint_to_bits v n)) = int (card {i. i < n \<and> bit v i})"
proof (induction n arbitrary: v)
  case (Suc n)
  have "{i. i < Suc n \<and> bit v i} = (if bit v 0 then {0} else {}) \<union> Suc ` {i. i < n \<and> bit v (Suc i)}"
    by (auto simp: image_iff) (metis not0_implies_Suc Suc_less_eq)+
  moreover have "card (Suc ` {i. i < n \<and> bit v (Suc i)}) = card {i. i < n \<and> bit (drop_bit 1 v) i}"
    by (simp add: card_image bit_drop_bit_eq)
  moreover have "uint (ucast (v AND 1) :: u8) = of_bool (bit v 0)"
    by (cases "even v") (simp_all add: and_one_eq bit_0 even_iff_mod_2_eq_zero [THEN iffD1] odd_iff_mod_2_eq_one [THEN iffD1])
  ultimately show ?case using Suc [of "drop_bit 1 v"] by auto
qed simp

lemma sum_uint_to_bits_weight: "c < 2 ^ n \<Longrightarrow> n < 32 \<Longrightarrow> sum_list (map uint (uint_to_bits c n)) = int (weight c)"
  unfolding sum_uint_to_bits weight_card
  by (intro arg_cong [where f = "\<lambda>S. int (card S)"]) (auto simp: word_less_exp_iff not_le)

lemma bit_extract_uint:
  assumes "bit_list bs" and "n \<le> length bs"
  shows "bit (extract_uint bs n) j \<longleftrightarrow> j < n \<and> odd (bs ! (n - Suc j))"
  using assms(2)
proof (induction n arbitrary: j)
  case 0
  then show ?case by (simp add: extract_uint_def)
next
  case (Suc n)
  have b: "bs ! n = 0 \<or> bs ! n = 1" using assms(1) nth_mem [of n bs] Suc.prems unfolding bit_list_def by fastforce
  have "bit (uint (bs ! n)) j \<longleftrightarrow> j = 0 \<and> odd (bs ! n)" using b by (auto simp: bit_1_iff)
  moreover have "extract_uint bs (Suc n) = push_bit 1 (extract_uint bs n) OR uint (bs ! n)"
    by (simp add: extract_uint_def)
  then have "bit (extract_uint bs (Suc n)) j \<longleftrightarrow>
      1 \<le> j \<and> bit (extract_uint bs n) (j - 1) \<or> bit (uint (bs ! n)) j"
    by (simp only: bit_or_iff bit_push_bit_iff_int)
  ultimately show ?case using Suc.IH [of "j - 1"] Suc.prems by (cases j) simp_all
qed

lemma extract_uint_drop:
  assumes "k + n \<le> m" and "m \<le> 32"
  shows "extract_uint (drop k (uint_to_bits v m)) n = uint (take_bit n (drop_bit (m - k - n) v))"
proof (rule bit_eqI)
  fix j
  have bl: "bit_list (drop k (uint_to_bits v m))"
    using bit_list_uint_to_bits [of v m] by (auto simp: bit_list_def dest: in_set_dropD)
  have "bit (extract_uint (drop k (uint_to_bits v m)) n) j \<longleftrightarrow>
      j < n \<and> bit v (m - k - n + j)"
    using assms by (auto simp: bit_extract_uint [OF bl] nth_uint_to_bits split: if_splits)
  then show "bit (extract_uint (drop k (uint_to_bits v m)) n) j \<longleftrightarrow>
      bit (uint (take_bit n (drop_bit (m - k - n) v))) j"
    by (auto simp: bit_uint_iff bit_take_bit_iff bit_drop_bit_eq dest: bit_imp_le_length)
qed

lemma extract_uint_append: "n \<le> length xs \<Longrightarrow> extract_uint (xs @ ys) n = extract_uint xs n"
  unfolding extract_uint_def by (rule fold_cong) (auto simp: nth_append)

subsection \<open>Block decoding\<close>

lemma chase_bch_decode_p_alt:
  "chase_bch_decode_p t block l =
     map_option (\<lambda>(k, c). (k, uint_to_bits (drop_bit 10 c) BCH_RA_DATA, uint_to_bits (c AND 0x3FF) 10))
       (syndrome_decode BCH_POLY_RA 1024 (syn_ra t) (bits_to_uint block 31))"
  by (simp add: chase_bch_decode_p_def syndrome_decode_def Let_def)

lemma check_parity32_alt:
  assumes "length d = n" and "length c = m"
  shows "check_parity32 block d n c m \<longleftrightarrow> even (sum_list (map uint (d @ c)) + uint (block ! 31))"
proof -
  have "fold (\<lambda>i s. s + uint (xs ! i)) [0..<length xs] a = a + sum_list (map uint xs)" for xs :: "u8 list" and a
  proof -
    have "fold (\<lambda>x s. s + uint x) xs a = a + sum_list (map uint xs)" by (induction xs arbitrary: a) simp_all
    then show ?thesis using fold_nth_take [of "length xs" xs "\<lambda>x s. s + uint x" a] by simp
  qed
  from this [of d] this [of c] show ?thesis using assms
    by (simp add: check_parity32_def Let_def even_iff_mod_2_eq_zero add.assoc)
qed

text \<open>The transmitter's side of a block: systematic encoding, an error pattern, the parity bit.\<close>

definition parity_bit :: "u32 \<Rightarrow> u8" where
  "parity_bit c = (if odd (weight c) then 1 else 0)"

definition tx_block :: "u32 \<times> u32 \<Rightarrow> u8 list" where
  "tx_block = (\<lambda>(d, e). uint_to_bits (gf2_encode BCH_POLY_RA d XOR e) 31 @ [parity_bit (gf2_encode BCH_POLY_RA d)])"

definition tx_ok :: "u32 \<times> u32 \<Rightarrow> bool" where
  "tx_ok = (\<lambda>(d, e). d < 2 ^ 21 \<and> e < 2 ^ 31 \<and> weight e \<le> 2)"

lemma length_tx_block [simp]: "length (tx_block b) = 32"
  by (simp add: tx_block_def split: prod.split)

lemma poly_deg_ra: "poly_deg BCH_POLY_RA = 10"
  by (simp add: BCH_POLY_RA_def eval_simps)

lemma gf2_encode_less:
  assumes "poly \<noteq> 0" and "d < 2 ^ k" and "k + poly_deg poly < 32"
  shows "gf2_encode poly d < 2 ^ (k + poly_deg poly)"
proof -
  have "\<not> bit d j" if "k \<le> j" for j using assms(2,3) that by (simp add: word_less_exp_iff)
  moreover have "\<not> bit (gf2_remainder poly v) j" if "poly_deg poly \<le> j" for v j
    using gf2_remainder_bit [OF assms(1)] that by (metis not_le)
  ultimately show ?thesis using assms(3)
    by (auto simp: word_less_exp_iff gf2_encode_def bit_xor_iff bit_push_bit_iff)
qed

lemma ra_encode_facts:
  assumes "d < 2 ^ 21"
  shows "gf2_encode BCH_POLY_RA d < 2 ^ 31" "gf2_remainder BCH_POLY_RA (gf2_encode BCH_POLY_RA d) = 0"
    "drop_bit 10 (gf2_encode BCH_POLY_RA d) = d"
proof -
  show "gf2_encode BCH_POLY_RA d < 2 ^ 31"
    using gf2_encode_less [OF ra.poly_nonzero assms] by (simp add: poly_deg_ra)
  show "gf2_remainder BCH_POLY_RA (gf2_encode BCH_POLY_RA d) = 0"
    by (rule gf2_encode_codeword [OF ra.poly_nonzero])
  have "j < 21" if "bit d j" for j using bit_below [OF assms _ that] by simp
  then show "drop_bit 10 (gf2_encode BCH_POLY_RA d) = d"
    using gf2_encode_data [OF ra.poly_nonzero, of d] by (force simp: poly_deg_ra)
qed

lemma bits_to_uint_append: "n \<le> length xs \<Longrightarrow> bits_to_uint (xs @ ys) n = bits_to_uint xs n"
  unfolding bits_to_uint_def by (rule fold_cong) (auto simp: nth_append)

lemma tx_block_decodes:
  assumes "tx_ok (d, e)"
  shows "\<exists>c. chase_bch_decode_p frame_decode_init (tx_block (d, e)) l = Some (int (weight e), uint_to_bits d BCH_RA_DATA, c) \<and>
    check_parity32 (tx_block (d, e)) (uint_to_bits d BCH_RA_DATA) BCH_RA_DATA c 10"
proof -
  let ?c = "gf2_encode BCH_POLY_RA d"
  have d: "d < 2 ^ 21" and e: "e < 2 ^ 31" "weight e \<le> 2" using assms by (auto simp: tx_ok_def)
  note c = ra_encode_facts [OF d]
  have "bits_to_uint (tx_block (d, e)) 31 = ?c XOR e"
    using ra.xor_less [OF c(1) e(1)]
    by (simp add: tx_block_def bits_to_uint_append bits_to_uint_uint_to_bits take_bit_below del: take_bit_xor)
  then have dec: "chase_bch_decode_p frame_decode_init (tx_block (d, e)) l =
      Some (int (weight e), uint_to_bits d BCH_RA_DATA, uint_to_bits (?c AND 0x3FF) 10)"
    using ra.syndrome_decode_corrects2 [OF c(2) e, of 2 10]
    by (simp add: chase_bch_decode_p_alt frame_decode_init_def c(3))
  have "sum_list (map uint (uint_to_bits d BCH_RA_DATA @ uint_to_bits (?c AND 0x3FF) 10)) = int (weight ?c)"
    using codeword_bits_split [of ?c] sum_uint_to_bits_weight [OF c(1)] by (simp only: c(3))
  moreover have "uint (tx_block (d, e) ! 31) = of_bool (odd (weight ?c))"
    by (simp add: tx_block_def nth_append parity_bit_def)
  ultimately have "check_parity32 (tx_block (d, e)) (uint_to_bits d BCH_RA_DATA) BCH_RA_DATA (uint_to_bits (?c AND 0x3FF) 10) 10"
    by (simp add: check_parity32_alt)
  with dec show ?thesis by blast
qed

subsection \<open>Blocks in sequence\<close>

type_synonym tx_word = "u32 \<times> u32"

definition tx_pair :: "tx_word \<times> tx_word \<Rightarrow> u8 list" where
  "tx_pair = (\<lambda>(b1, b2). interleave_n 32 (tx_block b1) (tx_block b2))"

definition pair_data :: "tx_word \<times> tx_word \<Rightarrow> u8 list" where
  "pair_data = (\<lambda>(b1, b2). uint_to_bits (fst b1) BCH_RA_DATA @ uint_to_bits (fst b2) BCH_RA_DATA)"

definition pair_ok :: "tx_word \<times> tx_word \<Rightarrow> bool" where
  "pair_ok = (\<lambda>(b1, b2). tx_ok b1 \<and> tx_ok b2)"

lemma length_tx_pair [simp]: "length (tx_pair p) = 64"
  by (simp add: tx_pair_def split: prod.split)

lemma length_pair_data [simp]: "length (pair_data p) = 42"
  by (simp add: pair_data_def BCH_RA_DATA_def split: prod.split)

lemma length_concat_const:
  "(\<And>x. x \<in> set xs \<Longrightarrow> length (f x) = k) \<Longrightarrow> length (concat (map f xs)) = k * length xs"
  by (induction xs) simp_all

lemma decode_pair_tx:
  assumes "pair_ok p"
  shows "decode_pair frame_decode_init (tx_pair p @ rest) l = Some (pair_data p)"
proof -
  obtain d1 e1 d2 e2 where p: "p = ((d1, e1), (d2, e2))" by (metis prod.exhaust)
  have ok: "tx_ok (d1, e1)" "tx_ok (d2, e2)" using assms by (simp_all add: p pair_ok_def)
  have "de_interleave (tx_pair p @ rest) = (tx_block (d1, e1), tx_block (d2, e2))"
    by (simp add: de_interleave_append) (simp add: p tx_pair_def de_interleave_interleave)
  then show ?thesis
    using tx_block_decodes [OF ok(1), of "map_option fst (map_option de_interleave_llr l)"]
      tx_block_decodes [OF ok(2), of "map_option snd (map_option de_interleave_llr l)"]
    by (auto simp: decode_pair_def p pair_data_def)
qed

lemma decode_blocks_tx:
  assumes "\<forall>p\<in>set ps. pair_ok p"
    and "int (length pre + 64 * length ps) \<le> limit" "limit < int (length pre + 64 * length ps) + 64"
    and "int (length stream + 42 * length ps) \<le> bufsize"
  shows "decode_blocks frame_decode_init (pre @ concat (map tx_pair ps) @ rest) l limit bufsize
           (int (length pre)) stream = stream @ concat (map pair_data ps)"
  using assms
proof (induction ps arbitrary: pre stream)
  case Nil
  then show ?case by (subst decode_blocks.simps) simp
next
  case (Cons p ps)
  have "decode_blocks frame_decode_init ((pre @ tx_pair p) @ concat (map tx_pair ps) @ rest) l limit bufsize
      (int (length (pre @ tx_pair p))) (stream @ pair_data p) =
      (stream @ pair_data p) @ concat (map pair_data ps)"
    by (rule Cons.IH) (use Cons.prems in auto)
  then show ?case
    using Cons.prems decode_pair_tx [of p "concat (map tx_pair ps) @ rest" "map_option (drop (length pre)) l"]
    by (subst decode_blocks.simps) (simp add: BCH_RA_DATA_def add.commute)
qed

lemma decode_pair_length:
  assumes "decode_pair t data l = Some d"
  shows "length d = 42"
  using assms
  by (auto simp: decode_pair_def chase_bch_decode_p_alt BCH_RA_DATA_def split: prod.splits option.splits if_splits)

lemma decode_blocks_length:
  assumes "int (length stream) \<le> bufsize"
  shows "length stream \<le> length (decode_blocks t data l limit bufsize off stream) \<and>
    int (length (decode_blocks t data l limit bufsize off stream)) \<le> bufsize"
  using assms
proof (induction t data l limit bufsize off stream rule: decode_blocks.induct)
  case (1 t data l limit bufsize off stream)
  show ?case
  proof (cases "off + 64 \<le> limit \<and> int (length stream) + 2 * int BCH_RA_DATA \<le> bufsize")
    case True
    show ?thesis
    proof (cases "decode_pair t (drop (nat off) data) (map_option (drop (nat off)) l)")
      case (Some d)
      with decode_pair_length have d: "length d = 42" by blast
      with "1.IH" [OF True Some] True Some show ?thesis
        by (subst (1 2) decode_blocks.simps) (auto simp: BCH_RA_DATA_def)
    qed (use "1.prems" True in \<open>subst (1 2) decode_blocks.simps, simp\<close>)
  qed (use "1.prems" in \<open>subst (1 2) decode_blocks.simps, simp add: if_not_P\<close>)
qed

subsection \<open>IBC frames\<close>

text \<open>
  A broadcast frame on the air: access code, a header codeword with at most one error, and
  interleaved pairs of data blocks.
\<close>

definition access_code :: "ir_direction \<Rightarrow> u8 list" where
  "access_code d = (if d = DIR_UPLINK then access_ul else access_dl)"

definition tx_ibc :: "ir_direction \<Rightarrow> u32 \<Rightarrow> u32 \<Rightarrow> (tx_word \<times> tx_word) list \<Rightarrow> u8 list" where
  "tx_ibc d hdr he ps = access_code d @ uint_to_bits (hdr XOR he) 6 @ concat (map tx_pair ps)"

definition hdr_ok :: "u32 \<Rightarrow> u32 \<Rightarrow> bool" where
  "hdr_ok hdr he \<longleftrightarrow> hdr < 2 ^ 6 \<and> he < 2 ^ 6 \<and> weight he \<le> 1 \<and> gf2_remainder BCH_POLY_HDR hdr = 0"

lemma length_access_code [simp]: "length (access_code d) = 24"
  by (simp add: access_code_def access_dl_def access_ul_def)

lemma ibc_header_alt:
  "ibc_header t data = map_option snd (syndrome_decode BCH_POLY_HDR 16 (syn_hdr t) (bits_to_uint data 6))"
  by (simp add: ibc_header_def syndrome_decode_def Let_def)

lemma ibc_header_tx:
  assumes "hdr_ok hdr he"
  shows "ibc_header frame_decode_init (uint_to_bits (hdr XOR he) 6 @ rest) = Some hdr"
proof -
  have h: "hdr < 2 ^ 6" "he < 2 ^ 6" "weight he \<le> 1" "gf2_remainder BCH_POLY_HDR hdr = 0"
    using assms by (auto simp: hdr_ok_def)
  have "hdr XOR he < 2 ^ 6" using h(1,2) by (auto simp: word_less_exp_iff bit_xor_iff simp del: power_numeral)
  then have "bits_to_uint (uint_to_bits (hdr XOR he) 6 @ rest) 6 = hdr XOR he"
    by (simp add: bits_to_uint_append bits_to_uint_uint_to_bits take_bit_below del: take_bit_xor)
  moreover have "he < 2 ^ 7" using h(2) by (rule order.strict_trans) simp
  ultimately show ?thesis using hdr.syndrome_decode_corrects1 [OF h(4) _ h(3)]
    by (simp add: ibc_header_alt frame_decode_init_def)
qed

lemma try_ibc_tx:
  assumes "hdr_ok hdr he" and "\<forall>p\<in>set (p # ps). pair_ok p" and "length ps \<le> 3"
  defines "stream \<equiv> concat (map pair_data (p # ps))"
  shows "try_ibc frame_decode_init (uint_to_bits (hdr XOR he) 6 @ concat (map tx_pair (p # ps))) l
      (int (6 + 64 * length (p # ps))) =
    (let ibc = parse_ibc stream (int (length stream)) (extract_uint (uint_to_bits (drop_bit 4 hdr) 3) 3)
     in Some (ibc_beam_id ibc \<in> {1..48}, ibc))"
proof -
  let ?pre = "uint_to_bits (hdr XOR he) 6 @ tx_pair p"
  have "decode_blocks frame_decode_init (?pre @ concat (map tx_pair ps) @ []) l
      (int (6 + 64 * length (p # ps))) 256 (int (length ?pre)) (pair_data p) = stream"
    unfolding stream_def using assms(2,3) by (subst decode_blocks_tx) simp_all
  moreover have "decode_pair frame_decode_init (tx_pair p @ concat (map tx_pair ps)) l' = Some (pair_data p)" for l'
    using assms(2) by (intro decode_pair_tx) simp
  ultimately show ?thesis using assms(3)
    by (cases "length ps = 3") (simp_all add: try_ibc_def ibc_header_tx [OF assms(1)] Let_def not_less)
qed

lemma frame_decode_ibc_tx:
  assumes "hdr_ok hdr he" and "\<forall>p\<in>set (p # ps). pair_ok p" and "length ps \<le> 3"
    and "fr_bits f = tx_ibc d hdr he (p # ps)" and "fr_n_bits f = int (length (fr_bits f))"
  defines "stream \<equiv> concat (map pair_data (p # ps))"
  shows "frame_decode frame_decode_init f =
    (let ibc = parse_ibc stream (int (length stream)) (extract_uint (uint_to_bits (drop_bit 4 hdr) 3) 3)
     in (ibc_beam_id ibc \<in> {1..48},
         \<lparr>df_type = FRAME_IBC, df_timestamp = fr_timestamp f, df_frequency = fr_center_frequency f,
          df_payload = Ibc ibc\<rparr>))"
proof -
  have n: "fr_n_bits f = 24 + int (6 + 64 * length (p # ps))"
    using assms(4,5) by (simp add: tx_ibc_def length_concat_const)
  have "take 24 (fr_bits f) = access_code d" "drop 24 (fr_bits f) = uint_to_bits (hdr XOR he) 6 @ concat (map tx_pair (p # ps))"
    by (simp_all add: assms(4) tx_ibc_def)
  then show ?thesis
    using try_ibc_tx [OF assms(1-3), of "map_option (drop 24) (fr_llr f)"] n
    by (simp add: frame_decode_def Let_def stream_def access_code_def)
qed

subsection \<open>Fields\<close>

lemma bit_list_append [simp]: "bit_list (xs @ ys) \<longleftrightarrow> bit_list xs \<and> bit_list ys"
  by (auto simp: bit_list_def)

lemma bit_list_concat: "(\<And>x. x \<in> set xs \<Longrightarrow> bit_list x) \<Longrightarrow> bit_list (concat xs)"
  by (auto simp: bit_list_def)

lemma bit_list_pair_data [simp]: "bit_list (pair_data p)"
  by (simp add: pair_data_def split: prod.split)

lemma fold_bits_u32:
  assumes "bit_list bs" and "m + n \<le> length bs"
  shows "fold (\<lambda>i t. push_bit 1 t OR ucast (bs ! i)) [m..<m + n] (0 :: u32) = bits_to_uint (drop m bs) n"
  using assms(2)
proof (induction n)
  case (Suc n)
  have "bs ! (m + n) AND 1 = bs ! (m + n)"
    using assms(1) nth_mem [of "m + n" bs] Suc.prems unfolding bit_list_def by fastforce
  then show ?case using Suc by (simp add: bits_to_uint_Suc)
qed simp

lemma parse_ibc_fields:
  fixes rest :: "u8 list" and ty :: int
  assumes "p = ((d1, e1), (d2, e2))"
  defines "stream \<equiv> pair_data p @ rest"
  defines "ibc \<equiv> parse_ibc stream (int (length stream)) ty"
  shows "ibc_bc_type ibc = ty" "ibc_sat_id ibc = uint (take_bit 7 (drop_bit 14 d1))"
    "ibc_beam_id ibc = uint (take_bit 6 (drop_bit 8 d1))"
    "ibc_timeslot ibc = of_bool (bit d1 6)" "ibc_sv_blocking ibc = of_bool (bit d1 5)"
proof -
  have s: "stream = uint_to_bits d1 21 @ uint_to_bits d2 21 @ rest"
    by (simp add: stream_def assms(1) pair_data_def BCH_RA_DATA_def)
  have l: "\<not> int (length stream) < 42" by (simp add: s)
  show "ibc_bc_type ibc = ty" using l by (simp add: ibc_def parse_ibc_def Let_def)
  have "extract_uint stream 7 = uint (take_bit 7 (drop_bit 14 d1))"
    using extract_uint_drop [of 0 7 21 d1] by (simp add: s extract_uint_append)
  then show "ibc_sat_id ibc = uint (take_bit 7 (drop_bit 14 d1))"
    using l by (simp add: ibc_def parse_ibc_def Let_def)
  have "extract_uint (drop 7 stream) 6 = uint (take_bit 6 (drop_bit 8 d1))"
    using extract_uint_drop [of 7 6 21 d1] by (simp add: s extract_uint_append)
  then show "ibc_beam_id ibc = uint (take_bit 6 (drop_bit 8 d1))"
    using l by (simp add: ibc_def parse_ibc_def Let_def)
  have "stream ! 14 = of_bool (bit d1 6)" "stream ! 15 = of_bool (bit d1 5)"
    by (simp_all add: s nth_append nth_uint_to_bits)
  then show "ibc_timeslot ibc = of_bool (bit d1 6)" "ibc_sv_blocking ibc = of_bool (bit d1 5)"
    using l by (simp_all add: ibc_def parse_ibc_def Let_def)
qed

lemma parse_ibc_time:
  fixes ty :: int
  assumes "p = ((d1, e1), (d2, e2))" and "q = ((d3, e3), (d4, e4))" and "d3 < 2 ^ 21" "d4 < 2 ^ 21"
    and "bit_list rest"
  defines "stream \<equiv> pair_data p @ pair_data q @ rest"
  defines "ibc \<equiv> parse_ibc stream (int (length stream)) ty"
  shows "ibc_iri_time ibc = (if drop_bit 15 d3 = 1 then push_bit 21 d3 OR d4 else 0)"
proof -
  have s: "drop 42 stream = uint_to_bits d3 21 @ uint_to_bits d4 21 @ rest"
    and s': "drop 52 stream = drop 10 (uint_to_bits d3 21) @ uint_to_bits d4 21 @ rest"
    by (simp_all add: stream_def assms(1,2) pair_data_def BCH_RA_DATA_def)
  have len: "84 \<le> length stream" and bl: "bit_list stream"
    by (simp_all add: stream_def assms(5))
  have "extract_uint (drop 42 stream) 6 = uint (take_bit 6 (drop_bit 15 d3))"
    using extract_uint_drop [of 0 6 21 d3] by (simp add: s extract_uint_append)
  also have "take_bit 6 (drop_bit 15 d3) = drop_bit 15 d3"
    by (rule bit_word_eqI) (use bit_below [OF assms(3)] in \<open>force simp: bit_take_bit_iff bit_drop_bit_eq\<close>)
  finally have ty: "extract_uint (drop 42 stream) 6 = uint (drop_bit 15 d3)" .
  have "fold (\<lambda>i t. push_bit 1 t OR ucast (stream ! i)) [52..<84] (0 :: u32) = bits_to_uint (drop 52 stream) 32"
    using fold_bits_u32 [OF bl, of 52 32] len by simp
  also have "\<dots> = push_bit 21 d3 OR d4"
  proof (rule bit_word_eqI)
    fix j assume "j < LENGTH(32)"
    then have j: "j < 32" by simp
    show "bit (bits_to_uint (drop 52 stream) 32) j = bit (push_bit 21 d3 OR d4) j"
    proof (cases "j < 21")
      case True
      then have "\<not> 31 - j < 11" "31 - j - 11 = 20 - j" "20 - j < 21" "20 - (20 - j) = j" by linarith+
      then have "drop 52 stream ! (31 - j) = of_bool (bit d4 j)"
        by (simp add: s' nth_append nth_uint_to_bits del: diff_diff_cancel)
      then show ?thesis using True j by (auto simp: bit_bits_to_uint bit_or_iff bit_push_bit_iff)
    next
      case False
      then have "drop 52 stream ! (31 - j) = of_bool (bit d3 (j - 21))"
        using j by (simp add: s' nth_append nth_uint_to_bits) (auto intro: arg_cong2 [where f = bit])
      then show ?thesis using False j bit_below [OF assms(4), of j]
        by (auto simp: bit_bits_to_uint bit_or_iff bit_push_bit_iff)
    qed
  qed
  finally show ?thesis using len ty
    by (simp add: ibc_def parse_ibc_def ibc_zero_def Let_def word_uint_eq_iff)
qed

subsection \<open>IRA frames\<close>

definition tx_ira :: "ir_direction \<Rightarrow> tx_word \<Rightarrow> tx_word \<Rightarrow> tx_word \<Rightarrow> (tx_word \<times> tx_word) list \<Rightarrow> u8 list" where
  "tx_ira d b1 b2 b3 ps =
     access_code d @ interleave3 (tx_block b1) (tx_block b2) (tx_block b3) @ concat (map tx_pair ps)"

definition ira_stream :: "tx_word \<Rightarrow> tx_word \<Rightarrow> tx_word \<Rightarrow> (tx_word \<times> tx_word) list \<Rightarrow> u8 list" where
  "ira_stream b1 b2 b3 ps =
     (uint_to_bits (fst b1) BCH_RA_DATA @ uint_to_bits (fst b2) BCH_RA_DATA @ uint_to_bits (fst b3) BCH_RA_DATA) @
     concat (map pair_data ps)"

lemma decode_triple_tx:
  assumes "tx_ok b1" "tx_ok b2" "tx_ok b3"
  shows "decode_triple frame_decode_init (interleave3 (tx_block b1) (tx_block b2) (tx_block b3) @ rest) l =
    Some (uint_to_bits (fst b1) BCH_RA_DATA @ uint_to_bits (fst b2) BCH_RA_DATA @ uint_to_bits (fst b3) BCH_RA_DATA)"
proof -
  obtain d1 e1 d2 e2 d3 e3 where b: "b1 = (d1, e1)" "b2 = (d2, e2)" "b3 = (d3, e3)" by (metis prod.exhaust)
  let ?l = "map_option de_interleave3 l"
  show ?thesis
    using tx_block_decodes [OF assms(1) [unfolded b], of "map_option fst ?l"]
      tx_block_decodes [OF assms(2) [unfolded b], of "map_option (fst \<circ> snd) ?l"]
      tx_block_decodes [OF assms(3) [unfolded b], of "map_option (snd \<circ> snd) ?l"]
    by (auto simp: decode_triple_def de_interleave3_append de_interleave3_interleave b)
qed

lemma frame_decode_ira_tx:
  assumes "tx_ok b1" "tx_ok b2" "tx_ok b3" and "\<forall>p\<in>set ps. pair_ok p" and "length ps \<le> 10"
    and "fr_bits f = tx_ira d b1 b2 b3 ps" and "fr_n_bits f = int (length (fr_bits f))"
    and "try_ibc frame_decode_init (drop 24 (fr_bits f)) (map_option (drop 24) (fr_llr f)) (fr_n_bits f - 24) = None"
  defines "stream \<equiv> ira_stream b1 b2 b3 ps"
  shows "frame_decode frame_decode_init f =
    (let ira = parse_ira stream (int (length stream))
     in (ira_beam_id ira \<in> {1..48},
         \<lparr>df_type = FRAME_IRA, df_timestamp = fr_timestamp f, df_frequency = fr_center_frequency f,
          df_payload = Ira ira\<rparr>))"
proof -
  let ?pre = "interleave3 (tx_block b1) (tx_block b2) (tx_block b3)"
  have n: "fr_n_bits f = 24 + int (96 + 64 * length ps)"
    using assms(6,7) by (simp add: tx_ira_def length_concat_const)
  have bits: "take 24 (fr_bits f) = access_code d" "drop 24 (fr_bits f) = ?pre @ concat (map tx_pair ps)"
    by (simp_all add: assms(6) tx_ira_def)
  let ?d = "uint_to_bits (fst b1) BCH_RA_DATA @ uint_to_bits (fst b2) BCH_RA_DATA @ uint_to_bits (fst b3) BCH_RA_DATA"
  have "decode_blocks frame_decode_init (?pre @ concat (map tx_pair ps) @ []) l
      (int (96 + 64 * length ps)) 512 (int (length ?pre)) ?d = stream" for l
    unfolding stream_def ira_stream_def using assms(4,5)
    by (subst decode_blocks_tx) (simp_all add: BCH_RA_DATA_def)
  then have "try_ira frame_decode_init (drop 24 (fr_bits f)) l (int (96 + 64 * length ps)) =
      (let ira = parse_ira stream (int (length stream)) in Some (ira_beam_id ira \<in> {1..48}, ira))" for l
    by (simp add: try_ira_def bits decode_triple_tx [OF assms(1-3)] Let_def not_less)
  then show ?thesis using assms(8) bits n
    by (simp add: frame_decode_def Let_def access_code_def)
qed

subsection \<open>Paging blocks\<close>

lemma parse_pages_spec:
  assumes "0 \<le> off"
  shows "parse_pages d n off pages =
    pages @ map parse_page (takeWhile (\<lambda>pg. \<not> all_ones pg)
      (map (\<lambda>k. drop (nat off + 42 * k) d) [0..<min (12 - length pages) (nat ((n - off) div 42))]))"
  using assms
proof (induction d n off pages rule: parse_pages.induct)
  case (1 d n off pages)
  let ?m = "\<lambda>off pages. min (12 - length pages) (nat ((n - off) div 42))"
  let ?c = "\<lambda>off m. map (\<lambda>k. drop (nat off + 42 * k) d) [0..<m]"
  show ?case
  proof (cases "off + 42 \<le> n \<and> length pages < 12")
    case True
    define m where "m = ?m (off + 42) (pages @ [parse_page (drop (nat off) d)])"
    have q: "(n - (off + 42)) div 42 = (n - off) div 42 - 1" "0 < (n - off) div 42" using True by auto
    have "nat d = Suc (nat (d - 1))" if "0 < d" for d using that by linarith
    moreover have "12 - length pages = Suc (12 - Suc (length pages))" using True by (intro Suc_diff_Suc [symmetric]) simp
    ultimately have "nat ((n - off) div 42) = Suc (nat ((n - off) div 42 - 1))"
      "12 - length pages = Suc (12 - Suc (length pages))" using q(2) by blast+
    then have m: "?m off pages = Suc m" by (simp add: m_def q(1))
    have c: "?c off (Suc m) = drop (nat off) d # ?c (off + 42) m"
      using "1.prems" by (simp add: upt_conv_Cons map_Suc_upt [symmetric] comp_def nat_add_distrib add.assoc del: upt_Suc)
    show ?thesis unfolding m c using True "1.prems" "1.IH" [OF True refl]
      by (subst parse_pages.simps) (simp add: Let_def m_def)
  next
    case False
    then have "?m off pages = 0" by (auto simp: min_def)
    then show ?thesis using False by (subst parse_pages.simps) auto
  qed
qed

subsection \<open>Reads stay inside the buffers\<close>

lemma decode_pair_llr: "decode_pair t data l = decode_pair t data l'"
  by (simp add: decode_pair_def chase_bch_decode_p_alt)

lemma decode_triple_llr: "decode_triple t data l = decode_triple t data l'"
  by (simp add: decode_triple_def chase_bch_decode_p_alt)

lemma decode_pair_append: "64 \<le> length data \<Longrightarrow> decode_pair t (data @ junk) l = decode_pair t data l'"
  by (subst decode_pair_llr [of _ data l' l]) (simp add: decode_pair_def de_interleave_append)

lemma decode_triple_append: "96 \<le> length data \<Longrightarrow> decode_triple t (data @ junk) l = decode_triple t data l'"
  by (subst decode_triple_llr [of _ data l' l]) (simp add: decode_triple_def de_interleave3_append)

lemma decode_blocks_append:
  assumes "0 \<le> off" and "limit \<le> int (length data)"
  shows "decode_blocks t (data @ junk) l limit bufsize off stream = decode_blocks t data l' limit bufsize off stream"
  using assms
proof (induction t data l' limit bufsize off stream rule: decode_blocks.induct)
  case (1 t data l' limit bufsize off stream)
  show ?case
  proof (cases "off + 64 \<le> limit \<and> int (length stream) + 2 * int BCH_RA_DATA \<le> bufsize")
    case True
    have e: "decode_pair t (drop (nat off) (data @ junk)) (map_option (drop (nat off)) l) =
        decode_pair t (drop (nat off) data) (map_option (drop (nat off)) l')"
    proof -
      have "nat off \<le> length data" "64 \<le> length (drop (nat off) data)" using True "1.prems" by auto
      then show ?thesis using decode_pair_append by simp
    qed
    show ?thesis
    proof (cases "decode_pair t (drop (nat off) data) (map_option (drop (nat off)) l')")
      case None
      then show ?thesis using True e by (subst (1 2) decode_blocks.simps) simp
    next
      case (Some d)
      have "decode_blocks t (data @ junk) l limit bufsize (off + 64) (stream @ d) =
          decode_blocks t data l' limit bufsize (off + 64) (stream @ d)"
        using "1.IH" [OF True Some] "1.prems" by simp
      then show ?thesis using True Some e by (subst (1 2) decode_blocks.simps) simp
    qed
  next
    case False
    then show ?thesis by (subst (1 2) decode_blocks.simps) auto
  qed
qed

lemma ibc_header_append: "6 \<le> length data \<Longrightarrow> ibc_header t (data @ junk) = ibc_header t data"
  by (simp add: ibc_header_def bits_to_uint_append)

lemma try_ibc_append:
  assumes "n = int (length data)"
  shows "try_ibc t (data @ junk) l n = try_ibc t data l' n"
proof (cases "6 + 64 \<le> n")
  case True
  then have "decode_pair t (drop 6 data @ drop (6 - length data) junk) (map_option (drop 6) l) =
      decode_pair t (drop 6 data) (map_option (drop 6) l')"
    using assms by (intro decode_pair_append) simp
  with True assms show ?thesis
    by (simp add: try_ibc_def ibc_header_append decode_blocks_append [where junk = junk and l = l and l' = l'] Let_def
        split: option.split)
qed (simp add: try_ibc_def)

lemma try_ira_append:
  assumes "n = int (length data)"
  shows "try_ira t (data @ junk) l n = try_ira t data l' n"
proof (cases "96 \<le> n")
  case True
  then show ?thesis using assms
    by (simp add: try_ira_def decode_triple_append [where l = l and l' = l']
        decode_blocks_append [where junk = junk and l = l and l' = l'] Let_def split: option.split)
qed (simp add: try_ira_def)

lemma frame_decode_append:
  assumes "fr_n_bits f = int (length (fr_bits f))"
  shows "frame_decode t (f\<lparr>fr_bits := fr_bits f @ junk, fr_llr := l\<rparr>) = frame_decode t f"
proof (cases "24 \<le> length (fr_bits f)")
  case True
  then have n: "fr_n_bits f - 24 = int (length (drop 24 (fr_bits f)))" using assms by simp
  let ?f = "f\<lparr>fr_bits := fr_bits f @ junk, fr_llr := l\<rparr>"
  have f: "fr_bits ?f = fr_bits f @ junk" "fr_n_bits ?f = fr_n_bits f" "fr_timestamp ?f = fr_timestamp f"
    "fr_center_frequency ?f = fr_center_frequency f" by simp_all
  have d: "drop 24 (fr_bits f @ junk) = drop 24 (fr_bits f) @ junk" "take 24 (fr_bits f @ junk) = take 24 (fr_bits f)"
    using True by simp_all
  show ?thesis unfolding frame_decode_def f d Let_def
    try_ibc_append [OF n, of t junk _ "map_option (drop 24) (fr_llr f)"]
    try_ira_append [OF n, of t junk _ "map_option (drop 24) (fr_llr f)"] ..
qed (use assms in \<open>simp add: frame_decode_def\<close>)

lemma parse_ibc_append:
  assumes "n = int (length stream)"
  shows "parse_ibc (stream @ junk) n ty = parse_ibc stream n ty"
proof (cases "n < 42")
  case False
  then have l: "42 \<le> length stream" using assms by simp
  have f: "fold (\<lambda>i t. push_bit 1 t OR ucast ((stream @ junk) ! i)) [52..<84] (0 :: u32) =
      fold (\<lambda>i t. push_bit 1 t OR ucast (stream ! i)) [52..<84] 0" if "84 \<le> n"
    by (rule fold_cong) (use that assms in \<open>auto simp: nth_append\<close>)
  have "extract_uint (drop 42 stream @ junk) 6 = extract_uint (drop 42 stream) 6" if "84 \<le> n"
    using that assms by (intro extract_uint_append) simp
  then have t: "84 \<le> n \<and> extract_uint (drop 42 (stream @ junk)) 6 = 1 \<longleftrightarrow>
      84 \<le> n \<and> extract_uint (drop 42 stream) 6 = 1" using l by auto
  have r: "extract_uint (stream @ junk) 7 = extract_uint stream 7"
    "extract_uint (drop 7 (stream @ junk)) 6 = extract_uint (drop 7 stream) 6"
    "(stream @ junk) ! 14 = stream ! 14" "(stream @ junk) ! 15 = stream ! 15"
    using l by (simp_all add: extract_uint_append nth_append)
  show ?thesis
  proof (cases "84 \<le> n")
    case True
    show ?thesis unfolding parse_ibc_def r t f [OF True] ..
  next
    case F: False
    then show ?thesis unfolding parse_ibc_def r t Let_def by (simp only: simp_thms if_False)
  qed
qed (simp add: parse_ibc_def)

lemma extract_signed12_append:
  assumes "12 \<le> length xs"
  shows "extract_signed12 (xs @ ys) = extract_signed12 xs"
proof -
  have "fold (\<lambda>i mag. push_bit 1 mag OR uint ((xs @ ys) ! i)) [1..<12] (0 :: int) =
      fold (\<lambda>i mag. push_bit 1 mag OR uint (xs ! i)) [1..<12] 0"
    by (rule fold_cong) (use assms in \<open>auto simp: nth_append\<close>)
  moreover have "(xs @ ys) ! 0 = xs ! 0" using assms by (cases xs) simp_all
  ultimately show ?thesis by (simp only: extract_signed12_def)
qed

lemma parse_page_append:
  assumes "42 \<le> length xs"
  shows "all_ones (xs @ ys) = all_ones xs" "parse_page (xs @ ys) = parse_page xs"
proof -
  show "all_ones (xs @ ys) = all_ones xs"
    unfolding all_ones_def using assms by (intro list.pred_cong) (auto simp: nth_append)
  have "fold (\<lambda>i t. push_bit 1 t OR ucast ((xs @ ys) ! i)) [0..<32] (0 :: u32) =
      fold (\<lambda>i t. push_bit 1 t OR ucast (xs ! i)) [0..<32] 0"
    by (rule fold_cong) (use assms in \<open>auto simp: nth_append\<close>)
  then show "parse_page (xs @ ys) = parse_page xs"
    using assms by (simp add: parse_page_def extract_uint_append)
qed

lemma parse_pages_append:
  assumes "0 \<le> off" and "n \<le> int (length stream)"
  shows "parse_pages (stream @ junk) n off pages = parse_pages stream n off pages"
  using assms
proof (induction stream n off pages rule: parse_pages.induct)
  case (1 stream n off pages)
  show ?case
  proof (cases "off + 42 \<le> n \<and> length pages < 12")
    case True
    let ?pg = "drop (nat off) stream"
    have l: "42 \<le> length ?pg" "nat off \<le> length stream" using True "1.prems" by auto
    then have d: "drop (nat off) (stream @ junk) = ?pg @ junk" by simp
    show ?thesis
    proof (cases "all_ones ?pg")
      case all: True
      then show ?thesis using True l by (subst (1 2) parse_pages.simps) (simp add: d parse_page_append)
    next
      case False
      have "parse_pages (stream @ junk) n (off + 42) (pages @ [parse_page ?pg]) =
          parse_pages stream n (off + 42) (pages @ [parse_page ?pg])"
        using "1.IH" [OF True refl False] "1.prems" by simp
      then show ?thesis using True False l
        by (subst (1 2) parse_pages.simps) (simp add: d parse_page_append)
    qed
  next
    case False
    then show ?thesis by (subst (1 2) parse_pages.simps) auto
  qed
qed

lemma parse_ira_append:
  assumes "n = int (length stream)"
  shows "parse_ira (stream @ junk) n = parse_ira stream n"
proof (cases "n < 63")
  case False
  then have l: "63 \<le> length stream" using assms by simp
  have d: "drop k (stream @ junk) = drop k stream @ junk" if "k \<le> 51" for k using l that by simp
  have x: "extract_signed12 (drop k (stream @ junk)) = extract_signed12 (drop k stream)" if "k \<le> 51" for k
    unfolding d [OF that] using l that by (intro extract_signed12_append) simp
  have u: "extract_uint (stream @ junk) 7 = extract_uint stream 7"
    "extract_uint (drop 7 (stream @ junk)) 6 = extract_uint (drop 7 stream) 6"
    using l by (simp_all add: extract_uint_append)
  have p: "parse_pages (stream @ junk) n 63 [] = parse_pages stream n 63 []"
    using assms by (intro parse_pages_append) simp_all
  have k: "13 \<le> (51 :: nat)" "25 \<le> (51 :: nat)" "37 \<le> (51 :: nat)" by simp_all
  show ?thesis unfolding parse_ira_def p u x [OF k(1)] x [OF k(2)] x [OF k(3)] ..
qed (simp add: parse_ira_def)

subsection \<open>What acceptance means\<close>

lemma frame_decode_cases:
  assumes "frame_decode t f = (True, out)"
  obtains ibc where "try_ibc t (drop 24 (fr_bits f)) (map_option (drop 24) (fr_llr f)) (fr_n_bits f - 24) = Some (True, ibc)"
      "df_type out = FRAME_IBC" "df_payload out = Ibc ibc"
  | ira where "try_ira t (drop 24 (fr_bits f)) (map_option (drop 24) (fr_llr f)) (fr_n_bits f - 24) = Some (True, ira)"
      "df_type out = FRAME_IRA" "df_payload out = Ira ira"
  using assms
  by (auto simp: frame_decode_def Let_def split: if_splits option.splits prod.splits)

lemma try_ibc_beam: "try_ibc t data l n = Some (True, ibc) \<Longrightarrow> 70 \<le> n \<and> ibc_beam_id ibc \<in> {1..48}"
  by (auto simp: try_ibc_def Let_def split: if_splits option.splits)

lemma try_ira_beam: "try_ira t data l n = Some (True, ira) \<Longrightarrow> 96 \<le> n \<and> ira_beam_id ira \<in> {1..48}"
  by (auto simp: try_ira_def Let_def split: if_splits option.splits)

lemma chase_bch_decode_p_sound:
  assumes "chase_bch_decode_p frame_decode_init block l = Some (k, d, c)"
  shows "\<exists>w. gf2_remainder BCH_POLY_RA w = 0 \<and> w < 2 ^ 31 \<and> d @ c = uint_to_bits w 31 \<and>
    k = int (weight (bits_to_uint block 31 XOR w)) \<and> k \<le> 2"
proof -
  obtain w where w: "syndrome_decode BCH_POLY_RA 1024 (build_syndrome_table BCH_POLY_RA 31 10 2 1024)
      (bits_to_uint block 31) = Some (k, w)"
    "d = uint_to_bits (drop_bit 10 w) BCH_RA_DATA" "c = uint_to_bits (w AND 0x3FF) 10"
    using assms by (auto simp: chase_bch_decode_p_alt frame_decode_init_def)
  have "bits_to_uint block 31 < 2 ^ 31"
    by (subst word_less_exp_iff) (auto simp: bit_bits_to_uint)
  from ra.syndrome_decode_sound [OF w(1) this] show ?thesis
    by (intro exI [of _ w]) (simp add: w(2,3) codeword_bits_split)
qed

lemma unique_word_bits:
  assumes "d \<in> {DIR_DOWNLINK, DIR_UPLINK}"
  shows "map_symbols_to_bits (decode_dqpsk (unique_word d)) = access_code d"
  using assms
  by (auto simp: map_symbols_to_bits_def decode_dqpsk_def dqpsk_step_def unique_word_def IR_UW_DL_def
      IR_UW_UL_def dqpsk_map_def access_code_def access_dl_def access_ul_def drop_bit_eq_div)

subsection \<open>Properties\<close>

text \<open>
  C4. The BCH(31,21) decoder corrects every error pattern of at most two bits
  in a transmitted block: it returns the data bits that were encoded, reports the exact number of
  errors, and the parity check that follows accepts the block.
\<close>

theorem ra_block_correction:
  assumes "tx_ok (d, e)"
  shows "\<exists>c. chase_bch_decode_p frame_decode_init (tx_block (d, e)) l =
      Some (int (weight e), uint_to_bits d BCH_RA_DATA, c) \<and>
    check_parity32 (tx_block (d, e)) (uint_to_bits d BCH_RA_DATA) BCH_RA_DATA c 10"
  using assms by (rule tx_block_decodes)

lemma weight_5: "weight 5 = 2"
  using weight_double [of 0 2] by simp

theorem ra_block_correction_witness:
  "\<exists>c. chase_bch_decode_p frame_decode_init (tx_block (1234567, 5)) None =
     Some (2, uint_to_bits 1234567 BCH_RA_DATA, c)"
proof -
  have "tx_ok (1234567, 5)" by (simp add: tx_ok_def weight_5)
  from ra_block_correction [OF this, of None] show ?thesis unfolding weight_5 by auto
qed

text \<open>
  C5. The decoder never invents data: whatever 31 bits it is given, when it
  returns a result the data and check bits together are a codeword of the BCH code, and the
  reported error count is the Hamming distance between that codeword and the received bits, at
  most two. The IRA and IBC paths do no soft-decision flipping.
\<close>

theorem ra_block_soundness:
  assumes "chase_bch_decode_p frame_decode_init block l = Some (k, d, c)"
  shows "\<exists>w. gf2_remainder BCH_POLY_RA w = 0 \<and> w < 2 ^ 31 \<and> d @ c = uint_to_bits w 31 \<and>
    k = int (weight (bits_to_uint block 31 XOR w)) \<and> k \<le> 2"
  using assms by (rule chase_bch_decode_p_sound)

lemma decode_zero_block:
  "chase_bch_decode_p frame_decode_init (replicate 32 0) None = Some (0, replicate 21 0, replicate 10 0)"
proof -
  have "bits_to_uint (replicate 32 0) 31 = 0"
    by (rule bit_word_eqI) (simp add: bit_bits_to_uint)
  moreover have "uint_to_bits 0 n = replicate n 0" for n
    by (rule nth_equalityI) (simp_all add: nth_uint_to_bits)
  ultimately show ?thesis by (simp add: chase_bch_decode_p_def BCH_RA_DATA_def)
qed

theorem ra_block_soundness_witness:
  "\<exists>w. gf2_remainder BCH_POLY_RA w = 0 \<and> replicate 21 0 @ replicate 10 0 = uint_to_bits w 31"
  using ra_block_soundness [OF decode_zero_block] by blast


text \<open>The frame of the example: satellite 42, beam 7, one error in a block and one in the header.\<close>

definition ibc_example :: demod_frame where
  "ibc_example = \<lparr>fr_id = 0, fr_timestamp = 5, fr_center_frequency = 1626, fr_direction = DIR_DOWNLINK,
     fr_magnitude = 0, fr_noise = 0, fr_confidence = 100, fr_level = 1, fr_n_symbols = 47,
     fr_n_payload_symbols = 35, fr_bits = tx_ibc DIR_DOWNLINK 29 1 [((689920, 4), (0, 0))],
     fr_llr = None, fr_n_bits = 94\<rparr>"

lemma ibc_example_ok: "hdr_ok 29 1" "pair_ok ((689920, 4), (0, 0))"
proof -
  have "gf2_remainder BCH_POLY_HDR 29 = 0"
    by (simp add: BCH_POLY_HDR_def gf2_remainder_alt gf2_step_alt eval_simps)
  moreover have "weight 1 = 1" "weight 4 = 1" using weight_single [of 0] weight_single [of 2] by simp_all
  ultimately show "hdr_ok 29 1" "pair_ok ((689920, 4), (0, 0))"
    by (simp_all add: hdr_ok_def pair_ok_def tx_ok_def)
qed


subsection \<open>Satellite positions\<close>

lemma fold_shift_or:
  fixes bs :: "u8 list"
  assumes "\<And>i. i \<in> set is \<Longrightarrow> bs ! i \<in> {0, 1}"
  shows "fold (\<lambda>i v. push_bit 1 v OR uint (bs ! i)) is (a :: int) =
    a * 2 ^ length is + fold (\<lambda>i v. push_bit 1 v OR uint (bs ! i)) is 0"
  using assms
proof (induction "is" arbitrary: a)
  case (Cons i "is")
  let ?f = "\<lambda>i v. push_bit 1 v OR uint (bs ! i) :: int"
  have b: "bs ! i = 0 \<or> bs ! i = 1" using Cons.prems by auto
  have s: "push_bit 1 a OR uint (bs ! i) = 2 * a + uint (bs ! i)" for a :: int
    using b by (auto simp: or_one_eq)
  have step: "fold ?f (i # is) c = (2 * c + uint (bs ! i)) * 2 ^ length is + fold ?f is 0" for c
  proof -
    have "fold ?f (i # is) c = fold ?f is (2 * c + uint (bs ! i))" by (simp only: fold_simps s)
    also have "\<dots> = (2 * c + uint (bs ! i)) * 2 ^ length is + fold ?f is 0"
      by (rule Cons.IH) (use Cons.prems in auto)
    finally show ?thesis .
  qed
  show ?case unfolding step by (simp add: algebra_simps)
qed simp

lemma extract_signed12_alt:
  assumes "bit_list bs" and "12 \<le> length bs"
  shows "extract_signed12 bs = signed_take_bit 11 (extract_uint bs 12)"
proof -
  let ?f = "\<lambda>i v. push_bit 1 v OR uint (bs ! i) :: int"
  define m where "m = fold ?f [1..<12] 0"
  have b: "bs ! i \<in> {0, 1}" if "i < 12" for i
  proof -
    have "bs ! i \<in> set bs" using that assms(2) by (intro nth_mem) simp
    then show ?thesis using assms(1) unfolding bit_list_def by blast
  qed
  have "[0..<12] = 0 # [1..<12]" using upt_conv_Cons [of 0 12] by simp
  then have k: "extract_uint bs 12 = uint (bs ! 0) * 2 ^ 11 + m"
    using fold_shift_or [of "[1..<12]" bs "uint (bs ! 0)"] b by (simp add: extract_uint_def m_def del: upt_rec_numeral)
  have bt: "bit (extract_uint bs 12) 11 \<longleftrightarrow> bs ! 0 = 1"
    using b [of 0] by (auto simp: bit_extract_uint [OF assms])
  have "take_bit 12 (extract_uint bs 12) = extract_uint bs 12"
    by (rule bit_eqI) (auto simp: bit_take_bit_iff bit_extract_uint [OF assms])
  then have "signed_take_bit 11 (extract_uint bs 12) = extract_uint bs 12 - 2 ^ 12 * of_bool (bs ! 0 = 1)"
    using signed_take_bit_eq_take_bit_minus [of 11 "extract_uint bs 12"] bt by simp
  moreover have "extract_signed12 bs = (if bs ! 0 = 0 then m else m - 2 ^ 11)"
    by (simp add: extract_signed12_def m_def Let_def uint_0_iff del: upt_rec_numeral)
  ultimately show ?thesis using k b [of 0] by auto
qed

lemma signed12_cong: "(\<And>j. j < 12 \<Longrightarrow> bit a j = bit b j) \<Longrightarrow> signed_take_bit 11 a = signed_take_bit 11 b"
  for a b :: int
  by (rule bit_eqI) (simp add: bit_signed_take_bit_iff)

lemma nth_ira_stream:
  "i < 21 \<Longrightarrow> ira_stream (d1, e1) (d2, e2) (d3, e3) ps ! i = of_bool (bit d1 (20 - i))"
  "i < 21 \<Longrightarrow> ira_stream (d1, e1) (d2, e2) (d3, e3) ps ! (21 + i) = of_bool (bit d2 (20 - i))"
  "i < 21 \<Longrightarrow> ira_stream (d1, e1) (d2, e2) (d3, e3) ps ! (42 + i) = of_bool (bit d3 (20 - i))"
  by (simp_all add: ira_stream_def nth_append nth_uint_to_bits BCH_RA_DATA_def)

lemma length_ira_stream [simp]: "length (ira_stream b1 b2 b3 ps) = 63 + 42 * length ps"
  by (simp add: ira_stream_def BCH_RA_DATA_def length_concat_const)

lemma bit_list_ira_stream [simp]: "bit_list (ira_stream b1 b2 b3 ps)"
  by (auto simp: ira_stream_def intro!: bit_list_concat)

lemma signed12_ira_stream:
  fixes w :: u32
  assumes "k + 12 \<le> 63"
    and "\<And>j. j < 12 \<Longrightarrow> odd (ira_stream b1 b2 b3 ps ! (k + 11 - j)) \<longleftrightarrow> bit w j"
  shows "extract_signed12 (drop k (ira_stream b1 b2 b3 ps)) = signed_take_bit 11 (uint w)"
proof -
  have bl: "bit_list (drop k (ira_stream b1 b2 b3 ps))"
    using bit_list_ira_stream [of b1 b2 b3 ps] by (auto simp: bit_list_def dest: in_set_dropD)
  have l: "12 \<le> length (drop k (ira_stream b1 b2 b3 ps))" using assms(1) by simp
  have "bit (extract_uint (drop k (ira_stream b1 b2 b3 ps)) 12) j \<longleftrightarrow> bit (uint w) j" if "j < 12" for j
    using assms(2) [OF that] assms(1) that
    by (simp add: bit_extract_uint [OF bl l] bit_uint_iff Suc_diff_Suc)
  then show ?thesis unfolding extract_signed12_alt [OF bl l] by (rule signed12_cong)
qed

lemma parse_ira_fields:
  fixes ps :: "(tx_word \<times> tx_word) list" and d1 d2 d3 e1 e2 e3 :: u32
  defines "stream \<equiv> ira_stream (d1, e1) (d2, e2) (d3, e3) ps"
  defines "ira \<equiv> parse_ira stream (int (length stream))"
  shows "ira_sat_id ira = uint (take_bit 7 (drop_bit 14 d1))"
    "ira_beam_id ira = uint (take_bit 6 (drop_bit 8 d1))"
    "ira_pos_xyz ira = (signed_take_bit 11 (uint (push_bit 4 d1 OR take_bit 4 (drop_bit 17 d2))),
       signed_take_bit 11 (uint (drop_bit 5 d2)),
       signed_take_bit 11 (uint (push_bit 7 d2 OR take_bit 7 (drop_bit 14 d3))))"
proof -
  have s: "stream = uint_to_bits d1 21 @ (uint_to_bits d2 21 @ uint_to_bits d3 21) @ concat (map pair_data ps)"
    by (simp add: stream_def ira_stream_def BCH_RA_DATA_def)
  have l: "\<not> int (length stream) < 63" by (simp add: stream_def)
  have "extract_uint stream 7 = uint (take_bit 7 (drop_bit 14 d1))"
    using extract_uint_drop [of 0 7 21 d1] by (simp add: s extract_uint_append)
  then show "ira_sat_id ira = uint (take_bit 7 (drop_bit 14 d1))"
    using l by (simp add: ira_def parse_ira_def Let_def)
  have "extract_uint (drop 7 stream) 6 = uint (take_bit 6 (drop_bit 8 d1))"
    using extract_uint_drop [of 7 6 21 d1] by (simp add: s extract_uint_append)
  then show "ira_beam_id ira = uint (take_bit 6 (drop_bit 8 d1))"
    using l by (simp add: ira_def parse_ira_def Let_def)
  note n = nth_ira_stream [of _ d1 e1 d2 e2 d3 e3 ps, folded stream_def]
  have x: "odd (stream ! (13 + 11 - j)) \<longleftrightarrow> bit (push_bit 4 d1 OR take_bit 4 (drop_bit 17 d2)) j" if "j < 12" for j
  proof (cases "j < 4")
    case True
    then have "13 + 11 - j = 21 + (3 - j)" "20 - (3 - j) = 17 + j" by linarith+
    then show ?thesis using True n(2) [of "3 - j"]
      by (auto simp: bit_or_iff bit_push_bit_iff bit_take_bit_iff bit_drop_bit_eq)
  next
    case False
    then have "20 - (13 + 11 - j) = j - 4" using that by linarith
    then show ?thesis using False that n(1) [of "13 + 11 - j"]
      by (auto simp: bit_or_iff bit_push_bit_iff bit_take_bit_iff)
  qed
  have y: "odd (stream ! (25 + 11 - j)) \<longleftrightarrow> bit (drop_bit 5 d2) j" if "j < 12" for j
  proof -
    have "25 + 11 - j = 21 + (15 - j)" "20 - (15 - j) = 5 + j" using that by linarith+
    then show ?thesis using n(2) [of "15 - j"] by (auto simp: bit_drop_bit_eq)
  qed
  have z: "odd (stream ! (37 + 11 - j)) \<longleftrightarrow> bit (push_bit 7 d2 OR take_bit 7 (drop_bit 14 d3)) j" if "j < 12" for j
  proof (cases "j < 7")
    case True
    then have "37 + 11 - j = 42 + (6 - j)" "20 - (6 - j) = 14 + j" by linarith+
    then show ?thesis using True n(3) [of "6 - j"]
      by (auto simp: bit_or_iff bit_push_bit_iff bit_take_bit_iff bit_drop_bit_eq)
  next
    case False
    then have "37 + 11 - j = 21 + (27 - j)" "20 - (27 - j) = j - 7" "27 - j < 21" using that by linarith+
    then show ?thesis using False that n(2) [of "27 - j"]
      by (auto simp: bit_or_iff bit_push_bit_iff bit_take_bit_iff)
  qed
  show "ira_pos_xyz ira = (signed_take_bit 11 (uint (push_bit 4 d1 OR take_bit 4 (drop_bit 17 d2))),
       signed_take_bit 11 (uint (drop_bit 5 d2)),
       signed_take_bit 11 (uint (push_bit 7 d2 OR take_bit 7 (drop_bit 14 d3))))"
    using l signed12_ira_stream [OF _ x [unfolded stream_def], folded stream_def]
      signed12_ira_stream [OF _ y [unfolded stream_def], folded stream_def]
      signed12_ira_stream [OF _ z [unfolded stream_def], folded stream_def]
    by (simp add: ira_def parse_ira_def Let_def)
qed


definition ira_example :: demod_frame where
  "ira_example = \<lparr>fr_id = 0, fr_timestamp = 5, fr_center_frequency = 1626, fr_direction = DIR_DOWNLINK,
     fr_magnitude = 0, fr_noise = 0, fr_confidence = 100, fr_level = 1, fr_n_symbols = 60,
     fr_n_payload_symbols = 48, fr_bits = tx_ira DIR_DOWNLINK (689920, 4) (0, 0) (0, 0) [],
     fr_llr = None, fr_n_bits = 120\<rparr>"

lemma hdr_entry_3: "\<not> 0 \<le> errs (syn_hdr frame_decode_init ! 3)"
proof
  define en where "en = syn_hdr frame_decode_init ! 3"
  assume "0 \<le> errs (syn_hdr frame_decode_init ! 3)"
  moreover have "entry_sound BCH_POLY_HDR 7 1 3 en"
    using single_table_sound [of 7 BCH_POLY_HDR 16]
    by (simp add: table_sound_def en_def frame_decode_init_def build_syndrome_table_alt)
  ultimately have en: "gf2_remainder 29 (locator en) = 3" "locator en < 2 ^ 7" "weight (locator en) = 1"
    by (auto simp: entry_sound_def en_def BCH_POLY_HDR_def word_unat_eq_iff)
  have "locator en \<in> set (single_errors 7)"
    using bit_below [OF en(2)] by (intro weight_1_dest [OF en(3)]) fastforce
  then have "locator en \<in> {1, 2, 4, 8, 16, 32, 64}" by (simp add: single_errors_def eval_simps)
  moreover have "gf2_remainder 29 1 = 1" "gf2_remainder 29 2 = 2" "gf2_remainder 29 4 = 4" "gf2_remainder 29 8 = 8"
    "gf2_remainder 29 16 = 13" "gf2_remainder 29 32 = 7" "gf2_remainder 29 64 = 14"
    by (simp_all add: gf2_remainder_alt gf2_step_alt eval_simps)
  ultimately show False using en(1) by auto
qed

lemma nth_interleave3:
  assumes "s < 48" and "b < 2"
  shows "interleave3 o1 o2 o3 ! (2 * s + b) = [o3, o2, o1] ! (s mod 3) ! (2 * ((47 - s) div 3) + b)"
proof -
  have d: "(2 * s + b) div 2 = s" "even (2 * s + b) \<longleftrightarrow> b = 0" "2 * s + b < 2 * length [0..<48]"
    using assms by auto
  show ?thesis unfolding interleave3_def nth_concat_pairs [OF d(3)] d(1,2) using assms by (cases "b = 0") (auto simp: less_2_cases_iff)
qed

lemma ira_example_header: "ibc_header frame_decode_init (drop 24 (fr_bits ira_example)) = None"
proof -
  have enc: "gf2_encode BCH_POLY_RA 689920 = 706478471" "gf2_encode BCH_POLY_RA 0 = 0"
    by (simp_all add: gf2_encode_def BCH_POLY_RA_def gf2_remainder_alt gf2_step_alt eval_simps)
  have p: "parity_bit 706478471 = 1" "parity_bit 0 = 0"
    by (simp_all add: parity_bit_def weight_def eval_simps)
  have "tx_block (0, 0) ! 30 = 0" "tx_block (0, 0) ! 31 = 0" "tx_block (689920, 4) ! 30 = 1" "tx_block (689920, 4) ! 31 = 1"
    unfolding tx_block_def prod.case enc p by (simp_all add: nth_append nth_uint_to_bits bit_0)
  then have six: "interleave3 (tx_block (689920, 4)) (tx_block (0, 0)) (tx_block (0, 0)) ! i = [0, 0, 0, 0, 1, 1] ! i"
    if "i \<in> {0, 1, 2, 3, 4, 5}" for i
    using that
      nth_interleave3 [of 0 0 "tx_block (689920, 4)" "tx_block (0, 0)" "tx_block (0, 0)"]
      nth_interleave3 [of 0 1 "tx_block (689920, 4)" "tx_block (0, 0)" "tx_block (0, 0)"]
      nth_interleave3 [of 1 0 "tx_block (689920, 4)" "tx_block (0, 0)" "tx_block (0, 0)"]
      nth_interleave3 [of 1 1 "tx_block (689920, 4)" "tx_block (0, 0)" "tx_block (0, 0)"]
      nth_interleave3 [of 2 0 "tx_block (689920, 4)" "tx_block (0, 0)" "tx_block (0, 0)"]
      nth_interleave3 [of 2 1 "tx_block (689920, 4)" "tx_block (0, 0)" "tx_block (0, 0)"]
    by (elim insertE) simp_all
  have "drop 24 (fr_bits ira_example) ! i = [0, 0, 0, 0, 1, 1] ! i" if "i < 6" for i
  proof -
    have "i \<in> {0, 1, 2, 3, 4, 5}" using that by auto
    then show ?thesis using six [of i] that by (simp add: ira_example_def tx_ira_def)
  qed
  then have "bits_to_uint (drop 24 (fr_bits ira_example)) 6 = bits_to_uint [0, 0, 0, 0, 1, 1] 6"
    unfolding bits_to_uint_def by (intro fold_cong) simp_all
  also have "\<dots> = 3" by (simp add: bits_to_uint_def eval_simps)
  finally have v: "bits_to_uint (drop 24 (fr_bits ira_example)) 6 = 3" .
  have "gf2_remainder BCH_POLY_HDR 3 = 3"
    by (simp add: BCH_POLY_HDR_def gf2_remainder_alt gf2_step_alt eval_simps)
  then show ?thesis by (simp add: ibc_header_def v hdr_entry_3)
qed


text \<open>
  C6. Whatever bits come in and whatever the tables hold, an accepted
  frame begins with one of the two access codes exactly, is long enough for its type, is
  classified as IRA or IBC with the payload of that type, names one of the 48 beams, and carries
  the timestamp and frequency of the burst.
\<close>

theorem frame_decode_acceptance:
  assumes "frame_decode t f = (True, out)"
  shows "take 24 (fr_bits f) \<in> {access_dl, access_ul} \<and>
    (df_type out = FRAME_IBC \<and> 94 \<le> fr_n_bits f \<and>
       (\<exists>ibc. df_payload out = Ibc ibc \<and> ibc_beam_id ibc \<in> {1..48}) \<or>
     df_type out = FRAME_IRA \<and> 120 \<le> fr_n_bits f \<and>
       (\<exists>ira. df_payload out = Ira ira \<and> ira_beam_id ira \<in> {1..48})) \<and>
    df_timestamp out = fr_timestamp f \<and> df_frequency out = fr_center_frequency f"
proof -
  have "take 24 (fr_bits f) \<in> {access_dl, access_ul}" "df_timestamp out = fr_timestamp f"
    "df_frequency out = fr_center_frequency f"
    using assms by (auto simp: frame_decode_def Let_def split: if_splits option.splits)
  with assms show ?thesis
    by (cases rule: frame_decode_cases) (auto dest: try_ibc_beam try_ira_beam)
qed

lemma ibc_example_accepted: "\<exists>out. frame_decode frame_decode_init ibc_example = (True, out)"
proof -
  have n: "fr_n_bits ibc_example = int (length (fr_bits ibc_example))"
    by (simp add: ibc_example_def tx_ibc_def)
  have b: "fr_bits ibc_example = tx_ibc DIR_DOWNLINK 29 1 [((689920, 4), (0, 0))]" by (simp add: ibc_example_def)
  have "ibc_beam_id (parse_ibc (pair_data ((689920, 4), (0, 0)) @ []) (int (length (pair_data ((689920, 4), (0, 0)) @ []))) ty) = 7" for ty
    unfolding parse_ibc_fields(3) [OF refl] by (simp add: take_bit_eq_mod drop_bit_eq_div)
  then show ?thesis
    using frame_decode_ibc_tx [OF ibc_example_ok(1) _ _ b n] ibc_example_ok(2) by (simp add: Let_def)
qed

theorem frame_decode_acceptance_witness:
  "\<exists>out. frame_decode frame_decode_init ibc_example = (True, out) \<and>
     take 24 (fr_bits ibc_example) \<in> {access_dl, access_ul}"
  using ibc_example_accepted frame_decode_acceptance by blast

text \<open>
  C7. The decoder reads only the bits it was given: bytes beyond \<open>n_bits\<close>
  (and any reliabilities) do not influence the result, and neither do the unwritten parts of the
  stack buffers that \<open>parse_ibc\<close> and \<open>parse_ira\<close> are handed. What is written to those buffers
  stays within their 256 and 512 bytes.
\<close>

theorem frame_decode_in_bounds:
  assumes "fr_n_bits f = int (length (fr_bits f))"
  shows "frame_decode t (f\<lparr>fr_bits := fr_bits f @ junk, fr_llr := l\<rparr>) = frame_decode t f \<and>
    parse_ibc (stream @ junk) (int (length stream)) ty = parse_ibc stream (int (length stream)) ty \<and>
    parse_ira (stream @ junk) (int (length stream)) = parse_ira stream (int (length stream)) \<and>
    (length d = 42 \<longrightarrow> int (length (decode_blocks t data l limit 256 70 d)) \<le> 256) \<and>
    (length d = 63 \<longrightarrow> int (length (decode_blocks t data l limit 512 96 d)) \<le> 512)"
  using frame_decode_append [OF assms] parse_ibc_append parse_ira_append
    decode_blocks_length [of d 256 t data l limit 70] decode_blocks_length [of d 512 t data l limit 96]
  by auto

theorem frame_decode_in_bounds_witness:
  "frame_decode frame_decode_init (ibc_example\<lparr>fr_bits := fr_bits ibc_example @ [1, 0, 1], fr_llr := None\<rparr>) =
   frame_decode frame_decode_init ibc_example"
proof -
  have n: "fr_n_bits ibc_example = int (length (fr_bits ibc_example))"
    by (simp add: ibc_example_def tx_ibc_def)
  show ?thesis using frame_decode_in_bounds [OF n] by blast
qed

end
