(* ===== verification/Crc.thy ===== *)
theory Crc
  imports Prelude
begin

unbundle bit_operations_syntax

text \<open>
  The two checksums of the program: CRC-CCITT of IDA payloads (\<open>crc_ccitt\<close>, \<^verbatim>\<open>src/ida_decode.c\<close>)
  and the table-driven CRC-16/Kermit of ACARS messages (\<open>crc16_init\<close> and \<open>crc16_kermit\<close>,
  \<^verbatim>\<open>src/sbd_acars.c\<close>).

  The locale \<open>linear_crc\<close> states what the two have in common: a linear, injective step on the
  register and a way to feed bytes into it. From it follow linearity, the appended-checksum
  property and the detection of every error confined to two adjacent bytes; the interpretations
  show that both checksums are instances. The table-driven routine is shown equal to the bitwise
  one.
\<close>

subsection \<open>CRC-CCITT\<close>

definition ccitt_step :: "u16 \<Rightarrow> u16" where
  "ccitt_step crc = (if crc AND 0x8000 \<noteq> 0 then push_bit 1 crc XOR 0x1021 else push_bit 1 crc)"

definition ccitt_byte :: "u8 \<Rightarrow> u16 \<Rightarrow> u16" where
  "ccitt_byte d crc = fold (\<lambda>_. ccitt_step) [0..<8] (crc XOR push_bit 8 (ucast d))"

definition crc_ccitt :: "u8 list \<Rightarrow> nat \<Rightarrow> u16" where
  "crc_ccitt data len = fold (\<lambda>i. ccitt_byte (data ! i)) [0..<len] 0xFFFF"

subsection \<open>CRC-16/Kermit\<close>

definition kermit_step :: "u16 \<Rightarrow> u16" where
  "kermit_step crc = (if crc AND 1 \<noteq> 0 then drop_bit 1 crc XOR 0x8408 else drop_bit 1 crc)"

definition crc16_init :: "u16 list" where
  "crc16_init = map (\<lambda>i. fold (\<lambda>_. kermit_step) [0..<8] (of_nat i)) [0..<256]"

definition crc16_kermit :: "u16 list \<Rightarrow> u8 list \<Rightarrow> nat \<Rightarrow> u16" where
  "crc16_kermit table data len =
     fold (\<lambda>i crc. table ! unat ((crc XOR ucast (data ! i)) AND 0xFF) XOR drop_bit 8 crc) [0..<len] 0"

subsection \<open>Linear checksums\<close>

definition crc_run :: "(u16 \<Rightarrow> u16) \<Rightarrow> (u8 \<Rightarrow> u16) \<Rightarrow> u8 list \<Rightarrow> u16 \<Rightarrow> u16" where
  "crc_run step absorb = fold (\<lambda>b crc. (step ^^ 8) (crc XOR absorb b))"

definition xor_list :: "u8 list \<Rightarrow> u8 list \<Rightarrow> u8 list" where
  "xor_list xs ys = map (\<lambda>(x, y). x XOR y) (zip xs ys)"

lemma xor_fixed:
  fixes v w :: "'a::len word"
  assumes "v = v XOR w"
  shows "w = 0"
proof -
  have "w = v XOR (v XOR w)" by (simp flip: xor.assoc)
  also have "\<dots> = 0" by (simp flip: assms)
  finally show ?thesis .
qed

text \<open>\<open>wide b\<close> is the register content that eight steps turn into \<open>absorb b\<close>.\<close>

locale linear_crc =
  fixes step :: "u16 \<Rightarrow> u16" and absorb wide :: "u8 \<Rightarrow> u16"
  assumes step_xor: "step (v XOR w) = step v XOR step w"
    and step_0_dest: "step v = 0 \<Longrightarrow> v = 0"
    and absorb_xor: "absorb (a XOR b) = absorb a XOR absorb b"
    and wide: "(step ^^ 8) (wide b) = absorb b"
    and disjoint: "absorb a XOR wide b = 0 \<Longrightarrow> a = 0 \<and> b = 0"
begin

lemma step_0: "step 0 = 0"
  using step_xor [of 0 0] by simp

lemma steps_0: "(step ^^ n) 0 = 0"
  by (induction n) (simp_all add: step_0)

lemma steps_xor: "(step ^^ n) (v XOR w) = (step ^^ n) v XOR (step ^^ n) w"
  by (induction n) (simp_all add: step_xor)

lemma steps_0_dest: "(step ^^ n) v = 0 \<Longrightarrow> v = 0"
  by (induction n) (auto dest: step_0_dest)

lemma absorb_0: "absorb 0 = 0"
  using absorb_xor [of 0 0] by simp

lemma run_append: "crc_run step absorb (xs @ ys) s = crc_run step absorb ys (crc_run step absorb xs s)"
  by (simp add: crc_run_def)

lemma run_xor:
  assumes "length xs = length es"
  shows "crc_run step absorb (xor_list xs es) (s XOR t) = crc_run step absorb xs s XOR crc_run step absorb es t"
  using assms
proof (induction xs es arbitrary: s t rule: list_induct2)
  case (Cons x xs e es)
  let ?n = "\<lambda>b s. (step ^^ 8) (s XOR absorb b)"
  have "(s XOR t) XOR absorb (x XOR e) = (s XOR absorb x) XOR (t XOR absorb e)"
    by (simp add: absorb_xor ac_simps)
  then have "?n (x XOR e) (s XOR t) = ?n x s XOR ?n e t" by (simp only: steps_xor)
  then show ?case using Cons.IH [of "?n x s" "?n e t"] by (simp add: crc_run_def xor_list_def)
qed (simp add: crc_run_def xor_list_def)

lemma run_pair: "crc_run step absorb [a, b] s = (step ^^ 16) (s XOR (absorb a XOR wide b))"
proof -
  have "(step ^^ 16) v = (step ^^ 8) ((step ^^ 8) v)" for v
    using funpow_add [of 8 8 step] by (simp add: comp_def)
  moreover have "(step ^^ 8) (s XOR absorb a) XOR absorb b = (step ^^ 8) (s XOR (absorb a XOR wide b))"
    by (simp only: wide [symmetric] steps_xor [symmetric] xor.assoc)
  ultimately show ?thesis by (simp add: crc_run_def)
qed

lemma run_zeros: "crc_run step absorb (replicate n 0) 0 = 0"
  by (induction n) (simp_all add: crc_run_def absorb_0 steps_0)

lemma run_zeros_nonzero: "s \<noteq> 0 \<Longrightarrow> crc_run step absorb (replicate n 0) s \<noteq> 0"
  by (induction n arbitrary: s) (auto simp: crc_run_def absorb_0 dest: steps_0_dest)

lemma appended_checksum:
  assumes "absorb a XOR wide b = crc_run step absorb xs s"
  shows "crc_run step absorb (xs @ [a, b]) s = 0"
  using assms by (simp only: run_append run_pair xor_self_eq steps_0)

lemma burst_detected:
  assumes "length xs = i + 2 + j" and "a \<noteq> 0 \<or> b \<noteq> 0"
  shows "crc_run step absorb (xor_list xs (replicate i 0 @ [a, b] @ replicate j 0)) s \<noteq> crc_run step absorb xs s"
proof
  let ?e = "replicate i 0 @ [a, b] @ replicate j 0"
  assume eq: "crc_run step absorb (xor_list xs ?e) s = crc_run step absorb xs s"
  have "crc_run step absorb (xor_list xs ?e) (s XOR 0) = crc_run step absorb xs s XOR crc_run step absorb ?e 0"
    using assms(1) by (intro run_xor) simp
  then have "crc_run step absorb xs s = crc_run step absorb xs s XOR crc_run step absorb ?e 0"
    using eq by simp
  then have "crc_run step absorb ?e 0 = 0" by (rule xor_fixed)
  then have "crc_run step absorb [a, b] 0 = 0"
    using run_zeros_nonzero [of "crc_run step absorb [a, b] 0" j] run_append [of "[a, b]" "replicate j 0" 0]
    by (auto simp: run_append [of "replicate i 0"] run_zeros)
  then show False using assms(2) steps_0_dest disjoint by (auto simp: run_pair)
qed

end

subsection \<open>The two checksums are linear\<close>

lemma ccitt_step_alt: "ccitt_step crc = push_bit 1 crc XOR (if bit crc 15 then 0x1021 else 0)"
proof -
  have "crc AND 0x8000 \<noteq> 0 \<longleftrightarrow> bit crc 15"
    using and_exp_eq_0_iff_not_bit [of crc 15] by simp
  then show ?thesis by (simp add: ccitt_step_def)
qed

lemma kermit_step_alt: "kermit_step crc = drop_bit 1 crc XOR (if bit crc 0 then 0x8408 else 0)"
  by (simp add: kermit_step_def and_one_eq bit_0 odd_iff_mod_2_eq_one)

lemma ccitt_steps_shift:
  "n \<le> 16 \<Longrightarrow> \<forall>j<16. 16 - n \<le> j \<longrightarrow> \<not> bit v j \<Longrightarrow> (ccitt_step ^^ n) v = push_bit n v"
proof (induction n)
  case (Suc n)
  then have "(ccitt_step ^^ Suc n) v = ccitt_step (push_bit n v)" by simp
  also have "\<not> bit (push_bit n v) 15" using Suc.prems by (auto simp: bit_push_bit_iff)
  then have "ccitt_step (push_bit n v) = push_bit (Suc n) v"
    unfolding ccitt_step_alt by (simp only: if_False xor.right_neutral push_bit_push_bit plus_1_eq_Suc)
  finally show ?case .
qed simp

lemma kermit_steps_shift:
  "\<forall>j<n. \<not> bit v j \<Longrightarrow> (kermit_step ^^ n) v = drop_bit n v"
proof (induction n)
  case (Suc n)
  then have "(kermit_step ^^ Suc n) v = kermit_step (drop_bit n v)" by simp
  also have "\<not> bit (drop_bit n v) 0" using Suc.prems unfolding bit_drop_bit_eq by simp
  then have "kermit_step (drop_bit n v) = drop_bit (Suc n) v"
    unfolding kermit_step_alt by (simp only: if_False xor.right_neutral drop_bit_drop_bit plus_1_eq_Suc)
  finally show ?case .
qed simp

definition hi_byte :: "u8 \<Rightarrow> u16" where "hi_byte b = push_bit 8 (ucast b)"
definition lo_byte :: "u8 \<Rightarrow> u16" where "lo_byte b = ucast b"

lemma bit_hi_byte: "bit (hi_byte b) j \<longleftrightarrow> 8 \<le> j \<and> j < 16 \<and> bit b (j - 8)"
  by (auto simp: hi_byte_def bit_push_bit_iff bit_ucast_iff)

lemma bit_lo_byte: "bit (lo_byte b) j \<longleftrightarrow> j < 8 \<and> bit b j"
  by (auto simp: lo_byte_def bit_ucast_iff dest: bit_imp_le_length)

lemma bytes_disjoint:
  assumes "hi_byte a XOR lo_byte b = 0"
  shows "a = 0 \<and> b = 0"
proof
  have *: "\<not> bit (hi_byte a XOR lo_byte b) j" for j by (simp add: assms)
  have "\<not> bit a j" if "j < 8" for j
    using * [of "j + 8"] that by (simp add: bit_xor_iff bit_hi_byte bit_lo_byte)
  then show "a = 0" by (intro bit_word_eqI) simp
  have "\<not> bit b j" if "j < 8" for j
    using * [of j] that by (simp add: bit_xor_iff bit_hi_byte bit_lo_byte)
  then show "b = 0" by (intro bit_word_eqI) simp
qed

lemma split_bytes: "hi_byte (ucast (drop_bit 8 c)) XOR lo_byte (ucast c) = c"
  by (rule bit_word_eqI) (auto simp: bit_xor_iff bit_hi_byte bit_lo_byte bit_ucast_iff bit_drop_bit_eq)

interpretation ccitt: linear_crc ccitt_step hi_byte lo_byte
proof
  show "ccitt_step (v XOR w) = ccitt_step v XOR ccitt_step w" for v w
    unfolding ccitt_step_alt bit_xor_iff push_bit_xor
    by (cases "bit v 15"; cases "bit w 15") (simp_all only: if_True if_False, simp_all add: ac_simps)
  show "v = 0" if s: "ccitt_step v = 0" for v
  proof -
    have b: "\<not> bit (ccitt_step v) j" for j by (simp add: s)
    have "\<not> bit v 15"
    proof
      assume "bit v 15"
      then show False using b [of 0] unfolding ccitt_step_alt bit_xor_iff bit_push_bit_iff by simp
    qed
    then have "\<not> bit v j" if "j < 15" for j
      using b [of "Suc j"] that unfolding ccitt_step_alt bit_xor_iff bit_push_bit_iff by simp
    with \<open>\<not> bit v 15\<close> show "v = 0"
      by (intro bit_word_eqI) (auto simp: less_Suc_eq numeral_eq_Suc)
  qed
  show "hi_byte (a XOR b) = hi_byte a XOR hi_byte b" for a b
    by (rule bit_word_eqI) (auto simp: bit_xor_iff bit_hi_byte)
  show "(ccitt_step ^^ 8) (lo_byte b) = hi_byte b" for b
    using ccitt_steps_shift [of 8 "lo_byte b"] by (simp add: bit_lo_byte) (simp add: hi_byte_def lo_byte_def)
  show "a = 0 \<and> b = 0" if "hi_byte a XOR lo_byte b = 0" for a b
    using that by (rule bytes_disjoint)
qed

interpretation kermit: linear_crc kermit_step lo_byte hi_byte
proof
  show "kermit_step (v XOR w) = kermit_step v XOR kermit_step w" for v w
    unfolding kermit_step_alt bit_xor_iff drop_bit_xor
    by (cases "bit v 0"; cases "bit w 0") (simp_all only: if_True if_False, simp_all add: ac_simps)
  show "v = 0" if s: "kermit_step v = 0" for v
  proof -
    have b: "\<not> bit (kermit_step v) j" for j by (simp add: s)
    have v0: "\<not> bit v 0"
    proof
      assume "bit v 0"
      then show False using b [of 15] unfolding kermit_step_alt bit_xor_iff bit_drop_bit_eq
        by (simp del: bit_0) (auto dest: bit_imp_le_length)
    qed
    then have "\<not> bit v (Suc j)" for j
      using b [of j] unfolding kermit_step_alt bit_xor_iff bit_drop_bit_eq by simp
    with v0 have "\<not> bit v j" for j by (cases j) simp_all
    then show "v = 0" by (intro bit_word_eqI) simp
  qed
  show "lo_byte (a XOR b) = lo_byte a XOR lo_byte b" for a b
    by (rule bit_word_eqI) (auto simp: bit_xor_iff bit_lo_byte)
  show "(kermit_step ^^ 8) (hi_byte b) = lo_byte b" for b
  proof -
    have "(kermit_step ^^ 8) (hi_byte b) = drop_bit 8 (hi_byte b)"
      by (rule kermit_steps_shift) (simp add: bit_hi_byte)
    also have "\<dots> = lo_byte b"
      by (rule bit_word_eqI) (auto simp: bit_drop_bit_eq bit_hi_byte bit_lo_byte dest: bit_imp_le_length)
    finally show ?thesis .
  qed
  show "a = 0 \<and> b = 0" if "lo_byte a XOR hi_byte b = 0" for a b
    using bytes_disjoint [of b a] that by (auto simp: xor.commute)
qed

lemma fold_const_funpow: "fold (\<lambda>_. f) [0..<n] = f ^^ n"
  by (induction n) simp_all

lemma crc_ccitt_run: "n \<le> length data \<Longrightarrow> crc_ccitt data n = crc_run ccitt_step hi_byte (take n data) 0xFFFF"
proof -
  have "ccitt_byte = (\<lambda>b crc. (ccitt_step ^^ 8) (crc XOR hi_byte b))"
    by (intro ext) (simp only: ccitt_byte_def fold_const_funpow hi_byte_def)
  then show "n \<le> length data \<Longrightarrow> crc_ccitt data n = crc_run ccitt_step hi_byte (take n data) 0xFFFF"
    using fold_nth_take [of n data ccitt_byte "0xFFFF"] by (simp only: crc_ccitt_def crc_run_def)
qed

lemma nth_crc16_init: "i < 256 \<Longrightarrow> crc16_init ! i = (kermit_step ^^ 8) (of_nat i)"
  by (simp only: crc16_init_def fold_const_funpow) simp

lemma kermit_table_step:
  "crc16_init ! unat ((crc XOR ucast d) AND 0xFF) XOR drop_bit 8 crc = (kermit_step ^^ 8) (crc XOR lo_byte d)"
proof -
  let ?v = "crc XOR lo_byte d"
  have m: "(0xFF :: u16) = mask 8" by (simp add: mask_eq_exp_minus_1)
  define l h where "l = ?v AND mask 8" and "h = hi_byte (ucast (drop_bit 8 ?v))"
  have v: "?v = l XOR h"
    by (rule bit_word_eqI)
      (auto simp: l_def h_def bit_xor_iff bit_and_iff bit_mask_iff bit_hi_byte bit_ucast_iff bit_drop_bit_eq)
  have "l < 2 ^ 8" by (subst word_less_exp_iff) (auto simp: l_def bit_and_iff bit_mask_iff)
  then have "unat l < 256" using unat_exp [of 8, where 'a = 16] by (simp add: word_less_nat_alt)
  then have "crc16_init ! unat l = (kermit_step ^^ 8) l" by (simp only: nth_crc16_init) simp
  moreover have "(kermit_step ^^ 8) h = drop_bit 8 crc"
    unfolding h_def kermit.wide
    by (rule bit_word_eqI) (auto simp: bit_lo_byte bit_ucast_iff bit_drop_bit_eq bit_xor_iff dest: bit_imp_le_length)
  moreover have "(kermit_step ^^ 8) ?v = (kermit_step ^^ 8) l XOR (kermit_step ^^ 8) h"
    by (subst v) (rule kermit.steps_xor)
  ultimately show ?thesis by (simp only: l_def m lo_byte_def)
qed

lemma crc16_kermit_run:
  "n \<le> length data \<Longrightarrow> crc16_kermit crc16_init data n = crc_run kermit_step lo_byte (take n data) 0"
  using fold_nth_take [of n data "\<lambda>d crc. (kermit_step ^^ 8) (crc XOR lo_byte d)" 0]
  by (simp only: crc16_kermit_def crc_run_def kermit_table_step)

lemma length_xor_list [simp]: "length (xor_list xs ys) = min (length xs) (length ys)"
  by (simp add: xor_list_def)

subsection \<open>Properties\<close>

text \<open>
  C20. The table-driven Kermit checksum is the bitwise one: with the table
  that \<open>crc16_init\<close> builds, looking up a byte is the same as shifting it through the register bit
  by bit, for every message and every prefix of it.
\<close>

theorem crc16_kermit_bitwise:
  assumes "n \<le> length data"
  shows "crc16_kermit crc16_init data n =
    fold (\<lambda>d crc. (kermit_step ^^ 8) (crc XOR ucast d)) (take n data) 0"
  using crc16_kermit_run [OF assms] by (simp only: crc_run_def lo_byte_def)

lemma funpow_8: "(f ^^ 8) x = f (f (f (f (f (f (f (f x)))))))"
  by (simp add: eval_nat_numeral)

text \<open>The standard check value of CRC-16/Kermit: the digits 1 to 9 give 0x2189.\<close>

theorem crc16_kermit_bitwise_witness:
  "crc16_kermit crc16_init [49, 50, 51, 52, 53, 54, 55, 56, 57] 9 = 0x2189"
proof -
  let ?b = "kermit_step ^^ 8"
  have "crc16_kermit crc16_init [49, 50, 51, 52, 53, 54, 55, 56, 57] 9 =
      ?b (?b (?b (?b (?b (?b (?b (?b (?b 49 XOR 50) XOR 51) XOR 52) XOR 53) XOR 54) XOR 55) XOR 56) XOR 57)"
    using crc16_kermit_bitwise [of 9 "[49, 50, 51, 52, 53, 54, 55, 56, 57]"] by simp
  also have "\<dots> = 0x2189" by (simp add: funpow_8 kermit_step_def drop_bit_eq_div)
  finally show ?thesis .
qed

text \<open>
  C18. A message followed by its own checksum has checksum zero, which is what
  the decoders test: most significant byte first for the IDA payload, least significant byte
  first for ACARS.
\<close>

theorem checksum_appended:
  "crc_ccitt (data @ [ucast (drop_bit 8 (crc_ccitt data (length data))), ucast (crc_ccitt data (length data))])
     (length data + 2) = 0 \<and>
   crc16_kermit crc16_init
     (data @ [ucast (crc16_kermit crc16_init data (length data)),
              ucast (drop_bit 8 (crc16_kermit crc16_init data (length data)))]) (length data + 2) = 0"
proof
  let ?c = "crc_ccitt data (length data)" and ?k = "crc16_kermit crc16_init data (length data)"
  have c: "?c = crc_run ccitt_step hi_byte data 0xFFFF" by (simp add: crc_ccitt_run)
  have "crc_run ccitt_step hi_byte (data @ [ucast (drop_bit 8 ?c), ucast ?c]) 0xFFFF = 0"
    by (rule ccitt.appended_checksum) (simp only: split_bytes c)
  then show "crc_ccitt (data @ [ucast (drop_bit 8 ?c), ucast ?c]) (length data + 2) = 0"
    by (simp add: crc_ccitt_run)
  have k: "?k = crc_run kermit_step lo_byte data 0" by (simp add: crc16_kermit_run)
  have "crc_run kermit_step lo_byte (data @ [ucast ?k, ucast (drop_bit 8 ?k)]) 0 = 0"
    by (rule kermit.appended_checksum) (simp only: split_bytes xor.commute [of "lo_byte _"] k)
  then show "crc16_kermit crc16_init (data @ [ucast ?k, ucast (drop_bit 8 ?k)]) (length data + 2) = 0"
    by (simp add: crc16_kermit_run)
qed

text \<open>
  C19. Both checksums detect every corruption confined to two adjacent
  bytes, wherever it is and whatever the message: the corrupted message has another checksum.
\<close>

theorem checksum_detects_bursts:
  assumes "length data = i + 2 + j" and "a \<noteq> 0 \<or> b \<noteq> 0"
  shows "crc_ccitt (xor_list data (replicate i 0 @ [a, b] @ replicate j 0)) (length data) \<noteq>
      crc_ccitt data (length data) \<and>
    crc16_kermit crc16_init (xor_list data (replicate i 0 @ [a, b] @ replicate j 0)) (length data) \<noteq>
      crc16_kermit crc16_init data (length data)"
  using ccitt.burst_detected [OF assms, of "0xFFFF"] kermit.burst_detected [OF assms, of 0] assms(1)
  by (simp add: crc_ccitt_run crc16_kermit_run)

theorem checksum_detects_bursts_witness:
  "crc_ccitt (xor_list [1, 2, 3, 4] [0, 128, 1, 0]) 4 \<noteq> crc_ccitt [1, 2, 3, 4] 4"
proof -
  have "length [1, 2, 3, 4 :: u8] = 4" by simp
  then show ?thesis
    using checksum_detects_bursts [of "[1, 2, 3, 4]" 1 1 128 1] by (simp del: list.size)
qed

end
