(* ===== verification/CText.thy ===== *)
theory CText
  imports Prelude "HOL-Library.Char_ord"
begin

text \<open>
  The part of the C library's text formatting that the program uses: the conversions of
  \<open>printf\<close> on integers and fixed-point numbers, field widths, truncation by \<open>snprintf\<close>, and
  \<open>atoi\<close>-style reading of digits. Strings are lists of characters without the terminating zero.

  The lemmas show that decimal and hexadecimal numerals consist of digits, are read back to the
  number they came from, and have as many digits as the number needs.
\<close>

subsection \<open>Digits\<close>

definition digit_char :: "nat \<Rightarrow> char" where
  "digit_char d = (if d < 10 then char_of (48 + d) else char_of (87 + d))"

definition digit_char_upper :: "nat \<Rightarrow> char" where
  "digit_char_upper d = (if d < 10 then char_of (48 + d) else char_of (55 + d))"

fun digits :: "nat \<Rightarrow> nat \<Rightarrow> nat list" where
  "digits b n = (if b < 2 \<or> n < b then [n] else digits b (n div b) @ [n mod b])"

declare digits.simps [simp del]

definition dec_nat :: "nat \<Rightarrow> string" where
  "dec_nat n = map digit_char (digits 10 n)"

definition hex_nat :: "nat \<Rightarrow> string" where
  "hex_nat n = map digit_char (digits 16 n)"

definition hex_nat_upper :: "nat \<Rightarrow> string" where
  "hex_nat_upper n = map digit_char_upper (digits 16 n)"

text \<open>\<open>%d\<close>.\<close>

definition dec_int :: "int \<Rightarrow> string" where
  "dec_int i = (if i < 0 then CHR ''-'' # dec_nat (nat (- i)) else dec_nat (nat i))"

text \<open>Field widths: \<open>%5d\<close>, \<open>%02x\<close> and \<open>%-110s\<close>.\<close>

definition pad_left :: "char \<Rightarrow> nat \<Rightarrow> string \<Rightarrow> string" where
  "pad_left c w s = replicate (w - length s) c @ s"

definition pad_right :: "nat \<Rightarrow> string \<Rightarrow> string" where
  "pad_right w s = s @ replicate (w - length s) CHR '' ''"

text \<open>What \<open>snprintf\<close> leaves in a buffer of \<open>sz\<close> bytes.\<close>

definition snprintf :: "nat \<Rightarrow> string \<Rightarrow> string" where
  "snprintf sz s = take (sz - 1) s"

text \<open>\<open>%.kf\<close>: the nearest multiple of \<open>1/10^k\<close>, ties to even.\<close>

definition round_even :: "real \<Rightarrow> int" where
  "round_even x =
     (let f = \<lfloor>x\<rfloor>; d = x - real_of_int f
      in if d < 1/2 then f else if d > 1/2 then f + 1 else if even f then f else f + 1)"

definition fixed :: "nat \<Rightarrow> real \<Rightarrow> string" where
  "fixed k x =
     (let n = nat (round_even (\<bar>x\<bar> * 10 ^ k));
          sign = (if x < 0 then ''-'' else '''')
      in sign @ dec_nat (n div 10 ^ k) @
         (if k = 0 then [] else CHR ''.'' # pad_left CHR ''0'' k (dec_nat (n mod 10 ^ k))))"

text \<open>The value of a string of decimal digits, as \<open>atoi\<close> accumulates it.\<close>

definition char_digit :: "char \<Rightarrow> nat" where
  "char_digit c = of_char c - 48"

definition parse_nat :: "string \<Rightarrow> nat" where
  "parse_nat s = fold (\<lambda>c n. 10 * n + char_digit c) s 0"

definition is_digit :: "char \<Rightarrow> bool" where
  "is_digit c \<longleftrightarrow> CHR ''0'' \<le> c \<and> c \<le> CHR ''9''"

subsection \<open>Numerals are read back\<close>

lemma digits_less: "2 \<le> b \<Longrightarrow> d \<in> set (digits b n) \<Longrightarrow> d < b"
proof (induction b n rule: digits.induct)
  case (1 b n)
  show ?case
  proof (cases "n < b")
    case False
    then have "digits b n = digits b (n div b) @ [n mod b]" using "1.prems"(1) by (subst digits.simps) simp
    then show ?thesis using 1 False by auto
  qed (use "1.prems" in \<open>simp add: digits.simps\<close>)
qed

lemma digits_value: "2 \<le> b \<Longrightarrow> fold (\<lambda>d n. b * n + d) (digits b n) 0 = n"
proof (induction b n rule: digits.induct)
  case (1 b n)
  show ?case
  proof (cases "n < b")
    case False
    then have "digits b n = digits b (n div b) @ [n mod b]" using "1.prems" by (subst digits.simps) simp
    then show ?thesis using 1 False by simp
  qed (use "1.prems" in \<open>simp add: digits.simps\<close>)
qed

lemma digits_nonempty [simp]: "digits b n \<noteq> []"
  by (subst digits.simps) simp

lemma length_digits: "2 \<le> b \<Longrightarrow> n < b ^ k \<Longrightarrow> 0 < k \<Longrightarrow> length (digits b n) \<le> k"
proof (induction k arbitrary: n)
  case (Suc k)
  show ?case
  proof (cases "n < b")
    case True
    then show ?thesis by (simp add: digits.simps)
  next
    case False
    have "n div b < b ^ k" using Suc.prems by (simp add: div_less_iff_less_mult mult.commute)
    moreover have "0 < k" using False Suc.prems by (cases k) auto
    moreover have "digits b n = digits b (n div b) @ [n mod b]" using False Suc.prems by (subst digits.simps) simp
    ultimately show ?thesis using Suc by simp
  qed
qed simp

lemma char_digit_char: "d < 10 \<Longrightarrow> char_digit (digit_char d) = d"
  by (simp add: char_digit_def digit_char_def of_char_of)

lemma is_digit_of_char: "is_digit c \<longleftrightarrow> 48 \<le> (of_char c :: nat) \<and> of_char c \<le> (57 :: nat)"
  by (simp add: is_digit_def less_eq_char_def)

lemma is_digit_char: "d < 10 \<Longrightarrow> is_digit (digit_char d)"
  by (simp add: is_digit_of_char digit_char_def of_char_of)

lemma parse_dec_nat: "parse_nat (dec_nat n) = n"
proof -
  have "fold (\<lambda>c n. 10 * n + char_digit c) (map digit_char ds) a = fold (\<lambda>d n. 10 * n + d) ds a"
    if "\<forall>d\<in>set ds. d < 10" for ds a
    using that by (induction ds arbitrary: a) (simp_all add: char_digit_char)
  then show ?thesis using digits_less [of 10] digits_value [of 10 n] by (simp add: parse_nat_def dec_nat_def)
qed

lemma dec_nat_digits: "c \<in> set (dec_nat n) \<Longrightarrow> is_digit c"
  using digits_less [of 10] by (auto simp: dec_nat_def is_digit_char)

lemma dec_nat_nonempty [simp]: "dec_nat n \<noteq> []"
  by (simp add: dec_nat_def)

lemma length_dec_nat: "n < 10 ^ k \<Longrightarrow> 0 < k \<Longrightarrow> length (dec_nat n) \<le> k"
  by (simp add: dec_nat_def length_digits)

lemma dec_int_chars: "c \<in> set (dec_int i) \<Longrightarrow> is_digit c \<or> c = CHR ''-''"
  by (auto simp: dec_int_def dest: dec_nat_digits split: if_splits)

lemma dec_nat_inj: "dec_nat m = dec_nat n \<longleftrightarrow> m = n"
  using parse_dec_nat by metis

lemma dec_int_inj: "dec_int i = dec_int j \<longleftrightarrow> i = j"
proof -
  have "dec_nat n \<noteq> CHR ''-'' # dec_nat m" for m n
  proof
    assume "dec_nat n = CHR ''-'' # dec_nat m"
    then have "CHR ''-'' \<in> set (dec_nat n)" by simp
    then show False by (auto dest!: dec_nat_digits simp: is_digit_of_char)
  qed
  then show ?thesis by (auto simp: dec_int_def dec_nat_inj) metis+
qed

lemma length_pad_left [simp]: "length (pad_left c w s) = max w (length s)"
  by (simp add: pad_left_def)

lemma length_pad_right [simp]: "length (pad_right w s) = max w (length s)"
  by (simp add: pad_right_def)

lemma length_snprintf: "length (snprintf sz s) \<le> sz - 1"
  by (simp add: snprintf_def)

end
