(* ===== verification/IdaDecode.thy ===== *)
theory IdaDecode
  imports FrameDecode Crc CText "HOL-Library.Multiset"
begin

unbundle bit_operations_syntax

text \<open>
  The IDA (data burst) decoder of \<^verbatim>\<open>src/ida_decode.c\<close>, with the types of \<^verbatim>\<open>src/ida_decode.h\<close>: the
  link control word, the descrambling and BCH(31,20) decoding of the payload with the optional
  Chase search over unreliable bits, the checksum test, the burst record and its text header.
  Multi-burst reassembly is in \<open>IdaReassembly\<close>.

  The static syndrome tables are a record. A read of an array element that the C code has not
  written is explicit: the last, partial block of a payload is decoded from two stack arrays whose
  unwritten elements have an arbitrary value, an argument of the model.
\<close>

subsection \<open>Tables and constants\<close>

definition BCH_POLY_DA :: u32 where "BCH_POLY_DA = 3545"
definition BCH_DA_SYN :: nat where "BCH_DA_SYN = 11"
definition BCH_DA_DATA :: nat where "BCH_DA_DATA = 20"
definition BCH_DA_TABLE :: nat where "BCH_DA_TABLE = 2048"
definition BCH_POLY_LCW1 :: u32 where "BCH_POLY_LCW1 = 29"
definition BCH_POLY_LCW2 :: u32 where "BCH_POLY_LCW2 = 465"
definition BCH_POLY_LCW3 :: u32 where "BCH_POLY_LCW3 = 41"

record ida_tables =
  syn_da :: "syn_entry list"
  syn_lcw1 :: "syn_entry list"
  syn_lcw2 :: "syn_entry list"
  syn_lcw3 :: "syn_entry list"

definition ida_decode_init :: ida_tables where
  "ida_decode_init =
     \<lparr>syn_da = build_syn BCH_POLY_DA 31 2 BCH_DA_TABLE,
      syn_lcw1 = build_syn BCH_POLY_LCW1 7 1 16,
      syn_lcw2 = build_syn BCH_POLY_LCW2 14 1 256,
      syn_lcw3 = build_syn BCH_POLY_LCW3 26 2 32\<rparr>"

definition lcw_perm :: "nat list" where
  "lcw_perm = [40, 39, 36, 35, 32, 31, 28, 27, 24, 23, 20, 19, 16, 15, 12, 11, 8, 7, 4, 3,
     41, 38, 37, 34, 33, 30, 29, 26, 25, 22, 21, 18, 17, 14, 13, 10, 9, 6, 5, 2,
     1, 46, 45, 44, 43, 42]"

subsection \<open>Chase decoding\<close>

text \<open>One round of the partial selection sort: the position of least reliability goes to place \<open>i\<close>.\<close>

definition select_min :: "real list \<Rightarrow> nat \<Rightarrow> nat list \<Rightarrow> nat list" where
  "select_min llr31 i pos =
     (let min_idx = fold (\<lambda>j m. if llr31 ! (pos ! j) < llr31 ! (pos ! m) then j else m) [i + 1..<31] i;
          tmp = pos ! i;
          pos = pos[i := pos ! min_idx]
      in pos[min_idx := tmp])"

definition least_reliable :: "real list \<Rightarrow> nat \<Rightarrow> nat list" where
  "least_reliable llr31 k = fold (select_min llr31) [0..<k] [0..<31]"

definition flip_masks :: "real list \<Rightarrow> nat \<Rightarrow> u32 list" where
  "flip_masks llr31 k = map (\<lambda>i. push_bit (30 - least_reliable llr31 k ! i) 1) [0..<k]"

definition apply_flips :: "u32 list \<Rightarrow> nat \<Rightarrow> nat \<Rightarrow> u32 \<Rightarrow> u32" where
  "apply_flips flip_mask k mask_bits base_val =
     fold (\<lambda>b flipped. if bit mask_bits b then flipped XOR flip_mask ! b else flipped) [0..<k] base_val"

text \<open>The data bits of a codeword, with the error count and the \<open>fixed\<close> flag.\<close>

definition da_result :: "int \<Rightarrow> u32 \<Rightarrow> int \<Rightarrow> int \<times> u8 list \<times> int" where
  "da_result n val fixed_flag = (n, uint_to_bits (drop_bit BCH_DA_SYN val) BCH_DA_DATA, fixed_flag)"

fun chase_search :: "ida_tables \<Rightarrow> u32 list \<Rightarrow> nat \<Rightarrow> u32 \<Rightarrow> nat list \<Rightarrow> (int \<times> u8 list \<times> int) option" where
  "chase_search t flip_mask k base_val [] = None"
| "chase_search t flip_mask k base_val (m # ms) =
     (let flipped = apply_flips flip_mask k m base_val;
          syndrome = gf2_remainder BCH_POLY_DA flipped
      in if syndrome = 0 then Some (da_result 0 flipped 1)
         else if syndrome < of_nat BCH_DA_TABLE \<and> errs (syn_da t ! unat syndrome) \<ge> 0
         then Some (da_result (errs (syn_da t ! unat syndrome)) (flipped XOR locator (syn_da t ! unat syndrome)) 1)
         else chase_search t flip_mask k base_val ms)"

definition chase_bch_da ::
  "ida_tables \<Rightarrow> nat \<Rightarrow> u8 list \<Rightarrow> real list option \<Rightarrow> (int \<times> u8 list \<times> int) option" where
  "chase_bch_da t chase block31 llr31 =
     (let val = bits_to_uint block31 31;
          syndrome = gf2_remainder BCH_POLY_DA val
      in if syndrome = 0 then Some (da_result 0 val 0)
         else if syndrome < of_nat BCH_DA_TABLE \<and> errs (syn_da t ! unat syndrome) \<ge> 0
         then Some (da_result (errs (syn_da t ! unat syndrome)) (val XOR locator (syn_da t ! unat syndrome)) 1)
         else case llr31 of
                None \<Rightarrow> None
              | Some l \<Rightarrow> chase_search t (flip_masks l chase) chase val [1..<2 ^ chase])"

subsection \<open>Link control word\<close>

record lcw =
  ft :: int
  lcw_ok :: int
  lcw_ft :: int
  lcw_code :: int
  lcw3_val :: u32
  ec_lcw :: int

text \<open>Correction of one LCW component: the corrected value, or \<open>None\<close> when it cannot be corrected.\<close>

definition correct_component :: "u32 \<Rightarrow> u32 \<Rightarrow> syn_entry list \<Rightarrow> u32 \<Rightarrow> u32 option" where
  "correct_component poly table_size syn v =
     (let s = gf2_remainder poly v
      in if s \<noteq> 0 then
           if s \<ge> table_size \<or> errs (syn ! unat s) < 0 then None
           else Some (v XOR locator (syn ! unat s))
         else Some v)"

definition swap_pairs :: "u8 list \<Rightarrow> u8 list" where
  "swap_pairs data = concat (map (\<lambda>i. [data ! (2 * i + 1), data ! (2 * i)]) [0..<23])"

definition lcw_bits :: "u8 list \<Rightarrow> u8 list" where
  "lcw_bits data = map (\<lambda>i. swap_pairs data ! (lcw_perm ! i - 1)) [0..<46]"

definition decode_lcw :: "ida_tables \<Rightarrow> u8 list \<Rightarrow> int \<Rightarrow> lcw option" where
  "decode_lcw t data data_len =
     (if data_len < 46 then None
      else
        let bs = lcw_bits data;
            v1 = bits_to_uint bs 7;
            v2 = push_bit 1 (bits_to_uint (drop 7 bs) 13);
            v3 = bits_to_uint (drop 20 bs) 26;
            s1 = gf2_remainder BCH_POLY_LCW1 v1;
            s2 = gf2_remainder BCH_POLY_LCW2 v2;
            s3 = gf2_remainder BCH_POLY_LCW3 v3
        in case correct_component BCH_POLY_LCW1 16 (syn_lcw1 t) v1 of
             None \<Rightarrow> None
           | Some c1 \<Rightarrow>
               (case correct_component BCH_POLY_LCW2 256 (syn_lcw2 t) v2 of
                  None \<Rightarrow> None
                | Some c2 \<Rightarrow>
                    (case correct_component BCH_POLY_LCW3 32 (syn_lcw3 t) v3 of
                       None \<Rightarrow> None
                     | Some c3 \<Rightarrow>
                         let lcw2_data = uint (drop_bit 8 c2) AND 0x3F;
                             lcw3_data = drop_bit 5 c3
                         in Some \<lparr>ft = uint (drop_bit 4 c1) AND 0x7, lcw_ok = 1,
                                  lcw_ft = drop_bit 4 lcw2_data AND 0x3, lcw_code = lcw2_data AND 0xF,
                                  lcw3_val = lcw3_data,
                                  ec_lcw = of_bool (s1 \<noteq> 0) + of_bool (s2 \<noteq> 0) + of_bool (s3 \<noteq> 0)\<rparr>)))"

subsection \<open>Payload\<close>

text \<open>
  The chunks of one block, at the given offsets. The state is the decoded stream and the number of
  blocks with corrections; the flag says that decoding stopped at an uncorrectable chunk.
\<close>

type_synonym da_state = "u8 list \<times> int"

fun da_chunks ::
  "ida_tables \<Rightarrow> nat \<Rightarrow> u8 list \<Rightarrow> real list option \<Rightarrow> nat \<Rightarrow> nat list \<Rightarrow> da_state \<Rightarrow> da_state \<times> bool" where
  "da_chunks t chase combined lcombined max_bch [] st = (st, False)"
| "da_chunks t chase combined lcombined max_bch (off # offs) st =
     (if length (fst st) + BCH_DA_DATA > max_bch then (st, False)
      else case chase_bch_da t chase (drop off combined) (map_option (drop off) lcombined) of
             None \<Rightarrow> (st, True)
           | Some (n, d, fx) \<Rightarrow>
               da_chunks t chase combined lcombined max_bch offs (fst st @ d, snd st + fx))"

definition da_order :: "nat list" where "da_order = [3, 1, 2, 0]"

definition da_block ::
  "ida_tables \<Rightarrow> nat \<Rightarrow> u8 list \<Rightarrow> real list option \<Rightarrow> nat \<Rightarrow> da_state \<Rightarrow> da_state \<times> bool" where
  "da_block t chase block block_llr max_bch st =
     (let (half1, half2) = de_interleave_n block 62;
          combined = half1 @ half2;
          lcombined = map_option (\<lambda>l. case de_interleave_llr_n l 62 of (l1, l2) \<Rightarrow> l1 @ l2) block_llr
      in da_chunks t chase combined lcombined max_bch (map (\<lambda>c. c * 31) da_order) st)"

fun da_blocks ::
  "ida_tables \<Rightarrow> nat \<Rightarrow> u8 list \<Rightarrow> real list option \<Rightarrow> nat \<Rightarrow> nat list \<Rightarrow> da_state \<Rightarrow> da_state \<times> bool" where
  "da_blocks t chase data dllr max_bch [] st = (st, False)"
| "da_blocks t chase data dllr max_bch (blk # blks) st =
     (case da_block t chase (drop (blk * 124) data) (map_option (drop (blk * 124)) dllr) max_bch st of
        (st', True) \<Rightarrow> (st', True)
      | (st', False) \<Rightarrow> da_blocks t chase data dllr max_bch blks st')"

text \<open>The chunk loop of the last, partial block.\<close>

function da_tail ::
  "ida_tables \<Rightarrow> nat \<Rightarrow> u8 list \<Rightarrow> real list option \<Rightarrow> nat \<Rightarrow> nat \<Rightarrow> da_state \<Rightarrow> da_state" where
  "da_tail t chase combined lcombined max_bch pos st =
     (if pos + 31 \<le> length combined \<and> length (fst st) + BCH_DA_DATA \<le> max_bch then
        case chase_bch_da t chase (drop pos combined) (map_option (drop pos) lcombined) of
          None \<Rightarrow> st
        | Some (n, d, fx) \<Rightarrow>
            da_tail t chase combined lcombined max_bch (pos + 31) (fst st @ d, snd st + fx)
      else st)"
  by pat_completeness auto
termination by (relation "measure (\<lambda>(t, k, c, l, m, pos, st). length c - pos)") auto

declare da_tail.simps [simp del]

text \<open>An array of 64 elements of which the first ones have been written.\<close>

definition fill64 :: "'a \<Rightarrow> 'a list \<Rightarrow> 'a list" where
  "fill64 u xs = take 64 (xs @ replicate 64 u)"

text \<open>Concatenation of the halves without their first elements, at most 128 elements.\<close>

definition tail_combined :: "'a \<Rightarrow> nat \<Rightarrow> 'a list \<times> 'a list \<Rightarrow> 'a list" where
  "tail_combined u half_len =
     (\<lambda>(h1, h2). take 128 (map ((!) (fill64 u h2)) [1..<half_len] @ map ((!) (fill64 u h1)) [1..<half_len]))"

text \<open>The arguments \<open>u\<close> and \<open>ul\<close> are the values of stack elements that were never written.\<close>

definition descramble_payload ::
  "u8 \<Rightarrow> real \<Rightarrow> ida_tables \<Rightarrow> nat \<Rightarrow> u8 list \<Rightarrow> real list option \<Rightarrow> nat \<Rightarrow> nat \<Rightarrow> da_state" where
  "descramble_payload u ul t chase data dllr data_len max_bch =
     (let n_full = data_len div 124;
          remain = data_len mod 124
      in case da_blocks t chase data dllr max_bch [0..<n_full] ([], 0) of
           (st, True) \<Rightarrow> st
         | (st, False) \<Rightarrow>
             if remain \<ge> 4 \<and> length (fst st) + 2 * (remain div 2 - 1) \<le> max_bch then
               let n_sym_last = remain div 2;
                   h = de_interleave_n (drop (n_full * 124) data) (int n_sym_last);
                   lh = map_option (\<lambda>l. de_interleave_llr_n (drop (n_full * 124) l) (int n_sym_last)) dllr
               in if n_sym_last > 1 \<and> length (fst st) + BCH_DA_DATA \<le> max_bch then
                    da_tail t chase (tail_combined u n_sym_last h)
                      (map_option (tail_combined ul n_sym_last) lh) max_bch 0 st
                  else st
             else st)"

subsection \<open>Text header of the link control word\<close>

definition lcw3_to_bits :: "u32 \<Rightarrow> nat \<Rightarrow> string" where
  "lcw3_to_bits val nbits = map (\<lambda>i. if bit val (nbits - 1 - i) then CHR ''1'' else CHR ''0'') [0..<nbits]"

definition bit_val :: "string \<Rightarrow> nat \<Rightarrow> int" where
  "bit_val s i = int (char_digit (s ! i))"

definition bit_field :: "string \<Rightarrow> nat \<Rightarrow> nat \<Rightarrow> int" where
  "bit_field s a b = fold (\<lambda>i v. push_bit 1 v OR bit_val s i) [a..<b] 0"

definition lcw_maint :: "string \<Rightarrow> int \<Rightarrow> string \<times> string" where
  "lcw_maint b code =
     (if code = 0 then
        (''sync[status:'' @ dec_int (bit_val b 1) @ '',dtoa:'' @ dec_int (bit_field b 3 13) @
           '',dfoa:'' @ dec_int (bit_field b 13 21) @ '']'', [b ! 0, CHR ''|'', b ! 2])
      else if code = 1 then
        (''switch[dtoa:'' @ dec_int (bit_field b 3 13) @ '',dfoa:'' @ dec_int (bit_field b 13 21) @ '']'', take 3 b)
      else if code = 3 then
        (''maint[2][lqi:'' @ dec_int (bit_val b 1 * 2 + bit_val b 2) @ '',power:'' @ dec_int (bit_field b 3 6) @
           '',f_dtoa:'' @ dec_int (bit_field b 6 13) @ '',f_dfoa:'' @ dec_int (bit_field b 13 20) @ '']'',
         [b ! 0, CHR ''|'', b ! 20])
      else if code = 6 then (''geoloc'', b)
      else if code = 12 then
        (''maint[1][lqi:'' @ dec_int (bit_val b 19 * 2 + bit_val b 20) @ '',power:'' @ dec_int (bit_field b 16 19) @ '']'',
         take 16 b)
      else if code = 15 then (''<silent>'', b)
      else (''rsrvd('' @ dec_int code @ '')'', b))"

definition lcw_acchl :: "string \<Rightarrow> int \<Rightarrow> string \<times> string" where
  "lcw_acchl b code =
     (if code = 1 then
        (''acchl[msg_type:'' @ hex_nat (nat (bit_field b 1 4)) @ '',bloc_num:'' @ hex_nat (nat (bit_val b 4)) @
           '',sapi_code:'' @ hex_nat (nat (bit_field b 5 8)) @ '',segm_list:'' @ take 8 (drop 8 b) @ '']'',
         [b ! 0, CHR '',''] @ pad_left CHR ''0'' 2 (hex_nat (nat (bit_field b 16 21))))
      else (''rsrvd('' @ dec_int code @ '')'', b))"

definition lcw_hndof :: "string \<Rightarrow> int \<Rightarrow> string \<times> string" where
  "lcw_hndof b code =
     (if code = 3 then
        (''handoff_resp[cand:'' @ [if bit_val b 2 = 0 then CHR ''P'' else CHR ''S''] @
           '',denied:'' @ dec_int (bit_val b 3) @ '',ref:'' @ dec_int (bit_val b 4) @
           '',slot:'' @ dec_int (1 + bit_val b 6 * 2 + bit_val b 7) @
           '',sband_up:'' @ dec_int (bit_field b 8 13) @ '',sband_dn:'' @ dec_int (bit_field b 13 18) @
           '',access:'' @ dec_int (bit_field b 18 21 + 1) @ '']'',
         take 2 b @ [CHR '','', b ! 5])
      else if code = 12 then (''handoff_cand'', take 11 b @ '','' @ take 10 (drop 11 b))
      else if code = 15 then (''<silent>'', b)
      else (''rsrvd('' @ dec_int code @ '')'', b))"

definition format_lcw_header :: "int \<Rightarrow> lcw \<Rightarrow> nat \<Rightarrow> string" where
  "format_lcw_header ftype l outsz =
     (let b = lcw3_to_bits (lcw3_val l) 21;
          (ty, code, remain) =
            (if lcw_ft l = 0 then (''maint'', lcw_maint b (lcw_code l))
             else if lcw_ft l = 1 then (''acchl'', lcw_acchl b (lcw_code l))
             else if lcw_ft l = 2 then (''hndof'', lcw_hndof b (lcw_code l))
             else (''rsrvd'', ''<'' @ dec_int (lcw_code l) @ ''>'', b));
          raw = snprintf 128 (''LCW('' @ dec_int ftype @ '',T:'' @ ty @ '',C:'' @ snprintf 128 code @ '','' @
                              snprintf 64 remain @ '')'')
      in snprintf outsz (pad_right 110 raw @ '' ''))"

subsection \<open>The decoder\<close>

record ida_burst =
  ib_timestamp :: u64
  ib_frequency :: real
  ib_direction :: ir_direction
  ib_magnitude :: real
  ib_noise :: real
  ib_level :: real
  ib_confidence :: int
  ib_n_symbols :: int
  da_ctr :: int
  da_len :: int
  cont :: int
  payload :: "u8 list"
  payload_len :: int
  crc_ok :: bool
  stored_crc :: u16
  computed_crc :: u16
  fixederrs :: int
  bch_stream :: "u8 list"
  bch_len :: int
  burst_lcw :: lcw
  lcw_header :: string

definition pack_byte :: "u8 list \<Rightarrow> nat \<Rightarrow> u8" where
  "pack_byte bs off = fold (\<lambda>b byte. push_bit 1 byte OR bs ! (off + b)) [0..<8] 0"

text \<open>\<^verbatim>\<open>crc_buf[bit_pos / 8] |= b << (7 - bit_pos % 8)\<close>.\<close>

definition put_bit :: "u8 list \<Rightarrow> nat \<Rightarrow> u8 \<Rightarrow> u8 list" where
  "put_bit buf bit_pos b =
     buf[bit_pos div 8 := buf ! (bit_pos div 8) OR push_bit (7 - bit_pos mod 8) b]"

definition crc_buffer :: "u8 list \<Rightarrow> nat \<Rightarrow> u8 list \<times> nat" where
  "crc_buffer bs blen =
     (let st = fold (\<lambda>i (buf, bit_pos). (put_bit buf bit_pos (bs ! i), bit_pos + 1)) [0..<20] (replicate 64 0, 0);
          st = (fst st, snd st + 12)
      in fold (\<lambda>i (buf, bit_pos). (put_bit buf bit_pos (bs ! i), bit_pos + 1)) [20..<blen - 4] st)"

definition ida_crc :: "u8 list \<Rightarrow> nat \<Rightarrow> int \<Rightarrow> bool \<times> u16 \<times> u16" where
  "ida_crc bs blen dalen =
     (if dalen > 0 \<and> blen \<ge> 196 then
        let stored = fold (\<lambda>i c. push_bit 1 c OR ucast (bs ! (9 * 20 + i))) [0..<16] 0;
            crc_bits = 20 + 12 + (blen - 20 - 4);
            crc_bytes = (crc_bits + 7) div 8
        in if crc_bytes \<le> 64 then
             let (crc_buf, bit_pos) = crc_buffer bs blen;
                 computed = crc_ccitt crc_buf ((bit_pos + 7) div 8)
             in (computed = 0, stored, computed)
           else (False, stored, 0)
      else (False, 0, 0))"

definition bit_int :: "u8 list \<Rightarrow> nat \<Rightarrow> int" where
  "bit_int bs i = uint (bs ! i)"

definition ida_burst_of :: "demod_frame \<Rightarrow> lcw \<Rightarrow> u8 list \<Rightarrow> int \<Rightarrow> ida_burst option" where
  "ida_burst_of frame l bs fixedn =
     (let blen = length bs;
          contf = bit_int bs 3;
          ctr = push_bit 2 (bit_int bs 5) OR push_bit 1 (bit_int bs 6) OR bit_int bs 7;
          dalen = push_bit 4 (bit_int bs 11) OR push_bit 3 (bit_int bs 12) OR push_bit 2 (bit_int bs 13) OR
                  push_bit 1 (bit_int bs 14) OR bit_int bs 15;
          zero1 = push_bit 2 (bit_int bs 17) OR push_bit 1 (bit_int bs 18) OR bit_int bs 19
      in if zero1 \<noteq> 0 then None
         else if dalen > 20 then None
         else
           let pl = map (\<lambda>i. pack_byte bs (20 + i * 8)) [0..<20];
               (ok, stored, computed) = ida_crc bs blen dalen;
               plen = (if dalen > 0 then dalen else 20)
           in Some \<lparr>ib_timestamp = fr_timestamp frame, ib_frequency = fr_center_frequency frame,
                ib_direction = fr_direction frame, ib_magnitude = fr_magnitude frame, ib_noise = fr_noise frame,
                ib_level = fr_level frame, ib_confidence = fr_confidence frame,
                ib_n_symbols = fr_n_payload_symbols frame,
                da_ctr = ctr, da_len = dalen, cont = contf,
                payload = take (nat plen) pl @ replicate (32 - nat plen) 0, payload_len = plen,
                crc_ok = ok, stored_crc = stored, computed_crc = computed, fixederrs = fixedn,
                bch_stream = take 256 (bs @ replicate 256 0), bch_len = int blen, burst_lcw = l,
                lcw_header = format_lcw_header (ft l) l 128\<rparr>)"

definition ida_decode :: "u8 \<Rightarrow> real \<Rightarrow> ida_tables \<Rightarrow> nat \<Rightarrow> demod_frame \<Rightarrow> ida_burst option" where
  "ida_decode u ul t chase frame =
     (if fr_n_bits frame < 24 + 46 + 124 then None
      else if fr_direction frame \<noteq> DIR_DOWNLINK \<and> fr_direction frame \<noteq> DIR_UPLINK then None
      else
        let data = drop 24 (fr_bits frame);
            data_llr = map_option (drop 24) (fr_llr frame);
            data_len = fr_n_bits frame - 24
        in case decode_lcw t data data_len of
             None \<Rightarrow> None
           | Some l \<Rightarrow>
               if ft l \<noteq> 2 \<and> ft l \<noteq> 6 \<and> ft l \<noteq> 7 then None
               else
                 let payload_data = drop 46 data;
                     payload_llr = map_option (drop 46) data_llr;
                     plen = data_len - 46
                 in if plen < 124 then None
                    else
                      let (bs, fixedn) = descramble_payload u ul t chase payload_data payload_llr (nat plen) 512
                      in if length bs < 196 then None else ida_burst_of frame l bs fixedn)"

subsection \<open>The codes of the data burst\<close>

lemma no_sum_da: "no_sum 3 (map unat (tl (xpowers BCH_POLY_DA 1 31))) 1"
  unfolding BCH_POLY_DA_def numeral_3_eq_3 by (simp add: distance_eval)

interpretation da: double_error_code BCH_POLY_DA 31 2048
proof unfold_locales
  show "BCH_POLY_DA \<noteq> 0" by (simp add: BCH_POLY_DA_def)
  show "(2048 :: nat) = 2 ^ poly_deg BCH_POLY_DA" by (simp add: BCH_POLY_DA_def eval_simps)
  show "gf2_remainder BCH_POLY_DA e \<noteq> 0" if "e < 2 ^ 31" "e \<noteq> 0" "weight e \<le> 4" for e
    by (rule minimum_distance [OF _ _ _ _ _ no_sum_da])
      (use that in \<open>simp_all add: BCH_POLY_DA_def eval_simps\<close>)
qed simp

lemma no_sum_lcw:
  "no_sum 1 (map unat (tl (xpowers BCH_POLY_LCW1 1 7))) 1"
  "no_sum 1 (map unat (tl (xpowers BCH_POLY_LCW2 1 14))) 1"
  "no_sum 1 (map unat (tl (xpowers BCH_POLY_LCW3 1 26))) 1"
  unfolding BCH_POLY_LCW1_def BCH_POLY_LCW2_def BCH_POLY_LCW3_def One_nat_def
  by (simp_all add: distance_eval)

interpretation lcw1: single_error_code BCH_POLY_LCW1 7 16
proof unfold_locales
  show "BCH_POLY_LCW1 \<noteq> 0" by (simp add: BCH_POLY_LCW1_def)
  show "(16 :: nat) = 2 ^ poly_deg BCH_POLY_LCW1" by (simp add: BCH_POLY_LCW1_def eval_simps)
  show "gf2_remainder BCH_POLY_LCW1 e \<noteq> 0" if "e < 2 ^ 7" "e \<noteq> 0" "weight e \<le> 2" for e
    by (rule minimum_distance [OF _ _ _ _ _ no_sum_lcw(1)])
      (use that in \<open>simp_all add: BCH_POLY_LCW1_def eval_simps\<close>)
qed simp

interpretation lcw2: single_error_code BCH_POLY_LCW2 14 256
proof unfold_locales
  show "BCH_POLY_LCW2 \<noteq> 0" by (simp add: BCH_POLY_LCW2_def)
  show "(256 :: nat) = 2 ^ poly_deg BCH_POLY_LCW2" by (simp add: BCH_POLY_LCW2_def eval_simps)
  show "gf2_remainder BCH_POLY_LCW2 e \<noteq> 0" if "e < 2 ^ 14" "e \<noteq> 0" "weight e \<le> 2" for e
    by (rule minimum_distance [OF _ _ _ _ _ no_sum_lcw(2)])
      (use that in \<open>simp_all add: BCH_POLY_LCW2_def eval_simps\<close>)
qed simp

interpretation lcw3: single_error_code BCH_POLY_LCW3 26 32
proof unfold_locales
  show "BCH_POLY_LCW3 \<noteq> 0" by (simp add: BCH_POLY_LCW3_def)
  show "(32 :: nat) = 2 ^ poly_deg BCH_POLY_LCW3" by (simp add: BCH_POLY_LCW3_def eval_simps)
  show "gf2_remainder BCH_POLY_LCW3 e \<noteq> 0" if "e < 2 ^ 26" "e \<noteq> 0" "weight e \<le> 2" for e
    by (rule minimum_distance [OF _ _ _ _ _ no_sum_lcw(3)])
      (use that in \<open>simp_all add: BCH_POLY_LCW3_def eval_simps\<close>)
qed simp

lemma poly_deg_ida:
  "poly_deg BCH_POLY_DA = 11" "poly_deg BCH_POLY_LCW1 = 4" "poly_deg BCH_POLY_LCW2 = 8" "poly_deg BCH_POLY_LCW3 = 5"
  by (simp_all add: BCH_POLY_DA_def BCH_POLY_LCW1_def BCH_POLY_LCW2_def BCH_POLY_LCW3_def eval_simps)

lemma encode_facts:
  assumes "poly \<noteq> 0" and "d < 2 ^ k" and "k + poly_deg poly < 32"
  shows "gf2_encode poly d < 2 ^ (k + poly_deg poly)" "gf2_remainder poly (gf2_encode poly d) = 0"
    "drop_bit (poly_deg poly) (gf2_encode poly d) = d"
proof -
  show "gf2_encode poly d < 2 ^ (k + poly_deg poly)" using gf2_encode_less [OF assms] .
  show "gf2_remainder poly (gf2_encode poly d) = 0" by (rule gf2_encode_codeword [OF assms(1)])
  have "j + poly_deg poly < 32" if "bit d j" for j using bit_below [OF assms(2) _ that] assms(3) by simp
  then show "drop_bit (poly_deg poly) (gf2_encode poly d) = d"
    using gf2_encode_data [OF assms(1), of d] assms(3) by (force simp: add.commute)
qed

subsection \<open>Chase decoding\<close>

lemma da_result_bits [simp]: "length (fst (snd (da_result n v fx))) = 20"
  by (simp add: da_result_def BCH_DA_DATA_def)

lemma syn_da_init: "syn_da ida_decode_init = build_syndrome_table BCH_POLY_DA 31 11 2 2048"
  by (simp add: ida_decode_init_def BCH_DA_TABLE_def build_syn_eq [where sb = 11])

abbreviation da_decode :: "u32 \<Rightarrow> (int \<times> u32) option" where
  "da_decode v \<equiv> syndrome_decode BCH_POLY_DA 2048 (syn_da ida_decode_init) v"

lemma chase_search_Cons:
  "chase_search ida_decode_init fm k base (m # ms) =
     (case da_decode (apply_flips fm k m base) of
        None \<Rightarrow> chase_search ida_decode_init fm k base ms
      | Some (n, c) \<Rightarrow> Some (da_result n c 1))"
  by (simp add: syndrome_decode_def Let_def BCH_DA_TABLE_def)

lemma chase_bch_da_alt:
  "chase_bch_da ida_decode_init chase block l =
     (let v = bits_to_uint block 31
      in case da_decode v of
           Some (n, c) \<Rightarrow> Some (da_result n c (of_bool (gf2_remainder BCH_POLY_DA v \<noteq> 0)))
         | None \<Rightarrow> (case l of None \<Rightarrow> None
                    | Some ll \<Rightarrow> chase_search ida_decode_init (flip_masks ll chase) chase v [1..<2 ^ chase]))"
  by (simp add: chase_bch_da_def syndrome_decode_def Let_def BCH_DA_TABLE_def split: option.split)

lemma bits_to_uint_less: "n < 32 \<Longrightarrow> bits_to_uint bs n < 2 ^ n"
  by (subst word_less_exp_iff) (auto simp: bit_bits_to_uint)

lemma flip_masks_single:
  assumes "b < k"
  shows "\<exists>j<31. flip_masks l k ! b = 2 ^ j"
proof -
  have "flip_masks l k ! b = push_bit (30 - least_reliable l k ! b) 1"
    using assms by (simp add: flip_masks_def)
  moreover have "30 - least_reliable l k ! b < 31" by simp
  ultimately show ?thesis by (auto simp: push_bit_eq_mult)
qed

lemma xor_mid: "(a XOR b) XOR (b XOR c) = a XOR c" for a b c :: "'a::len word"
  by (metis xor.assoc xor_cancel(1))

lemma apply_flips_bound:
  assumes "\<And>b. b < k \<Longrightarrow> \<exists>j<31. fm ! b = (2 :: u32) ^ j" and "v < 2 ^ 31"
  shows "apply_flips fm k m v < 2 ^ 31" "weight (v XOR apply_flips fm k m v) \<le> k"
proof -
  have "fold (\<lambda>b f. if bit m b then f XOR fm ! b else f) [0..<n] v < 2 ^ 31 \<and>
      weight (v XOR fold (\<lambda>b f. if bit m b then f XOR fm ! b else f) [0..<n] v) \<le> n" if "n \<le> k" for n
    using that
  proof (induction n)
    case 0
    then show ?case using assms(2) by simp
  next
    case (Suc n)
    let ?f = "fold (\<lambda>b f. if bit m b then f XOR fm ! b else f) [0..<n] v"
    obtain j where j: "j < 31" "fm ! n = 2 ^ j" using assms(1) [of n] Suc.prems by auto
    have "(2 :: u32) ^ j < 2 ^ 31" using da.exp_less [OF j(1)] .
    then have a: "?f XOR fm ! n < 2 ^ 31" using Suc j(2) da.xor_less by simp
    have "weight (v XOR (?f XOR fm ! n)) \<le> weight (v XOR ?f) + weight (fm ! n)"
      using weight_xor_le [of "v XOR ?f" "fm ! n"] by (simp add: xor.assoc)
    then show ?case using Suc a weight_single [of j] j by auto
  qed
  from this [of k] show "apply_flips fm k m v < 2 ^ 31" "weight (v XOR apply_flips fm k m v) \<le> k"
    by (simp_all add: apply_flips_def)
qed

lemma da_decode_sound:
  assumes "da_decode v = Some (n, c)" and "v < 2 ^ 31"
  shows "gf2_remainder BCH_POLY_DA c = 0" "c < 2 ^ 31" "n = int (weight (v XOR c))" "n \<le> 2" "0 \<le> n"
  using da.syndrome_decode_sound [OF assms(1) [unfolded syn_da_init] assms(2)] by blast+

lemma chase_search_sound:
  assumes "chase_search ida_decode_init (flip_masks l k) k v ms = Some (n, d, fx)" and "v < 2 ^ 31"
  shows "\<exists>c. gf2_remainder BCH_POLY_DA c = 0 \<and> c < 2 ^ 31 \<and> d = uint_to_bits (drop_bit 11 c) 20 \<and>
    0 \<le> n \<and> n \<le> 2 \<and> fx = 1 \<and> weight (v XOR c) \<le> k + nat n"
  using assms(1)
proof (induction ms)
  case (Cons m ms)
  let ?f = "apply_flips (flip_masks l k) k m v"
  have b: "?f < 2 ^ 31" "weight (v XOR ?f) \<le> k"
    using apply_flips_bound [OF flip_masks_single assms(2), of k k l m] by simp_all
  show ?case
  proof (cases "da_decode ?f")
    case None
    then show ?thesis using Cons by (simp only: chase_search_Cons) simp
  next
    case (Some r)
    then obtain c where r: "da_decode ?f = Some (n, c)" "d = uint_to_bits (drop_bit 11 c) 20" "fx = 1"
      using Cons.prems
      by (cases r) (auto simp only: chase_search_Cons option.case prod.case da_result_def BCH_DA_SYN_def
        BCH_DA_DATA_def option.inject prod.inject)
    note s = da_decode_sound [OF r(1) b(1)]
    have "weight (v XOR c) \<le> weight (v XOR ?f) + weight (?f XOR c)"
      using weight_xor_le [of "v XOR ?f" "?f XOR c"] by (simp only: xor_mid)
    then have "weight (v XOR c) \<le> k + nat n" using b(2) s(3) by simp
    then show ?thesis using s r by blast
  qed
qed simp

lemma chase_bch_da_sound:
  assumes "chase_bch_da ida_decode_init k block l = Some (n, d, fx)"
  shows "\<exists>c. gf2_remainder BCH_POLY_DA c = 0 \<and> c < 2 ^ 31 \<and> d = uint_to_bits (drop_bit 11 c) 20 \<and>
    0 \<le> n \<and> n \<le> 2 \<and> fx \<in> {0, 1} \<and>
    weight (bits_to_uint block 31 XOR c) \<le> nat n + (if l = None then 0 else k)"
proof (cases "da_decode (bits_to_uint block 31)")
  case (Some r)
  then obtain c where r: "da_decode (bits_to_uint block 31) = Some (n, c)" "d = uint_to_bits (drop_bit 11 c) 20"
      "fx \<in> {0, 1}"
    using assms by (cases r) (auto simp: chase_bch_da_alt Let_def da_result_def BCH_DA_SYN_def BCH_DA_DATA_def)
  then show ?thesis using da_decode_sound [OF r(1)] bits_to_uint_less [of 31 block] by auto
next
  case None
  then obtain ll where l: "l = Some ll"
      "chase_search ida_decode_init (flip_masks ll k) k (bits_to_uint block 31) [1..<2 ^ k] = Some (n, d, fx)"
    using assms by (auto simp: chase_bch_da_alt Let_def split: option.splits)
  show ?thesis using chase_search_sound [OF l(2)] bits_to_uint_less [of 31 block] by (auto simp: l(1) add.commute)
qed

lemma chase_bch_da_length:
  "chase_bch_da ida_decode_init k block l = Some (n, d, fx) \<Longrightarrow> length d = 20 \<and> bit_list d \<and> fx \<in> {0, 1}"
  using chase_bch_da_sound by (metis length_uint_to_bits bit_list_uint_to_bits)

lemma chase_search_complete:
  assumes "m \<in> set ms" and "da_decode (apply_flips fm k m v) \<noteq> None"
  shows "chase_search ida_decode_init fm k v ms \<noteq> None"
  using assms(1)
proof (induction ms)
  case (Cons x xs)
  then show ?case using assms(2) by (auto simp only: chase_search_Cons set_simps split: option.split)
qed simp

subsection \<open>The least reliable positions\<close>

lemma fold_argmin:
  fixes f :: "nat \<Rightarrow> real"
  assumes "i \<le> n"
  defines "m \<equiv> fold (\<lambda>j m. if f j < f m then j else m) [i + 1..<n] i"
  shows "i \<le> m" "m < n \<or> m = i" "\<forall>j. i \<le> j \<and> j < n \<longrightarrow> f m \<le> f j"
proof -
  let ?g = "\<lambda>n. fold (\<lambda>j m. if f j < f m then j else m) [i + 1..<n] i"
  have "i \<le> ?g k \<and> (?g k < k \<or> ?g k = i) \<and> (\<forall>j. i \<le> j \<and> j < k \<longrightarrow> f (?g k) \<le> f j)" if "i < k" for k
    using that
  proof (induction k)
    case (Suc k)
    show ?case
    proof (cases "i = k")
      case True
      then show ?thesis by (auto simp: less_Suc_eq)
    next
      case False
      then have "?g (Suc k) = (if f k < f (?g k) then k else ?g k)" and ik: "i < k" using Suc.prems by auto
      then show ?thesis using Suc.IH [OF ik] by (auto simp: less_Suc_eq intro: less_imp_le order.trans)
    qed
  qed simp
  moreover have "?g i = i" by simp
  ultimately show "i \<le> m" "m < n \<or> m = i" "\<forall>j. i \<le> j \<and> j < n \<longrightarrow> f m \<le> f j"
    unfolding m_def using assms(1) by (cases "i < n"; simp)+
qed

lemma select_min_spec:
  assumes "length pos = 31" and "i < 31"
  shows "length (select_min l i pos) = 31" "mset (select_min l i pos) = mset pos"
    "\<forall>j<i. select_min l i pos ! j = pos ! j"
    "\<forall>j. i \<le> j \<and> j < 31 \<longrightarrow> l ! (select_min l i pos ! i) \<le> l ! (select_min l i pos ! j)"
    "\<forall>j. i \<le> j \<and> j < 31 \<longrightarrow> (\<exists>j'. i \<le> j' \<and> j' < 31 \<and> select_min l i pos ! j = pos ! j')"
proof -
  define m where "m = fold (\<lambda>j m. if l ! (pos ! j) < l ! (pos ! m) then j else m) [i + 1..<31] i"
  note mm = fold_argmin [of i 31 "\<lambda>j. l ! (pos ! j)", folded m_def]
  have m: "i \<le> m" "m < 31" "\<forall>j. i \<le> j \<and> j < 31 \<longrightarrow> l ! (pos ! m) \<le> l ! (pos ! j)" using mm assms(2) by auto
  have s: "select_min l i pos = pos[i := pos ! m, m := pos ! i]"
    by (simp add: select_min_def m_def Let_def)
  show "length (select_min l i pos) = 31" using assms by (simp add: s)
  show "mset (select_min l i pos) = mset pos" using m assms by (simp add: s mset_swap)
  show "\<forall>j<i. select_min l i pos ! j = pos ! j" using m assms by (auto simp: s nth_list_update)
  have n: "select_min l i pos ! j = (if j = m then pos ! i else if j = i then pos ! m else pos ! j)" if "j < 31" for j
    using that m assms by (auto simp: s nth_list_update)
  show "\<forall>j. i \<le> j \<and> j < 31 \<longrightarrow> l ! (select_min l i pos ! i) \<le> l ! (select_min l i pos ! j)"
    using m assms(2) by (auto simp: n)
  show "\<forall>j. i \<le> j \<and> j < 31 \<longrightarrow> (\<exists>j'. i \<le> j' \<and> j' < 31 \<and> select_min l i pos ! j = pos ! j')"
    using m assms(2) by (auto simp: n)
qed

lemma least_reliable_Suc: "least_reliable l (Suc k) = select_min l k (least_reliable l k)"
  by (simp add: least_reliable_def)

lemma least_reliable_spec:
  assumes "k \<le> 31"
  shows "length (least_reliable l k) = 31 \<and> mset (least_reliable l k) = mset [0..<31] \<and>
    (\<forall>i j. i < k \<and> i \<le> j \<and> j < 31 \<longrightarrow> l ! (least_reliable l k ! i) \<le> l ! (least_reliable l k ! j))"
  using assms
proof (induction k)
  case 0
  then show ?case by (simp add: least_reliable_def)
next
  case (Suc k)
  let ?p = "least_reliable l k"
  have IH: "length ?p = 31" "mset ?p = mset [0..<31]"
    "\<And>i j. i < k \<Longrightarrow> i \<le> j \<Longrightarrow> j < 31 \<Longrightarrow> l ! (?p ! i) \<le> l ! (?p ! j)" using Suc by auto
  note s = select_min_spec [OF IH(1), where i = k and l = l]
  have "l ! (select_min l k ?p ! i) \<le> l ! (select_min l k ?p ! j)" if ij: "i < Suc k" "i \<le> j" "j < 31" for i j
  proof (cases "i = k")
    case True
    then show ?thesis using s(4) that Suc.prems by simp
  next
    case False
    then have i: "i < k" using that by simp
    show ?thesis
    proof (cases "j < k")
      case True
      then show ?thesis using s(3) i IH(3) that Suc.prems by simp
    next
      case False
      then obtain j' where "k \<le> j'" "j' < 31" "select_min l k ?p ! j = ?p ! j'" using s(5) ij(3) Suc.prems by (meson not_less Suc_le_lessD)
      then show ?thesis using s(3) i IH(3) [of i j'] Suc.prems by simp
    qed
  qed
  then show ?case unfolding least_reliable_Suc using s(1,2) IH(2) Suc.prems by simp
qed

subsection \<open>Link control word: the transmitter's side\<close>

definition lcw_inv :: "nat list" where
  "lcw_inv = [40, 39, 19, 18, 38, 37, 17, 16, 36, 35, 15, 14, 34, 33, 13, 12, 32, 31, 11, 10, 30, 29,
     9, 8, 28, 27, 7, 6, 26, 25, 5, 4, 24, 23, 3, 2, 22, 21, 1, 0, 20, 45, 44, 43, 42, 41]"

definition swap_index :: "nat \<Rightarrow> nat" where
  "swap_index j = (if even j then j + 1 else j - 1)"

definition spread_lcw :: "u8 list \<Rightarrow> u8 list" where
  "spread_lcw bs = map (\<lambda>j. bs ! (lcw_inv ! swap_index j)) [0..<46]"

text \<open>
  The received words of the three components: code words with their error patterns. Of the second
  one only 13 of the 14 bits are sent.
\<close>

definition lcw_words :: "u32 \<Rightarrow> u32 \<Rightarrow> u32 \<Rightarrow> u32 \<Rightarrow> u32 \<Rightarrow> u32 \<Rightarrow> u32 \<times> u32 \<times> u32" where
  "lcw_words d1 d2 d3 f1 f2 f3 =
     (gf2_encode BCH_POLY_LCW1 d1 XOR f1, gf2_encode BCH_POLY_LCW2 d2 XOR f2, gf2_encode BCH_POLY_LCW3 d3 XOR f3)"

definition tx_lcw :: "u32 \<times> u32 \<times> u32 \<Rightarrow> u8 list" where
  "tx_lcw = (\<lambda>(v1, v2, v3). spread_lcw (uint_to_bits v1 7 @ uint_to_bits (drop_bit 1 v2) 13 @ uint_to_bits v3 26))"

definition lcw_tx_ok :: "u32 \<Rightarrow> u32 \<Rightarrow> u32 \<Rightarrow> u32 \<Rightarrow> u32 \<Rightarrow> u32 \<Rightarrow> bool" where
  "lcw_tx_ok d1 d2 d3 f1 f2 f3 \<longleftrightarrow> d1 < 2 ^ 3 \<and> d2 < 2 ^ 6 \<and> d3 < 2 ^ 21 \<and>
     f1 < 2 ^ 7 \<and> weight f1 \<le> 1 \<and> f2 < 2 ^ 14 \<and> weight f2 \<le> 1 \<and> f3 < 2 ^ 26 \<and> weight f3 \<le> 1 \<and>
     even (gf2_encode BCH_POLY_LCW2 d2 XOR f2)"

lemma swap_index_swap_index [simp]: "swap_index (swap_index j) = j"
  by (auto simp: swap_index_def elim: oddE)

lemma swap_index_less: "j < 46 \<Longrightarrow> swap_index j < 46"
  unfolding swap_index_def by presburger

lemma length_swap_pairs [simp]: "length (swap_pairs d) = 46"
  by (simp add: swap_pairs_def length_concat_pairs)

lemma nth_swap_pairs: "j < 46 \<Longrightarrow> swap_pairs d ! j = d ! swap_index j"
  unfolding swap_pairs_def
  by (subst nth_concat_pairs) (auto simp: swap_index_def elim!: evenE oddE)

lemma lcw_perm_inv: "list_all (\<lambda>i. lcw_perm ! i - 1 < 46 \<and> lcw_inv ! (lcw_perm ! i - 1) = i) [0..<46]"
  by (simp add: lcw_perm_def lcw_inv_def eval_simps upt_rec)

lemma lcw_bits_spread:
  assumes "length bs = 46"
  shows "lcw_bits (spread_lcw bs @ rest) = bs"
proof (rule nth_equalityI)
  fix i assume "i < length (lcw_bits (spread_lcw bs @ rest))"
  then have i: "i < 46" by (simp add: lcw_bits_def)
  then have p: "lcw_perm ! i - 1 < 46" "lcw_inv ! (lcw_perm ! i - 1) = i"
    using lcw_perm_inv by (simp_all add: list_all_iff)
  then show "lcw_bits (spread_lcw bs @ rest) ! i = bs ! i"
    using i swap_index_less [OF p(1)]
    by (simp add: lcw_bits_def nth_swap_pairs nth_append spread_lcw_def)
qed (simp add: lcw_bits_def assms)

context single_error_code
begin

lemma syndrome_flag:
  assumes "gf2_remainder poly c = 0" and "e < 2 ^ nbits" and "weight e \<le> 1"
  shows "of_bool (gf2_remainder poly (c XOR e) \<noteq> 0) = int (weight e)"
proof (cases "e = 0")
  case False
  then have "weight e = 1" using assms(3) weight_0_iff [of e] by linarith
  then show ?thesis using distance3 [OF assms(2) False] by (simp add: syndrome_of_received [OF assms(1)])
qed (simp add: assms(1))

end

lemma correct_component_alt:
  "correct_component poly (of_nat ts) syn v = map_option snd (syndrome_decode poly ts syn v)"
  by (auto simp: correct_component_def syndrome_decode_def Let_def not_le)

lemma correct_components_tx:
  assumes "lcw_tx_ok d1 d2 d3 f1 f2 f3" and "lcw_words d1 d2 d3 f1 f2 f3 = (v1, v2, v3)"
  shows "correct_component BCH_POLY_LCW1 16 (syn_lcw1 ida_decode_init) v1 = Some (gf2_encode BCH_POLY_LCW1 d1)"
    "correct_component BCH_POLY_LCW2 256 (syn_lcw2 ida_decode_init) v2 = Some (gf2_encode BCH_POLY_LCW2 d2)"
    "correct_component BCH_POLY_LCW3 32 (syn_lcw3 ida_decode_init) v3 = Some (gf2_encode BCH_POLY_LCW3 d3)"
proof -
  have v: "v1 = gf2_encode BCH_POLY_LCW1 d1 XOR f1" "v2 = gf2_encode BCH_POLY_LCW2 d2 XOR f2"
    "v3 = gf2_encode BCH_POLY_LCW3 d3 XOR f3" using assms(2) by (simp_all add: lcw_words_def)
  have o: "f1 < 2 ^ 7" "weight f1 \<le> 1" "f2 < 2 ^ 14" "weight f2 \<le> 1" "f3 < 2 ^ 26" "weight f3 \<le> 1"
    using assms(1) by (simp_all add: lcw_tx_ok_def)
  note c = gf2_encode_codeword [OF lcw1.poly_nonzero] gf2_encode_codeword [OF lcw2.poly_nonzero]
    gf2_encode_codeword [OF lcw3.poly_nonzero]
  show "correct_component BCH_POLY_LCW1 16 (syn_lcw1 ida_decode_init) v1 = Some (gf2_encode BCH_POLY_LCW1 d1)"
    using lcw1.syndrome_decode_corrects1 [OF c(1) o(1,2), of 4 1] correct_component_alt [of BCH_POLY_LCW1 16]
    by (simp add: v ida_decode_init_def build_syn_eq [where sb = 4])
  show "correct_component BCH_POLY_LCW2 256 (syn_lcw2 ida_decode_init) v2 = Some (gf2_encode BCH_POLY_LCW2 d2)"
    using lcw2.syndrome_decode_corrects1 [OF c(2) o(3,4), of 8 1] correct_component_alt [of BCH_POLY_LCW2 256]
    by (simp add: v ida_decode_init_def build_syn_eq [where sb = 8])
  show "correct_component BCH_POLY_LCW3 32 (syn_lcw3 ida_decode_init) v3 = Some (gf2_encode BCH_POLY_LCW3 d3)"
    using lcw3.syndrome_decode_corrects1 [OF c(3) o(5,6), of 5 2] correct_component_alt [of BCH_POLY_LCW3 32]
    by (simp add: v ida_decode_init_def build_syn_eq [where sb = 5])
qed

lemma lcw_encode_data:
  assumes "lcw_tx_ok d1 d2 d3 f1 f2 f3"
  shows "drop_bit 4 (gf2_encode BCH_POLY_LCW1 d1) = d1" "drop_bit 8 (gf2_encode BCH_POLY_LCW2 d2) = d2"
    "drop_bit 5 (gf2_encode BCH_POLY_LCW3 d3) = d3"
    "gf2_encode BCH_POLY_LCW1 d1 < 2 ^ 7" "gf2_encode BCH_POLY_LCW2 d2 < 2 ^ 14" "gf2_encode BCH_POLY_LCW3 d3 < 2 ^ 26"
  using assms encode_facts [OF lcw1.poly_nonzero, of d1 3] encode_facts [OF lcw2.poly_nonzero, of d2 6]
    encode_facts [OF lcw3.poly_nonzero, of d3 21]
  by (simp_all add: lcw_tx_ok_def poly_deg_ida)

lemma bits_to_uint_take: "bits_to_uint (uint_to_bits v n @ rest) n = take_bit n v" if "n \<le> 32"
  using that by (simp add: bits_to_uint_append bits_to_uint_uint_to_bits)

lemma tx_lcw_words:
  fixes rest :: "u8 list"
  assumes "lcw_tx_ok d1 d2 d3 f1 f2 f3" and "lcw_words d1 d2 d3 f1 f2 f3 = (v1, v2, v3)"
  defines "bs \<equiv> lcw_bits (tx_lcw (v1, v2, v3) @ rest)"
  shows "bits_to_uint bs 7 = v1" "push_bit 1 (bits_to_uint (drop 7 bs) 13) = v2" "bits_to_uint (drop 20 bs) 26 = v3"
proof -
  have v: "v1 = gf2_encode BCH_POLY_LCW1 d1 XOR f1" "v2 = gf2_encode BCH_POLY_LCW2 d2 XOR f2"
    "v3 = gf2_encode BCH_POLY_LCW3 d3 XOR f3" using assms(2) by (simp_all add: lcw_words_def)
  have o: "f1 < 2 ^ 7" "f2 < 2 ^ 14" "f3 < 2 ^ 26" "even v2"
    using assms(1) by (simp_all add: lcw_tx_ok_def v)
  note e = lcw_encode_data(4-6) [OF assms(1)]
  have l: "v1 < 2 ^ 7" "v2 < 2 ^ 14" "v3 < 2 ^ 26"
    unfolding v by (rule lcw1.xor_less [OF e(1) o(1)] lcw2.xor_less [OF e(2) o(2)] lcw3.xor_less [OF e(3) o(3)])+
  have bs: "bs = uint_to_bits v1 7 @ uint_to_bits (drop_bit 1 v2) 13 @ uint_to_bits v3 26"
    unfolding bs_def tx_lcw_def prod.case by (rule lcw_bits_spread) simp
  show "bits_to_uint bs 7 = v1"
    unfolding bs using bits_to_uint_take [of 7 v1] take_bit_below [OF l(1)] by simp
  have d: "drop 7 bs = uint_to_bits (drop_bit 1 v2) 13 @ uint_to_bits v3 26"
    "drop 20 bs = uint_to_bits v3 26 @ []" unfolding bs by simp_all
  show "bits_to_uint (drop 20 bs) 26 = v3"
    unfolding d using bits_to_uint_take [of 26 v3 "[]"] take_bit_below [OF l(3)] by simp
  show "push_bit 1 (bits_to_uint (drop 7 bs) 13) = v2"
  proof (rule bit_word_eqI)
    fix n
    have "n < 14" if "bit v2 n" using bit_below [OF l(2) _ that] by simp
    moreover have "\<not> bit v2 0" using o(4) by (simp add: bit_0)
    ultimately show "bit (push_bit 1 (bits_to_uint (drop 7 bs) 13)) n = bit v2 n"
      unfolding d bits_to_uint_take [of 13, simplified]
      by (cases n) (auto simp only: bit_push_bit_iff bit_take_bit_iff bit_drop_bit_eq possible_bit_word, auto)
  qed
qed

lemma decode_lcw_tx:
  assumes "lcw_tx_ok d1 d2 d3 f1 f2 f3" and "46 \<le> n"
  shows "decode_lcw ida_decode_init (tx_lcw (lcw_words d1 d2 d3 f1 f2 f3) @ rest) n =
    Some \<lparr>ft = uint d1, lcw_ok = 1, lcw_ft = uint (drop_bit 4 d2), lcw_code = uint (take_bit 4 d2), lcw3_val = d3,
          ec_lcw = int (weight f1 + weight f2 + weight f3)\<rparr>"
proof -
  obtain v1 v2 v3 where w: "lcw_words d1 d2 d3 f1 f2 f3 = (v1, v2, v3)" by (metis prod.exhaust)
  note t = tx_lcw_words [OF assms(1) w, of rest] and c = correct_components_tx [OF assms(1) w]
    and e = lcw_encode_data [OF assms(1)]
  have v: "v1 = gf2_encode BCH_POLY_LCW1 d1 XOR f1" "v2 = gf2_encode BCH_POLY_LCW2 d2 XOR f2"
    "v3 = gf2_encode BCH_POLY_LCW3 d3 XOR f3" using w by (simp_all add: lcw_words_def)
  have o: "f1 < 2 ^ 7" "weight f1 \<le> 1" "f2 < 2 ^ 14" "weight f2 \<le> 1" "f3 < 2 ^ 26" "weight f3 \<le> 1"
    "d1 < 2 ^ 3" "d2 < 2 ^ 6"
    using assms(1) by (simp_all add: lcw_tx_ok_def)
  have s: "of_bool (gf2_remainder BCH_POLY_LCW1 v1 \<noteq> 0) = int (weight f1)"
    "of_bool (gf2_remainder BCH_POLY_LCW2 v2 \<noteq> 0) = int (weight f2)"
    "of_bool (gf2_remainder BCH_POLY_LCW3 v3 \<noteq> 0) = int (weight f3)"
    unfolding v
    by (rule lcw1.syndrome_flag [OF gf2_encode_codeword [OF lcw1.poly_nonzero] o(1,2)]
        lcw2.syndrome_flag [OF gf2_encode_codeword [OF lcw2.poly_nonzero] o(3,4)]
        lcw3.syndrome_flag [OF gf2_encode_codeword [OF lcw3.poly_nonzero] o(5,6)])+
  have m: "(7 :: int) = mask 3" "(0x3F :: int) = mask 6" "(3 :: int) = mask 2" "(0xF :: int) = mask 4"
    by (simp_all add: mask_eq_exp_minus_1)
  have f: "uint d1 AND 7 = uint d1" "uint d2 AND 0x3F = uint d2"
    unfolding m take_bit_eq_mask [symmetric] unsigned_take_bit_eq [symmetric]
    using take_bit_below [OF o(7)] take_bit_below [OF o(8)] by simp_all
  have g: "drop_bit 4 (uint d2) AND 3 = uint (drop_bit 4 d2)" "uint d2 AND 0xF = uint (take_bit 4 d2)"
  proof -
    have "take_bit 2 (drop_bit 4 d2) = drop_bit 4 d2"
    proof (intro bit_word_eqI)
      fix n
      have "n < 2" if "bit d2 (4 + n)" using bit_below [OF o(8) _ that] by simp
      then show "bit (take_bit 2 (drop_bit 4 d2)) n = bit (drop_bit 4 d2) n"
        by (auto simp only: bit_take_bit_iff bit_drop_bit_eq comp_def)
    qed
    moreover have "drop_bit 4 (uint d2) = uint (drop_bit 4 d2)"
      by (rule bit_eqI) (simp only: bit_uint_iff bit_drop_bit_eq comp_def, auto dest: bit_imp_le_length)
    ultimately show "drop_bit 4 (uint d2) AND 3 = uint (drop_bit 4 d2)" "uint d2 AND 0xF = uint (take_bit 4 d2)"
      unfolding m take_bit_eq_mask [symmetric] by (simp_all only: unsigned_take_bit_eq [symmetric])
  qed
  show ?thesis
    using assms(2) unfolding w decode_lcw_def Let_def t c option.case e(1-3) s f g by simp
qed

subsection \<open>Payload: the transmitter's side\<close>

type_synonym da_word = "u32 \<times> u32"

definition tx_da :: "da_word \<Rightarrow> u8 list" where
  "tx_da = (\<lambda>(d, e). uint_to_bits (gf2_encode BCH_POLY_DA d XOR e) 31)"

definition da_ok :: "da_word \<Rightarrow> bool" where
  "da_ok = (\<lambda>(d, e). d < 2 ^ 20 \<and> e < 2 ^ 31 \<and> weight e \<le> 2)"

definition da_bits :: "da_word \<Rightarrow> u8 list" where
  "da_bits = (\<lambda>(d, e). uint_to_bits d 20)"

definition corrected :: "da_word list \<Rightarrow> int" where
  "corrected ws = int (length (filter (\<lambda>(d, e). e \<noteq> 0) ws))"

type_synonym da_quad = "da_word \<times> da_word \<times> da_word \<times> da_word"

definition quad_words :: "da_quad \<Rightarrow> da_word list" where
  "quad_words = (\<lambda>(w1, w2, w3, w4). [w1, w2, w3, w4])"

definition tx_da_block :: "da_quad \<Rightarrow> u8 list" where
  "tx_da_block = (\<lambda>(w1, w2, w3, w4). interleave_n 62 (tx_da w4 @ tx_da w2) (tx_da w3 @ tx_da w1))"

text \<open>The last block has 32 symbols; the first bit of each half is not used.\<close>

definition tx_da_last :: "u8 \<Rightarrow> u8 \<Rightarrow> da_word \<Rightarrow> da_word \<Rightarrow> u8 list" where
  "tx_da_last x y w1 w2 = interleave_n 32 (y # tx_da w2) (x # tx_da w1)"

lemma length_tx_da [simp]: "length (tx_da w) = 31"
  by (simp add: tx_da_def split: prod.split)

lemma length_da_bits [simp]: "length (da_bits w) = 20"
  by (simp add: da_bits_def split: prod.split)

lemma length_tx_da_block [simp]: "length (tx_da_block q) = 124"
  by (simp add: tx_da_block_def split: prod.split)

lemma length_tx_da_last [simp]: "length (tx_da_last x y w1 w2) = 64"
  by (simp add: tx_da_last_def)

lemma corrected_simps [simp]:
  "corrected [] = 0" "corrected (w # ws) = of_bool (snd w \<noteq> 0) + corrected ws"
  "corrected (xs @ ys) = corrected xs + corrected ys"
  by (auto simp: corrected_def split: prod.split)

lemma chase_bch_da_tx:
  assumes "da_ok w"
  shows "chase_bch_da ida_decode_init k (tx_da w @ rest) l =
    Some (int (weight (snd w)), da_bits w, of_bool (snd w \<noteq> 0))"
proof -
  obtain d e where w: "w = (d, e)" by (cases w)
  have d: "d < 2 ^ 20" and e: "e < 2 ^ 31" "weight e \<le> 2" using assms by (auto simp: w da_ok_def)
  let ?c = "gf2_encode BCH_POLY_DA d"
  have c: "?c < 2 ^ 31" "gf2_remainder BCH_POLY_DA ?c = 0" "drop_bit 11 ?c = d"
    using encode_facts [OF da.poly_nonzero d] by (simp_all add: poly_deg_ida)
  have v: "bits_to_uint (tx_da w @ rest) 31 = ?c XOR e"
    using bits_to_uint_take [of 31 "?c XOR e" rest] take_bit_below [OF da.xor_less [OF c(1) e(1)]]
    by (simp add: w tx_da_def)
  have s: "gf2_remainder BCH_POLY_DA (?c XOR e) \<noteq> 0 \<longleftrightarrow> e \<noteq> 0"
    using da.distance5 [OF e(1)] e(2) by (auto simp: da.syndrome_of_received [OF c(2)] gf2_remainder_0)
  have "da_decode (?c XOR e) = Some (int (weight e), ?c)"
    unfolding syn_da_init by (rule da.syndrome_decode_corrects2 [OF c(2) e]) simp
  then show ?thesis unfolding chase_bch_da_alt v Let_def s
    by (simp add: da_result_def BCH_DA_SYN_def BCH_DA_DATA_def c(3) w da_bits_def)
qed

lemma da_chunks_tx:
  assumes "list_all2 (\<lambda>off w. \<exists>rest. drop off combined = tx_da w @ rest) offs ws"
    and "\<forall>w\<in>set ws. da_ok w" and "length (fst st) + 20 * length ws \<le> max_bch"
  shows "da_chunks ida_decode_init k combined l max_bch offs st =
    ((fst st @ concat (map da_bits ws), snd st + corrected ws), False)"
  using assms
proof (induction offs ws arbitrary: st rule: list_all2_induct)
  case (Cons off offs w ws)
  then obtain rest where "drop off combined = tx_da w @ rest" by blast
  moreover have "da_ok w" using Cons.prems by simp
  ultimately show ?case using Cons.prems Cons.IH [of "(fst st @ da_bits w, snd st + of_bool (snd w \<noteq> 0))"]
    by (simp add: chase_bch_da_tx BCH_DA_DATA_def)
qed simp

lemma da_block_tx:
  assumes "\<forall>w\<in>set (quad_words q). da_ok w" and "length (fst st) + 80 \<le> max_bch"
  shows "da_block ida_decode_init k (tx_da_block q @ rest) l max_bch st =
    ((fst st @ concat (map da_bits (quad_words q)), snd st + corrected (quad_words q)), False)"
proof -
  obtain w1 w2 w3 w4 where q: "q = (w1, w2, w3, w4)" by (metis prod.exhaust)
  have "de_interleave_n (tx_da_block q @ rest) 62 = (tx_da w4 @ tx_da w2, tx_da w3 @ tx_da w1)"
    using de_interleave_n_append [of 62 "tx_da_block q" rest]
      de_interleave_n_interleave [of 62 "tx_da w4 @ tx_da w2" "tx_da w3 @ tx_da w1"]
    by (simp add: q tx_da_block_def)
  then show ?thesis
    unfolding da_block_def Let_def
    by (simp only: prod.case) (rule da_chunks_tx,
      use assms in \<open>auto simp: q quad_words_def da_order_def intro!: exI [of _ "[]"]\<close>)
qed

definition quads_words :: "da_quad list \<Rightarrow> da_word list" where
  "quads_words qs = concat (map quad_words qs)"

lemma quads_words_simps [simp]: "quads_words [] = []" "quads_words (q # qs) = quad_words q @ quads_words qs"
  by (simp_all add: quads_words_def)

lemma length_quad_words [simp]: "length (quad_words q) = 4"
  by (simp add: quad_words_def split: prod.split)

lemma length_quads_words [simp]: "length (quads_words qs) = 4 * length qs"
  by (induction qs) simp_all

lemma length_concat_da_bits [simp]: "length (concat (map da_bits ws)) = 20 * length ws"
  by (induction ws) simp_all

lemma da_blocks_tx:
  assumes "\<forall>w\<in>set (quads_words qs). da_ok w" and "length (fst st) + 80 * length qs \<le> max_bch"
    and "length pre = 124 * m"
  shows "da_blocks ida_decode_init k (pre @ concat (map tx_da_block qs) @ rest) l max_bch [m..<m + length qs] st =
    ((fst st @ concat (map da_bits (quads_words qs)), snd st + corrected (quads_words qs)), False)"
  using assms
proof (induction qs arbitrary: st pre m)
  case (Cons q qs)
  have u: "[m..<m + length (q # qs)] = m # [Suc m..<Suc m + length qs]" by (simp add: upt_rec)
  have d: "drop (m * 124) (pre @ concat (map tx_da_block (q # qs)) @ rest) =
      tx_da_block q @ concat (map tx_da_block qs) @ rest"
    using Cons.prems(3) by (simp add: mult.commute)
  have p: "pre @ concat (map tx_da_block (q # qs)) @ rest = (pre @ tx_da_block q) @ concat (map tx_da_block qs) @ rest"
    by simp
  have b: "da_block ida_decode_init k (tx_da_block q @ concat (map tx_da_block qs) @ rest) (map_option (drop (m * 124)) l)
      max_bch st = ((fst st @ concat (map da_bits (quad_words q)), snd st + corrected (quad_words q)), False)"
    by (rule da_block_tx) (use Cons.prems in auto)
  show ?case
    unfolding u da_blocks.simps d b prod.case bool.case
    unfolding p
    by (subst Cons.IH) (use Cons.prems in \<open>auto\<close>)
qed simp

lemma fill64_nth: "i < length xs \<Longrightarrow> i < 64 \<Longrightarrow> fill64 u xs ! i = xs ! i"
  by (simp add: fill64_def nth_append)

lemma tail_combined_full:
  assumes "length h1 = n" "length h2 = n" "0 < n" "n \<le> 64"
  shows "tail_combined u n (h1, h2) = tl h2 @ tl h1"
proof -
  have m: "map ((!) (fill64 u h)) [1..<n] = tl h" if "length h = n" for h :: "'a list"
    using that assms by (intro nth_equalityI) (auto simp: fill64_nth nth_tl)
  show ?thesis unfolding tail_combined_def prod.case m [OF assms(1)] m [OF assms(2)]
    using assms by simp
qed

lemma da_tail_tx:
  assumes "da_ok w1" "da_ok w2" and "length (fst st) + 40 \<le> max_bch"
  shows "da_tail ida_decode_init k (tx_da w1 @ tx_da w2) l max_bch 0 st =
    (fst st @ da_bits w1 @ da_bits w2, snd st + corrected [w1, w2])"
proof -
  have w2: "chase_bch_da ida_decode_init k (tx_da w2) l = Some (int (weight (snd w2)), da_bits w2, of_bool (snd w2 \<noteq> 0))" for l
    using chase_bch_da_tx [OF assms(2), of k "[]"] by simp
  show ?thesis using assms(3)
    by (subst da_tail.simps, subst da_tail.simps, subst da_tail.simps)
      (simp add: chase_bch_da_tx [OF assms(1)] w2 BCH_DA_DATA_def)
qed

lemma descramble_payload_tx:
  assumes "\<forall>w\<in>set (quads_words qs @ [w1, w2]). da_ok w" and "80 * length qs + 62 \<le> max_bch"
  shows "descramble_payload u ul ida_decode_init k
      (concat (map tx_da_block qs) @ tx_da_last x y w1 w2 @ rest) l (124 * length qs + 64) max_bch =
    (concat (map da_bits (quads_words qs @ [w1, w2])), corrected (quads_words qs @ [w1, w2]))"
proof -
  let ?n = "length qs" and ?data = "concat (map tx_da_block qs) @ tx_da_last x y w1 w2 @ rest"
  have dm: "(124 * ?n + 64) div 124 = ?n" "(124 * ?n + 64) mod 124 = 64" by simp_all
  have blocks: "da_blocks ida_decode_init k ?data l max_bch [0..<?n] ([], 0) =
      ((concat (map da_bits (quads_words qs)), corrected (quads_words qs)), False)"
    using da_blocks_tx [of qs "([], 0)" max_bch "[]" 0 k "tx_da_last x y w1 w2 @ rest" l] assms by simp
  have "length (concat (map tx_da_block qs)) = 124 * ?n" by (rule length_concat_const) simp
  then have d: "drop (?n * 124) ?data = tx_da_last x y w1 w2 @ rest" by (simp add: mult.commute)
  have h: "de_interleave_n (tx_da_last x y w1 w2 @ rest) (int (64 div 2)) = (y # tx_da w2, x # tx_da w1)"
    using de_interleave_n_append [of 32 "tx_da_last x y w1 w2" rest]
      de_interleave_n_interleave [of 32 "y # tx_da w2" "x # tx_da w1"]
    by (simp add: tx_da_last_def)
  have t: "tail_combined u (64 div 2) (y # tx_da w2, x # tx_da w1) = tx_da w1 @ tx_da w2"
    by (subst tail_combined_full) simp_all
  show ?thesis
    unfolding descramble_payload_def Let_def dm blocks prod.case bool.case d h t
    using assms by (simp add: da_tail_tx BCH_DA_DATA_def)
qed

subsection \<open>Bytes as bits\<close>

lemma bit_list_nth: "bit_list bs \<Longrightarrow> i < length bs \<Longrightarrow> bs ! i \<in> {0, 1}"
  unfolding bit_list_def using nth_mem by blast

lemma bit_shift_in:
  fixes off :: nat and bs :: "u8 list"
  assumes "bit_list bs" and "off + n \<le> length bs"
  shows "bit (fold (\<lambda>i v. push_bit 1 v OR ucast (bs ! (off + i))) [0..<n] (0 :: 'a::len word)) j \<longleftrightarrow>
    j < n \<and> j < LENGTH('a) \<and> odd (bs ! (off + n - 1 - j))"
  using assms(2)
proof (induction n arbitrary: j)
  case (Suc n)
  have "bs ! (off + n) \<in> {0, 1}" using bit_list_nth [OF assms(1)] Suc.prems by simp
  then have "bit (ucast (bs ! (off + n)) :: 'a word) j \<longleftrightarrow> j = 0 \<and> odd (bs ! (off + n))"
    by (auto simp: bit_1_iff)
  then show ?case using Suc by (cases j) (auto simp only: upt_Suc_append fold_append fold_simps
    comp_apply bit_shl1_or le0, auto)
qed simp

lemma bit_pack_byte:
  assumes "bit_list bs" and "off + 8 \<le> length bs"
  shows "bit (pack_byte bs off) j \<longleftrightarrow> j < 8 \<and> odd (bs ! (off + 7 - j))"
proof -
  have "pack_byte bs off = fold (\<lambda>i v. push_bit 1 v OR ucast (bs ! (off + i))) [0..<8] 0"
    by (simp only: pack_byte_def ucast_id)
  moreover have "off + 8 - 1 - j = off + 7 - j" by simp
  ultimately show ?thesis using bit_shift_in [OF assms, where 'a = 8, of j] by auto
qed

definition byte_bits :: "u8 \<Rightarrow> u8 list" where
  "byte_bits b = map (\<lambda>j. if bit b (7 - j) then 1 else 0) [0..<8]"

definition bytes_bits :: "u8 list \<Rightarrow> u8 list" where
  "bytes_bits bs = concat (map byte_bits bs)"

lemma length_byte_bits [simp]: "length (byte_bits b) = 8"
  by (simp add: byte_bits_def)

lemma length_bytes_bits [simp]: "length (bytes_bits bs) = 8 * length bs"
  unfolding bytes_bits_def by (rule length_concat_const) simp

lemma bytes_bits_append [simp]: "bytes_bits (xs @ ys) = bytes_bits xs @ bytes_bits ys"
  by (simp add: bytes_bits_def)

lemma bytes_bits_Cons: "bytes_bits (x # xs) = byte_bits x @ bytes_bits xs"
  by (simp add: bytes_bits_def)

lemma bit_list_bytes_bits [simp]: "bit_list (bytes_bits bs)"
  by (auto simp: bit_list_def bytes_bits_def byte_bits_def split: if_splits)

lemma nth_bytes_bits:
  assumes "r < 8"
  shows "k < length bs \<Longrightarrow> bytes_bits bs ! (8 * k + r) = (if bit (bs ! k) (7 - r) then 1 else 0)"
proof (induction bs arbitrary: k)
  case (Cons b bs)
  then show ?case using assms by (cases k) (auto simp: bytes_bits_Cons nth_append byte_bits_def)
qed simp

lemma pack_bytes_bits:
  assumes "bit_list pre" and "k < length bs" and "bit_list post"
  shows "pack_byte (pre @ bytes_bits bs @ post) (length pre + k * 8) = bs ! k"
proof (rule bit_word_eqI)
  fix j assume "j < LENGTH(8)"
  then have j: "j < 8" by simp
  have le: "length pre + k * 8 + 8 \<le> length (pre @ bytes_bits bs @ post)" using assms(2) by simp
  define r where "r = 7 - j"
  have r: "r < 8" "length pre + k * 8 + 7 - j = length pre + (8 * k + r)" "7 - r = j" "8 * k + r < 8 * length bs"
    using j assms(2) by (simp_all add: r_def)
  have "(pre @ bytes_bits bs @ post) ! (length pre + (8 * k + r)) = bytes_bits bs ! (8 * k + r)"
    using r(4) by (simp only: nth_append_length_plus) (simp add: nth_append)
  then show "bit (pack_byte (pre @ bytes_bits bs @ post) (length pre + k * 8)) j = bit (bs ! k) j"
    using j nth_bytes_bits [OF r(1) assms(2)] assms r(3)
    by (subst bit_pack_byte [OF _ le]) (simp_all add: r(2))
qed

definition pack_bits :: "u8 list \<Rightarrow> nat \<Rightarrow> u8 list" where
  "pack_bits bs n = map (\<lambda>k. pack_byte bs (8 * k)) [0..<n]"

lemma bytes_bits_pack:
  assumes "bit_list bs" and "length bs = 8 * n"
  shows "bytes_bits (pack_bits bs n) = bs"
proof (rule nth_equalityI)
  fix i assume "i < length (bytes_bits (pack_bits bs n))"
  then have i: "i < 8 * n" by (simp add: pack_bits_def)
  define k r where "k = i div 8" and "r = i mod 8"
  have kr: "i = 8 * k + r" "r < 8" "k < n" using i by (simp_all add: k_def r_def)
  have "8 * k + 8 \<le> length bs" using kr assms(2) by simp
  note b = bit_pack_byte [OF assms(1) this, of "7 - r"]
  have "bs ! i \<in> {0, 1}" using bit_list_nth [OF assms(1)] assms(2) i by simp
  moreover have "8 * k + 7 - (7 - r) = i" using kr by linarith
  ultimately show "bytes_bits (pack_bits bs n) ! i = bs ! i"
    using b kr nth_bytes_bits [OF kr(2), of k "pack_bits bs n"] by (auto simp: pack_bits_def)
qed (simp add: assms(2) pack_bits_def)

subsection \<open>The checksum buffer\<close>

definition bit_at :: "u8 list \<Rightarrow> nat \<Rightarrow> bool" where
  "bit_at buf q = bit (buf ! (q div 8)) (7 - q mod 8)"

definition put_bits :: "u8 list \<Rightarrow> u8 list \<times> nat \<Rightarrow> u8 list \<times> nat" where
  "put_bits = fold (\<lambda>b (buf, p). (put_bit buf p b, p + 1))"

lemma put_bits_Cons [simp]: "put_bits (b # bs) (buf, p) = put_bits bs (put_bit buf p b, p + 1)"
  by (simp add: put_bits_def)

lemma length_put_bit [simp]: "length (put_bit buf p b) = length buf"
  by (simp add: put_bit_def)

lemma bit_at_put_bit:
  assumes "b \<in> {0, 1}" and "q < 8 * length buf" and "p < 8 * length buf"
  shows "bit_at (put_bit buf p b) q \<longleftrightarrow> bit_at buf q \<or> (q = p \<and> b = 1)"
proof -
  have l: "q div 8 < length buf" "p div 8 < length buf" using assms by auto
  have "q mod 8 < 8" "p mod 8 < 8" by simp_all
  then have "7 - q mod 8 = 7 - p mod 8 \<longleftrightarrow> q mod 8 = p mod 8" by linarith
  then have e: "q div 8 = p div 8 \<Longrightarrow> (7 - q mod 8 = 7 - p mod 8 \<longleftrightarrow> q = p)" by (metis mult_div_mod_eq)
  have "bit (push_bit (7 - p mod 8) b) i \<longleftrightarrow> i = 7 - p mod 8 \<and> b = 1" for i
    using assms(1) by (auto simp: bit_simps bit_1_iff)
  then show ?thesis using l e
    by (auto simp: bit_at_def put_bit_def nth_list_update bit_or_iff)
qed

lemma put_bits_spec:
  assumes "bit_list bs" and "p + length bs \<le> 8 * length buf"
  shows "length (fst (put_bits bs (buf, p))) = length buf \<and> snd (put_bits bs (buf, p)) = p + length bs \<and>
    (\<forall>q < 8 * length buf. bit_at (fst (put_bits bs (buf, p))) q \<longleftrightarrow>
       bit_at buf q \<or> (p \<le> q \<and> q < p + length bs \<and> bs ! (q - p) = 1))"
  using assms
proof (induction bs arbitrary: buf p)
  case Nil
  then show ?case by (auto simp: put_bits_def)
next
  case (Cons b bs)
  have b: "b \<in> {0, 1}" and bl: "bit_list bs" using Cons.prems(1) by (auto simp: bit_list_def)
  have le: "p + 1 + length bs \<le> 8 * length (put_bit buf p b)" using Cons.prems(2) by simp
  have "(q = p \<and> b = 1) \<or> (p + 1 \<le> q \<and> q < p + 1 + length bs \<and> bs ! (q - (p + 1)) = 1) \<longleftrightarrow>
      p \<le> q \<and> q < p + length (b # bs) \<and> (b # bs) ! (q - p) = 1" for q
    by (cases "q = p") (auto simp: nth_Cons')
  then show ?case using Cons.IH [OF bl le] bit_at_put_bit [OF b] Cons.prems(2) by auto
qed

lemma crc_buffer_put_bits:
  assumes "blen \<le> length bs" and "24 \<le> blen"
  shows "crc_buffer bs blen =
    (let st = put_bits (take 20 bs) (replicate 64 0, 0)
     in put_bits (take (blen - 24) (drop 20 bs)) (fst st, snd st + 12))"
proof -
  have f: "fold (\<lambda>i (buf, p). (put_bit buf p (bs ! i), p + 1)) [m..<m + n] st = put_bits (take n (drop m bs)) st"
    if "m + n \<le> length bs" for m n st
  proof -
    have "take n (drop m bs) = map ((!) bs) [m..<m + n]"
      using that by (intro nth_equalityI) auto
    then show ?thesis by (simp add: put_bits_def fold_map comp_def)
  qed
  have "[20..<blen - 4] = [20..<20 + (blen - 24)]" using assms(2) by simp
  then show ?thesis unfolding crc_buffer_def Let_def
    using f [of 0 20] f [of 20 "blen - 24"] assms by simp
qed

lemma byte_lists_eqI:
  assumes "length xs = length ys" and "\<And>q. q < 8 * length ys \<Longrightarrow> bit_at xs q = bit_at ys q"
  shows "xs = ys"
proof (rule nth_equalityI [OF assms(1)])
  fix k assume k: "k < length xs"
  show "xs ! k = ys ! k"
  proof (rule bit_word_eqI)
    fix j assume "j < LENGTH(8)"
    then obtain r where r: "j = 7 - r" "r < 8" by (intro that [of "7 - j"]) auto
    then show "bit (xs ! k) j = bit (ys ! k) j"
      using assms(2) [of "8 * k + r"] k assms(1) by (simp add: bit_at_def)
  qed
qed

lemma bit_at_bytes_bits:
  assumes "q < 8 * length bs"
  shows "bit_at bs q \<longleftrightarrow> bytes_bits bs ! q = 1"
proof -
  have q: "q = 8 * (q div 8) + q mod 8" "q div 8 < length bs" using assms by auto
  have "bytes_bits bs ! q = (if bit (bs ! (q div 8)) (7 - q mod 8) then 1 else 0)"
    using nth_bytes_bits [of "q mod 8" "q div 8" bs] q by simp
  then show ?thesis by (simp add: bit_at_def)
qed

text \<open>What the buffer holds: the header bits, twelve zero bits, and the rest of the stream up to the padding.\<close>

lemma crc_buffer_spec:
  assumes "bit_list bs" and "blen \<le> length bs" and "24 \<le> blen" and "blen + 8 = 8 * n" and "n \<le> 64"
    and "bytes_bits bytes = take 20 bs @ replicate 12 0 @ take (blen - 24) (drop 20 bs)"
  shows "take n (fst (crc_buffer bs blen)) = bytes" "snd (crc_buffer bs blen) = 8 * n"
    "length (fst (crc_buffer bs blen)) = 64"
proof -
  let ?A = "take 20 bs" and ?B = "take (blen - 24) (drop 20 bs)"
  obtain b1 where p1: "put_bits ?A (replicate 64 0, 0) = (b1, 20)" "length b1 = 64"
      "\<forall>q < 512. bit_at b1 q \<longleftrightarrow> q < 20 \<and> ?A ! q = 1"
    using put_bits_spec [of ?A 0 "replicate 64 0"] assms(1-3)
    by (cases "put_bits ?A (replicate 64 0, 0)")
      (auto simp: bit_at_def bit_list_def dest: in_set_takeD)
  have blB: "bit_list ?B" using assms(1) by (auto simp: bit_list_def dest!: in_set_takeD in_set_dropD)
  have lB: "length ?B = blen - 24" using assms(2) by simp
  have l32: "32 + length ?B = 8 * n" using lB assms(3,4) by simp
  define b2 where "b2 = fst (put_bits ?B (b1, 32))"
  have p2: "put_bits ?B (b1, 32) = (b2, 8 * n)" "length b2 = 64"
      "\<forall>q < 512. bit_at b2 q \<longleftrightarrow> bit_at b1 q \<or> (32 \<le> q \<and> q < 8 * n \<and> ?B ! (q - 32) = 1)"
    using put_bits_spec [OF blB, of 32 b1, unfolded l32 p1(2)] assms(5) by (simp_all add: b2_def prod_eq_iff)
  have cb: "crc_buffer bs blen = (b2, 8 * n)"
    using p1 p2 by (simp add: crc_buffer_put_bits [OF assms(2,3)])
  have lb: "length bytes = n" using arg_cong [OF assms(6), of length] lB assms(2-4) by simp
  have "take n b2 = bytes"
  proof (rule byte_lists_eqI)
    fix q assume q: "q < 8 * length bytes"
    then have "bit_at (take n b2) q = bit_at b2 q" using lb by (simp add: bit_at_def)
    also have "\<dots> \<longleftrightarrow> (?A @ replicate 12 0 @ ?B) ! q = 1"
      using p1(3) p2(3) q lb lB assms(2-5) by (auto simp: nth_append)
    also have "\<dots> \<longleftrightarrow> bit_at bytes q" using bit_at_bytes_bits [OF q] assms(6) by simp
    finally show "bit_at (take n b2) q = bit_at bytes q" .
  qed (use lb p2(2) assms(5) in simp)
  then show "take n (fst (crc_buffer bs blen)) = bytes" "snd (crc_buffer bs blen) = 8 * n"
    "length (fst (crc_buffer bs blen)) = 64"
    using cb p2(2) by simp_all
qed

subsection \<open>A whole burst\<close>

text \<open>
  The bit stream of a burst: a 20-bit header, 20 payload bytes, the checksum over the header (padded
  with twelve zero bits) and the payload, and four padding bits.
\<close>

definition header_bytes :: "u32 \<Rightarrow> u8 list" where
  "header_bytes h = pack_bits (uint_to_bits h 20 @ replicate 12 0) 4"

definition burst_crc :: "u32 \<Rightarrow> u8 list \<Rightarrow> u16" where
  "burst_crc h bytes = crc_ccitt (header_bytes h @ bytes) 24"

definition crc_bytes :: "u16 \<Rightarrow> u8 list" where
  "crc_bytes c = [ucast (drop_bit 8 c), ucast c]"

definition burst_stream :: "u32 \<Rightarrow> u8 list \<Rightarrow> u8 list \<Rightarrow> u8 list" where
  "burst_stream h bytes pad =
     uint_to_bits h 20 @ bytes_bits bytes @ bytes_bits (crc_bytes (burst_crc h bytes)) @ pad"

text \<open>The ten code words of a stream, with an error pattern for each.\<close>

definition burst_words :: "u8 list \<Rightarrow> u32 list \<Rightarrow> da_word list" where
  "burst_words bs es = map (\<lambda>i. (bits_to_uint (drop (20 * i) bs) 20, es ! i)) [0..<10]"

definition quad_at :: "da_word list \<Rightarrow> nat \<Rightarrow> da_quad" where
  "quad_at ws i = (ws ! i, ws ! (i + 1), ws ! (i + 2), ws ! (i + 3))"

definition tx_payload :: "u8 \<Rightarrow> u8 \<Rightarrow> da_word list \<Rightarrow> u8 list" where
  "tx_payload x y ws =
     concat (map tx_da_block [quad_at ws 0, quad_at ws 4]) @ tx_da_last x y (ws ! 8) (ws ! 9)"

definition burst_ok :: "u32 \<Rightarrow> u8 list \<Rightarrow> u8 list \<Rightarrow> u32 list \<Rightarrow> bool" where
  "burst_ok h bytes pad es \<longleftrightarrow> h < 2 ^ 20 \<and> take_bit 3 h = 0 \<and>
     1 \<le> uint (take_bit 5 (drop_bit 4 h)) \<and> uint (take_bit 5 (drop_bit 4 h)) \<le> 20 \<and>
     length bytes = 20 \<and> length pad = 4 \<and> set pad \<subseteq> {0, 1} \<and>
     length es = 10 \<and> list_all (\<lambda>e. e < 2 ^ 31 \<and> weight e \<le> 2) es"

lemma header_bytes_bits: "bytes_bits (header_bytes h) = uint_to_bits h 20 @ replicate 12 0"
  unfolding header_bytes_def by (rule bytes_bits_pack) (auto simp: bit_list_def dest: set_mp [OF bit_list_uint_to_bits [unfolded bit_list_def]])

lemma length_header_bytes [simp]: "length (header_bytes h) = 4"
  by (simp add: header_bytes_def pack_bits_def)

lemma length_crc_bytes [simp]: "length (crc_bytes c) = 2"
  by (simp add: crc_bytes_def)

lemma burst_checksum:
  assumes "length bytes = 20"
  shows "crc_ccitt (header_bytes h @ bytes @ crc_bytes (burst_crc h bytes)) 26 = 0"
proof -
  let ?m = "header_bytes h @ bytes" and ?c = "burst_crc h bytes"
  have "?c = crc_run ccitt_step hi_byte ?m 0xFFFF"
    using crc_ccitt_run [of 24 ?m] assms by (simp add: burst_crc_def)
  then have "crc_run ccitt_step hi_byte (?m @ [ucast (drop_bit 8 ?c), ucast ?c]) 0xFFFF = 0"
    by (intro ccitt.appended_checksum) (simp only: split_bytes)
  then show ?thesis
    using crc_ccitt_run [of 26 "?m @ crc_bytes ?c"] assms by (simp add: crc_bytes_def)
qed

lemma stream_facts:
  assumes "burst_ok h bytes pad es"
  shows "length (burst_stream h bytes pad) = 200" "bit_list (burst_stream h bytes pad)"
  using assms by (auto simp: burst_stream_def burst_ok_def bit_list_def [of pad])

lemma burst_words_facts:
  assumes "length bs = 200" and "bit_list bs" and "length es = 10" and "list_all (\<lambda>e. e < 2 ^ 31 \<and> weight e \<le> 2) es"
  shows "\<forall>w\<in>set (burst_words bs es). da_ok w" "concat (map da_bits (burst_words bs es)) = bs"
    "corrected (burst_words bs es) = int (length (filter (\<lambda>e. e \<noteq> 0) es))"
proof -
  show "\<forall>w\<in>set (burst_words bs es). da_ok w"
    using assms(3,4) bits_to_uint_less [of 20]
    by (auto simp: burst_words_def da_ok_def list_all_length simp del: power_numeral)
  have bl: "bit_list (drop k bs)" for k using assms(2) by (auto simp: bit_list_def dest: in_set_dropD)
  have w: "uint_to_bits (bits_to_uint (drop (20 * i) bs) 20) 20 = take 20 (drop (20 * i) bs)" if "i < 10" for i
    using uint_to_bits_bits_to_uint [OF _ _ bl, of 20 "20 * i"] that assms(1) by simp
  have "concat (map da_bits (burst_words bs es)) = concat (map (\<lambda>i. take 20 (drop (20 * i) bs)) [0..<10])"
    unfolding burst_words_def by (intro arg_cong [where f = concat]) (simp add: da_bits_def w)
  also have "\<dots> = take 200 bs"
  proof -
    have "concat (map (\<lambda>i. take 20 (drop (20 * i) bs)) [0..<n]) = take (20 * n) bs" for n
    proof (induction n)
      case (Suc n)
      then show ?case using take_add [of "20 * n" 20 bs] by (simp add: add.commute)
    qed simp
    from this [of 10] show ?thesis by simp
  qed
  finally show "concat (map da_bits (burst_words bs es)) = bs" using assms(1) by simp
  have e: "map ((!) es) [0..<10] = es" using assms(3) map_nth [of es] by simp
  have "corrected (burst_words bs es) = int (length (filter (\<lambda>e. e \<noteq> 0) (map ((!) es) [0..<10])))"
    unfolding corrected_def burst_words_def filter_map length_map by (simp add: comp_def)
  then show "corrected (burst_words bs es) = int (length (filter (\<lambda>e. e \<noteq> 0) es))" by (simp only: e)
qed

lemma list10:
  assumes "length ws = 10"
  shows "quads_words [quad_at ws 0, quad_at ws 4] @ [ws ! 8, ws ! 9] = ws"
proof -
  have "ws = map ((!) ws) [0..<10]" using assms map_nth [of ws] by simp
  also have "\<dots> = quads_words [quad_at ws 0, quad_at ws 4] @ [ws ! 8, ws ! 9]"
    by (simp add: quad_at_def quad_words_def upt_rec eval_nat_numeral)
  finally show ?thesis by simp
qed

lemma descramble_tx_payload:
  assumes "length bs = 200" and "bit_list bs" and "length es = 10" and "list_all (\<lambda>e. e < 2 ^ 31 \<and> weight e \<le> 2) es"
  shows "descramble_payload u ul ida_decode_init k (tx_payload x y (burst_words bs es) @ rest) l 312 512 =
    (bs, int (length (filter (\<lambda>e. e \<noteq> 0) es)))"
proof -
  let ?w = "burst_words bs es"
  note f = burst_words_facts [OF assms]
  have l: "length ?w = 10" by (simp add: burst_words_def)
  have "descramble_payload u ul ida_decode_init k
      (concat (map tx_da_block [quad_at ?w 0, quad_at ?w 4]) @ tx_da_last x y (?w ! 8) (?w ! 9) @ rest) l
      (124 * length [quad_at ?w 0, quad_at ?w 4] + 64) 512 = (concat (map da_bits ?w), corrected ?w)"
    by (subst descramble_payload_tx) (use f(1) in \<open>simp_all only: list10 [OF l], simp_all\<close>)
  then show ?thesis by (simp add: tx_payload_def f)
qed

text \<open>The header fields of a stream.\<close>

lemma or_assoc_shift:
  "extract_uint bs 3 = push_bit 2 (uint (bs ! 0)) OR push_bit 1 (uint (bs ! 1)) OR uint (bs ! 2)"
  "extract_uint bs 5 = push_bit 4 (uint (bs ! 0)) OR push_bit 3 (uint (bs ! 1)) OR push_bit 2 (uint (bs ! 2)) OR
     push_bit 1 (uint (bs ! 3)) OR uint (bs ! 4)"
proof -
  have p: "push_bit 1 (push_bit m v) = push_bit (Suc m) v" for m and v :: int
    by (simp only: push_bit_push_bit plus_1_eq_Suc)
  have e: "n = Suc m \<Longrightarrow> extract_uint bs n = push_bit 1 (extract_uint bs m) OR uint (bs ! m)" for n m
    by (simp add: extract_uint_def)
  have x: "extract_uint bs 1 = uint (bs ! 0)" by (simp add: extract_uint_def)
  have "extract_uint bs 2 = push_bit 1 (extract_uint bs 1) OR uint (bs ! 1)"
    "extract_uint bs 3 = push_bit 1 (extract_uint bs 2) OR uint (bs ! 2)"
    "extract_uint bs 4 = push_bit 1 (extract_uint bs 3) OR uint (bs ! 3)"
    "extract_uint bs 5 = push_bit 1 (extract_uint bs 4) OR uint (bs ! 4)"
    by (rule e, simp)+
  note all = this [unfolded x push_bit_or p]
  have n: "Suc 1 = 2" "Suc 2 = 3" "Suc 3 = 4" by simp_all
  show "extract_uint bs 3 = push_bit 2 (uint (bs ! 0)) OR push_bit 1 (uint (bs ! 1)) OR uint (bs ! 2)"
    by (simp only: all push_bit_or p n or.assoc)
  show "extract_uint bs 5 = push_bit 4 (uint (bs ! 0)) OR push_bit 3 (uint (bs ! 1)) OR push_bit 2 (uint (bs ! 2)) OR
     push_bit 1 (uint (bs ! 3)) OR uint (bs ! 4)"
    by (simp only: all push_bit_or p n or.assoc)
qed

lemma header_fields:
  fixes h :: u32 and rest :: "u8 list"
  defines "bs \<equiv> uint_to_bits h 20 @ rest"
  shows "bit_int bs 3 = of_bool (bit h 16)"
    "push_bit 2 (bit_int bs 5) OR push_bit 1 (bit_int bs 6) OR bit_int bs 7 = uint (take_bit 3 (drop_bit 12 h))"
    "push_bit 4 (bit_int bs 11) OR push_bit 3 (bit_int bs 12) OR push_bit 2 (bit_int bs 13) OR
       push_bit 1 (bit_int bs 14) OR bit_int bs 15 = uint (take_bit 5 (drop_bit 4 h))"
    "push_bit 2 (bit_int bs 17) OR push_bit 1 (bit_int bs 18) OR bit_int bs 19 = uint (take_bit 3 h)"
proof -
  have b: "bit_int bs i = uint (drop k (uint_to_bits h 20) ! (i - k))" if "k \<le> i" "i < 20" for i k
    using that by (simp add: bs_def bit_int_def nth_append)
  show "bit_int bs 3 = of_bool (bit h 16)" by (simp add: bs_def bit_int_def nth_append nth_uint_to_bits)
  show "push_bit 2 (bit_int bs 5) OR push_bit 1 (bit_int bs 6) OR bit_int bs 7 = uint (take_bit 3 (drop_bit 12 h))"
    using extract_uint_drop [of 5 3 20 h] unfolding or_assoc_shift by (simp add: b [of 5])
  show "push_bit 4 (bit_int bs 11) OR push_bit 3 (bit_int bs 12) OR push_bit 2 (bit_int bs 13) OR
       push_bit 1 (bit_int bs 14) OR bit_int bs 15 = uint (take_bit 5 (drop_bit 4 h))"
    using extract_uint_drop [of 11 5 20 h] unfolding or_assoc_shift by (simp add: b [of 11])
  show "push_bit 2 (bit_int bs 17) OR push_bit 1 (bit_int bs 18) OR bit_int bs 19 = uint (take_bit 3 h)"
    using extract_uint_drop [of 17 3 20 h] unfolding or_assoc_shift by (simp add: b [of 17])
qed

lemma burst_payload_bytes:
  assumes "burst_ok h bytes pad es"
  shows "map (\<lambda>i. pack_byte (burst_stream h bytes pad) (20 + i * 8)) [0..<20] = bytes"
proof (rule nth_equalityI)
  have l: "length bytes = 20" "bit_list pad" using assms by (auto simp: burst_ok_def bit_list_def)
  show "length (map (\<lambda>i. pack_byte (burst_stream h bytes pad) (20 + i * 8)) [0..<20]) = length bytes"
    using l by simp
  fix i assume "i < length (map (\<lambda>i. pack_byte (burst_stream h bytes pad) (20 + i * 8)) [0..<20])"
  then show "map (\<lambda>i. pack_byte (burst_stream h bytes pad) (20 + i * 8)) [0..<20] ! i = bytes ! i"
    using pack_bytes_bits [of "uint_to_bits h 20" i bytes "bytes_bits (crc_bytes (burst_crc h bytes)) @ pad"] l
    by (simp add: burst_stream_def)
qed

lemma burst_crc_ok:
  assumes "burst_ok h bytes pad es" and "0 < n"
  shows "fst (ida_crc (burst_stream h bytes pad) 200 n)" "snd (snd (ida_crc (burst_stream h bytes pad) 200 n)) = 0"
proof -
  let ?bs = "burst_stream h bytes pad" and ?m = "header_bytes h @ bytes @ crc_bytes (burst_crc h bytes)"
  have l: "length bytes = 20" "length pad = 4" using assms by (auto simp: burst_ok_def)
  note f = stream_facts [OF assms(1)]
  have "bytes_bits ?m = take 20 ?bs @ replicate 12 0 @ take (200 - 24) (drop 20 ?bs)"
    using l by (simp add: header_bytes_bits burst_stream_def)
  note s = crc_buffer_spec [OF f(2) _ _ _ _ this, of 26]
  have "crc_ccitt (fst (crc_buffer ?bs 200)) 26 = crc_ccitt ?m 26"
    using s f(1) l crc_ccitt_run [of 26 "fst (crc_buffer ?bs 200)"] crc_ccitt_run [of 26 ?m] by simp
  moreover have "snd (crc_buffer ?bs 200) = 208" using s(2) f(1) by simp
  ultimately have "crc_ccitt (fst (crc_buffer ?bs 200)) ((snd (crc_buffer ?bs 200) + 7) div 8) = 0"
    using burst_checksum [OF l(1), of h] by simp
  then show "fst (ida_crc ?bs 200 n)" "snd (snd (ida_crc ?bs 200 n)) = 0"
    using assms(2) by (simp_all add: ida_crc_def Let_def case_prod_beta)
qed

lemma length_tx_lcw [simp]: "length (tx_lcw w) = 46"
  by (simp add: tx_lcw_def spread_lcw_def split: prod.split)

subsection \<open>Well-formed bursts\<close>

definition da_state_ok :: "nat \<Rightarrow> da_state \<Rightarrow> bool" where
  "da_state_ok max_bch st \<longleftrightarrow> bit_list (fst st) \<and> length (fst st) \<le> max_bch \<and> length (fst st) mod 20 = 0 \<and>
     0 \<le> snd st \<and> 20 * snd st \<le> int (length (fst st))"

lemma da_state_ok_step:
  assumes "da_state_ok m st" and "length (fst st) + 20 \<le> m"
    and "chase_bch_da ida_decode_init k b l = Some (n, d, fx)"
  shows "da_state_ok m (fst st @ d, snd st + fx)"
  using assms(1,2) chase_bch_da_length [OF assms(3)] by (auto simp: da_state_ok_def)

lemma da_chunks_ok: "da_state_ok m st \<Longrightarrow> da_state_ok m (fst (da_chunks ida_decode_init k c l m offs st))"
proof (induction offs arbitrary: st)
  case (Cons off offs)
  then show ?case
    by (auto simp: BCH_DA_DATA_def not_less split: option.split intro!: Cons.IH da_state_ok_step)
qed simp

lemma da_blocks_ok: "da_state_ok m st \<Longrightarrow> da_state_ok m (fst (da_blocks ida_decode_init k data l m blks st))"
proof (induction blks arbitrary: st)
  case (Cons blk blks)
  have "da_state_ok m (fst (da_block ida_decode_init k (drop (blk * 124) data) (map_option (drop (blk * 124)) l) m st))"
    unfolding da_block_def Let_def by (simp add: da_chunks_ok [OF Cons.prems] split: prod.split)
  then show ?case by (auto split: prod.split bool.split intro!: Cons.IH)
qed simp

lemma da_tail_ok: "da_state_ok m st \<Longrightarrow> da_state_ok m (da_tail ida_decode_init k c l m pos st)"
proof (induction "length c - pos" arbitrary: pos st rule: less_induct)
  case less
  show ?case
    by (subst da_tail.simps)
      (auto simp: less.prems BCH_DA_DATA_def split: option.split intro!: less.hyps da_state_ok_step [OF less.prems])
qed

lemma descramble_payload_ok: "da_state_ok m (descramble_payload u ul ida_decode_init k data l n m)"
proof -
  have "da_state_ok m ([], 0)" by (simp add: da_state_ok_def bit_list_def)
  from da_blocks_ok [OF this, of k data l "[0..<n div 124]"] show ?thesis
    by (auto simp: descramble_payload_def Let_def da_tail_ok split: prod.split bool.split)
qed

text \<open>The ranges of the link control word's fields.\<close>

definition lcw_wf :: "lcw \<Rightarrow> bool" where
  "lcw_wf l \<longleftrightarrow> 0 \<le> ft l \<and> ft l \<le> 7 \<and> lcw_ok l = 1 \<and> 0 \<le> lcw_ft l \<and> lcw_ft l \<le> 3 \<and>
     0 \<le> lcw_code l \<and> lcw_code l \<le> 15 \<and> lcw3_val l < 2 ^ 21 \<and> 0 \<le> ec_lcw l \<and> ec_lcw l \<le> 3"

definition ida_burst_wf :: "ida_burst \<Rightarrow> bool" where
  "ida_burst_wf b \<longleftrightarrow> ib_direction b \<in> {DIR_DOWNLINK, DIR_UPLINK} \<and>
     0 \<le> da_ctr b \<and> da_ctr b \<le> 7 \<and> 0 \<le> da_len b \<and> da_len b \<le> 20 \<and> cont b \<in> {0, 1} \<and>
     length (payload b) = 32 \<and> payload_len b = (if da_len b > 0 then da_len b else 20) \<and>
     (crc_ok b \<longrightarrow> da_len b > 0 \<and> computed_crc b = 0) \<and>
     200 \<le> bch_len b \<and> bch_len b \<le> 500 \<and> length (bch_stream b) = 256 \<and>
     0 \<le> fixederrs b \<and> 20 * fixederrs b \<le> bch_len b \<and>
     lcw_wf (burst_lcw b) \<and> ft (burst_lcw b) \<in> {2, 6, 7} \<and> length (lcw_header b) < 128"

lemma and_range: "0 \<le> v AND (m :: int)" "v AND m \<le> m" if "0 \<le> m"
  using that by (simp_all add: AND_upper2)

lemma decode_lcw_wf:
  assumes "decode_lcw ida_decode_init data n = Some l"
  shows "lcw_wf l"
proof -
  define bs where "bs = lcw_bits data"
  define v3 where "v3 = bits_to_uint (drop 20 bs) 26"
  obtain c3 where c3: "correct_component BCH_POLY_LCW3 32 (syn_lcw3 ida_decode_init) v3 = Some c3"
      "lcw3_val l = drop_bit 5 c3"
    using assms by (auto simp: decode_lcw_def Let_def bs_def v3_def split: if_splits option.splits)
  have "map_option snd (syndrome_decode BCH_POLY_LCW3 32 (build_syndrome_table BCH_POLY_LCW3 26 5 2 32) v3) = Some c3"
    using c3(1) correct_component_alt [of BCH_POLY_LCW3 32]
    by (simp add: ida_decode_init_def build_syn_eq [where sb = 5])
  then have "c3 < 2 ^ 26"
    using lcw3.syndrome_decode_sound(2) bits_to_uint_less [of 26 "drop 20 bs"] by (auto simp: v3_def)
  then have "\<not> bit c3 j" if "26 \<le> j" for j using that word_less_exp_iff [of 26 c3] by simp
  then have "lcw3_val l < 2 ^ 21"
    unfolding c3(2) by (subst word_less_exp_iff) (auto simp: bit_drop_bit_eq)
  moreover have "0 \<le> ft l \<and> ft l \<le> 7 \<and> lcw_ok l = 1 \<and> 0 \<le> lcw_ft l \<and> lcw_ft l \<le> 3 \<and>
     0 \<le> lcw_code l \<and> lcw_code l \<le> 15 \<and> 0 \<le> ec_lcw l \<and> ec_lcw l \<le> 3"
    using assms by (auto simp: decode_lcw_def Let_def and_range split: if_splits option.splits)
  ultimately show ?thesis by (auto simp: lcw_wf_def)
qed

lemma ida_crc_ok: "ida_crc bs n len = (True, s, c) \<Longrightarrow> len > 0 \<and> c = 0"
  by (auto simp: ida_crc_def Let_def split: if_splits prod.splits)

lemma bit_int_bit: "bit_list bs \<Longrightarrow> i < length bs \<Longrightarrow> bit_int bs i \<in> {0, 1}"
  using bit_list_nth by (force simp: bit_int_def)

lemma length_format_lcw_header: "0 < sz \<Longrightarrow> length (format_lcw_header n l sz) < sz"
  unfolding format_lcw_header_def Let_def case_prod_beta
  by (rule le_less_trans [OF length_snprintf]) simp

lemma ida_burst_of_wf:
  assumes "ida_burst_of f l bs n = Some b" and "lcw_wf l" and "ft l \<in> {2, 6, 7}"
    and "fr_direction f \<in> {DIR_DOWNLINK, DIR_UPLINK}" and "da_state_ok 512 (bs, n)" and "196 \<le> length bs"
  shows "ida_burst_wf b"
proof -
  have bl: "bit_list bs" and len: "200 \<le> length bs" "length bs \<le> 500" and n: "0 \<le> n" "20 * n \<le> int (length bs)"
    using assms(5,6) by (auto simp: da_state_ok_def)
  have i: "bit_int bs i \<in> {0, 1}" if "i < 200" for i using bit_int_bit [OF bl] that len by simp
  have "0 \<le> da_ctr b \<and> da_ctr b \<le> 7"
    using assms(1) i [of 5] i [of 6] i [of 7] by (auto simp: ida_burst_of_def Let_def split: if_splits prod.splits)
  moreover have "0 \<le> da_len b" "da_len b \<le> 20"
    using assms(1) by (auto simp: ida_burst_of_def Let_def bit_int_def split: if_splits prod.splits)
  moreover have "cont b \<in> {0, 1}"
    using assms(1) i [of 3] by (auto simp: ida_burst_of_def Let_def split: if_splits prod.splits)
  moreover have "crc_ok b \<longrightarrow> da_len b > 0 \<and> computed_crc b = 0"
    using assms(1) by (auto simp: ida_burst_of_def Let_def split: if_splits prod.splits dest!: ida_crc_ok)
  moreover have "payload_len b = (if da_len b > 0 then da_len b else 20)" "fixederrs b = n" "burst_lcw b = l"
      "bch_len b = int (length bs)" "ib_direction b = fr_direction f" "length (bch_stream b) = 256"
      "length (lcw_header b) < 128"
    using assms(1) by (auto simp: ida_burst_of_def Let_def length_format_lcw_header split: if_splits prod.splits)
  moreover have "length (payload b) = 32"
    using assms(1) by (auto simp: ida_burst_of_def Let_def split: if_splits prod.splits)
  ultimately show ?thesis using assms(2-4) len n by (auto simp: ida_burst_wf_def)
qed

lemma ida_decode_cases:
  assumes "ida_decode u ul t k f = Some b"
  obtains l bs n where "194 \<le> fr_n_bits f" "fr_direction f \<in> {DIR_DOWNLINK, DIR_UPLINK}"
    "decode_lcw t (drop 24 (fr_bits f)) (fr_n_bits f - 24) = Some l" "ft l \<in> {2, 6, 7}"
    "descramble_payload u ul t k (drop 70 (fr_bits f)) (map_option (drop 70) (fr_llr f)) (nat (fr_n_bits f - 70)) 512 = (bs, n)"
    "196 \<le> length bs" "ida_burst_of f l bs n = Some b"
  using assms
  by (auto simp: ida_decode_def Let_def option.map_comp comp_def not_less split: if_splits option.splits prod.splits)

lemma ida_decode_wf:
  assumes "ida_decode u ul ida_decode_init k f = Some b"
  shows "ida_burst_wf b"
  using assms
proof (rule ida_decode_cases)
  fix l bs n
  assume a: "fr_direction f \<in> {DIR_DOWNLINK, DIR_UPLINK}"
    "decode_lcw ida_decode_init (drop 24 (fr_bits f)) (fr_n_bits f - 24) = Some l" "ft l \<in> {2, 6, 7}"
    "descramble_payload u ul ida_decode_init k (drop 70 (fr_bits f)) (map_option (drop 70) (fr_llr f))
       (nat (fr_n_bits f - 70)) 512 = (bs, n)"
    "196 \<le> length bs" "ida_burst_of f l bs n = Some b"
  have "da_state_ok 512 (bs, n)" using descramble_payload_ok a(4) by metis
  then show ?thesis using ida_burst_of_wf [OF a(6) decode_lcw_wf [OF a(2)] a(3,1)] a(5) by simp
qed

lemma pack_burst:
  assumes "burst_ok h bytes pad es" and "da_len b = uint (take_bit 5 (drop_bit 4 h))"
    and "ida_burst_of f l (burst_stream h bytes pad) n = Some b"
  shows "take (nat (da_len b)) (payload b) = take (nat (da_len b)) bytes" "crc_ok b" "computed_crc b = 0"
    "da_ctr b = uint (take_bit 3 (drop_bit 12 h))" "cont b = of_bool (bit h 16)" "fixederrs b = n" "burst_lcw b = l"
proof -
  let ?bs = "burst_stream h bytes pad"
  have f: "bit_int ?bs 3 = of_bool (bit h 16)"
    "push_bit 2 (bit_int ?bs 5) OR push_bit 1 (bit_int ?bs 6) OR bit_int ?bs 7 = uint (take_bit 3 (drop_bit 12 h))"
    "push_bit 4 (bit_int ?bs 11) OR push_bit 3 (bit_int ?bs 12) OR push_bit 2 (bit_int ?bs 13) OR
       push_bit 1 (bit_int ?bs 14) OR bit_int ?bs 15 = uint (take_bit 5 (drop_bit 4 h))"
    "push_bit 2 (bit_int ?bs 17) OR push_bit 1 (bit_int ?bs 18) OR bit_int ?bs 19 = uint (take_bit 3 h)"
    unfolding burst_stream_def by (rule header_fields)+
  have o: "take_bit 3 h = 0" "1 \<le> uint (take_bit 5 (drop_bit 4 h))" "uint (take_bit 5 (drop_bit 4 h)) \<le> 20"
    "length bytes = 20"
    using assms(1) by (simp_all add: burst_ok_def)
  define len where "len = uint (take_bit 5 (drop_bit 4 h))"
  have len: "1 \<le> len" "len \<le> 20" using o by (simp_all add: len_def)
  obtain s where crc: "ida_crc ?bs 200 len = (True, s, 0)"
    using burst_crc_ok [OF assms(1), of len] len by (cases "ida_crc ?bs 200 len") auto
  note r = assms(3) [unfolded ida_burst_of_def Let_def stream_facts(1) [OF assms(1)] f o(1)
      burst_payload_bytes [OF assms(1)] len_def [symmetric] crc prod.case]
  show "take (nat (da_len b)) (payload b) = take (nat (da_len b)) bytes" "crc_ok b" "computed_crc b = 0"
    "da_ctr b = uint (take_bit 3 (drop_bit 12 h))" "cont b = of_bool (bit h 16)" "fixederrs b = n" "burst_lcw b = l"
    using r len o(4) by (auto split: if_splits)
qed

lemma ida_burst_of_some:
  assumes "burst_ok h bytes pad es"
  shows "\<exists>b. ida_burst_of f l (burst_stream h bytes pad) n = Some b \<and> da_len b = uint (take_bit 5 (drop_bit 4 h))"
proof -
  let ?bs = "burst_stream h bytes pad"
  have f: "push_bit 4 (bit_int ?bs 11) OR push_bit 3 (bit_int ?bs 12) OR push_bit 2 (bit_int ?bs 13) OR
       push_bit 1 (bit_int ?bs 14) OR bit_int ?bs 15 = uint (take_bit 5 (drop_bit 4 h))"
    "push_bit 2 (bit_int ?bs 17) OR push_bit 1 (bit_int ?bs 18) OR bit_int ?bs 19 = uint (take_bit 3 h)"
    unfolding burst_stream_def by (rule header_fields)+
  have "take_bit 3 h = 0" "uint (take_bit 5 (drop_bit 4 h)) \<le> 20"
    using assms by (simp_all add: burst_ok_def)
  then show ?thesis unfolding ida_burst_of_def Let_def f by (auto split: prod.splits)
qed

text \<open>The bits of a burst after the unique word: link control word and payload.\<close>

definition tx_ida :: "u8 list \<Rightarrow> u32 \<times> u32 \<times> u32 \<Rightarrow> u8 \<Rightarrow> u8 \<Rightarrow> da_word list \<Rightarrow> u8 list" where
  "tx_ida uw l x y ws = uw @ tx_lcw l @ tx_payload x y ws"

lemma ida_decode_tx:
  assumes "lcw_tx_ok d1 d2 d3 f1 f2 f3" and "d1 \<in> {2, 6, 7}" and "burst_ok h bytes pad es"
    and "fr_bits f = tx_ida uw (lcw_words d1 d2 d3 f1 f2 f3) x y (burst_words (burst_stream h bytes pad) es)"
    and "length uw = 24" and "fr_n_bits f = 382" and "fr_direction f \<in> {DIR_DOWNLINK, DIR_UPLINK}"
  obtains b where "ida_decode u ul ida_decode_init k f = Some b" "da_len b = uint (take_bit 5 (drop_bit 4 h))"
    "ida_burst_of f \<lparr>ft = uint d1, lcw_ok = 1, lcw_ft = uint (drop_bit 4 d2), lcw_code = uint (take_bit 4 d2), lcw3_val = d3,
          ec_lcw = int (weight f1 + weight f2 + weight f3)\<rparr> (burst_stream h bytes pad)
       (int (length (filter (\<lambda>e. e \<noteq> 0) es))) = Some b"
proof -
  let ?bs = "burst_stream h bytes pad" and ?w = "lcw_words d1 d2 d3 f1 f2 f3"
  let ?l = "\<lparr>ft = uint d1, lcw_ok = 1, lcw_ft = uint (drop_bit 4 d2), lcw_code = uint (take_bit 4 d2), lcw3_val = d3,
          ec_lcw = int (weight f1 + weight f2 + weight f3)\<rparr>"
  have d: "drop 24 (fr_bits f) = tx_lcw ?w @ tx_payload x y (burst_words ?bs es)"
    "drop 46 (tx_lcw ?w @ tx_payload x y (burst_words ?bs es)) = tx_payload x y (burst_words ?bs es) @ []"
    using assms(4,5) by (simp_all add: tx_ida_def)
  have ft: "uint d1 = 2 \<or> uint d1 = 6 \<or> uint d1 = 7" using assms(2) by auto
  have es: "length es = 10" "list_all (\<lambda>e. e < 2 ^ 31 \<and> weight e \<le> 2) es" using assms(3) by (simp_all add: burst_ok_def)
  note s = stream_facts [OF assms(3)]
  have n: "nat (382 - 24 - 46 :: int) = 312" by simp
  have lcw: "decode_lcw ida_decode_init (tx_lcw ?w @ tx_payload x y (burst_words ?bs es)) (382 - 24) = Some ?l"
    by (rule decode_lcw_tx [OF assms(1)]) simp
  have "ida_decode u ul ida_decode_init k f = ida_burst_of f ?l ?bs (int (length (filter (\<lambda>e. e \<noteq> 0) es)))"
    unfolding ida_decode_def Let_def assms(6) d lcw option.case n
      descramble_tx_payload [OF s es] prod.case
    using assms(7) ft s(1) by auto
  then show thesis using ida_burst_of_some [OF assms(3)] that by metis
qed

subsection \<open>Unwritten elements of the last block\<close>

lemma tail_combined_indep:
  assumes "length h1 = n" "length h2 = n" "n \<le> 64"
  shows "tail_combined u n (h1, h2) = tail_combined u' n (h1, h2)"
proof -
  have "map ((!) (fill64 u h)) [1..<n] = map ((!) (fill64 u' h)) [1..<n]" if "length h = n" for h :: "'a list"
    using that assms(3) by (intro map_cong) (auto simp: fill64_nth)
  then show ?thesis using assms by (simp add: tail_combined_def)
qed

lemma length_de_interleave_llr_n:
  assumes "even n" and "0 < n" and "de_interleave_llr_n inp (int n) = (o1, o2)"
  shows "length o1 = n" "length o2 = n"
proof -
  from assms(1,2) obtain h where "n = 2 * h" "0 < h" by (auto elim: evenE)
  then show "length o1 = n" "length o2 = n" using de_interleave_pick(1,2) [of h inp] assms(3)
    by (auto simp: de_interleave_llr_n_def)
qed

lemma tail_combined_bits_indep:
  assumes "even n" "0 < n" "n \<le> 64"
  shows "tail_combined u n (de_interleave_n d (int n)) = tail_combined u' n (de_interleave_n d (int n))"
    "tail_combined ul n (de_interleave_llr_n l (int n)) = tail_combined ul' n (de_interleave_llr_n l (int n))"
proof -
  obtain h1 h2 where h: "de_interleave_n d (int n) = (h1, h2)" by fastforce
  show "tail_combined u n (de_interleave_n d (int n)) = tail_combined u' n (de_interleave_n d (int n))"
    unfolding h using length_de_interleave_n [OF assms(1,2) h] assms(3) by (intro tail_combined_indep)
  obtain l1 l2 where l: "de_interleave_llr_n l (int n) = (l1, l2)" by fastforce
  show "tail_combined ul n (de_interleave_llr_n l (int n)) = tail_combined ul' n (de_interleave_llr_n l (int n))"
    unfolding l using length_de_interleave_llr_n [OF assms(1,2) l] assms(3) by (intro tail_combined_indep)
qed

lemma chase_bch_da_cong:
  "bits_to_uint b 31 = bits_to_uint b' 31 \<Longrightarrow> chase_bch_da t k b l = chase_bch_da t k b' l"
  by (simp add: chase_bch_da_def)

lemma chase_zero_block:
  "chase_bch_da ida_decode_init k (u # replicate 30 0 @ rest) l =
     Some (of_bool (odd u), replicate 20 0, of_bool (odd u))"
proof -
  define e :: u32 where "e = (if odd u then 2 ^ 30 else 0)"
  have z: "gf2_encode BCH_POLY_DA 0 = 0" by (simp add: gf2_encode_def gf2_remainder_0)
  have w: "weight e = of_bool (odd u)" "e \<noteq> 0 \<longleftrightarrow> odd u" using weight_single [of 30] by (simp_all add: e_def)
  have eb: "bit e n \<longleftrightarrow> n = 30 \<and> odd u" for n
    using bit_exp_iff [where 'a = "32 word", of 30 n] by (auto simp: e_def)
  have "uint_to_bits 0 20 = replicate 20 0"
    by (rule nth_equalityI) (simp_all add: nth_uint_to_bits)
  moreover have "bits_to_uint (u # replicate 30 0 @ rest) 31 = bits_to_uint (tx_da (0, e) @ []) 31"
    by (rule bit_word_eqI)
      (auto simp: bit_bits_to_uint tx_da_def z nth_uint_to_bits nth_Cons' nth_append eb split: if_splits)
  moreover have "da_ok (0, e)" using da.exp_less [of 30] w by (auto simp: da_ok_def e_def)
  ultimately show ?thesis
    using chase_bch_da_tx [of "(0, e)" k "[]" l] chase_bch_da_cong [of "u # replicate 30 0 @ rest" "tx_da (0, e) @ []"] w
    by (simp add: da_bits_def)
qed

subsection \<open>Properties\<close>


definition ida_example :: demod_frame where
  "ida_example = \<lparr>fr_id = 0, fr_timestamp = 5, fr_center_frequency = 1626, fr_direction = DIR_DOWNLINK,
     fr_magnitude = 0, fr_noise = 0, fr_confidence = 100, fr_level = 1, fr_n_symbols = 191,
     fr_n_payload_symbols = 179,
     fr_bits = tx_ida (replicate 24 0) (lcw_words 2 0 0 1 0 0) 0 0
       (burst_words (burst_stream 80 (replicate 20 65) [0, 0, 0, 0]) (3 # replicate 9 0)),
     fr_llr = None, fr_n_bits = 382\<rparr>"

lemma ida_example_ok: "lcw_tx_ok 2 0 0 1 0 0" "burst_ok 80 (replicate 20 65) [0, 0, 0, 0] (3 # replicate 9 0)"
proof -
  have w: "weight 1 = 1" "weight 3 = 2" using weight_single [of 0] weight_double [of 0 1] by simp_all
  show "lcw_tx_ok 2 0 0 1 0 0" by (simp add: lcw_tx_ok_def w gf2_encode_def gf2_remainder_0)
  have "uint (take_bit 5 (drop_bit 4 (80 :: u32))) = 5" "take_bit 3 (80 :: u32) = 0"
    by (simp_all add: take_bit_eq_mod drop_bit_eq_div)
  then show "burst_ok 80 (replicate 20 65) [0, 0, 0, 0] (3 # replicate 9 0)"
    by (simp add: burst_ok_def w list_all_iff)
qed



text \<open>
  C16. Chase decoding never invents data: a result is the data part of a BCH(31,20)
  code word whose distance from the received bits is at most the reported error count (at most
  two) plus, when soft bits are used, the number of bits the search may flip.
\<close>

theorem chase_decoding_sound:
  assumes "chase_bch_da ida_decode_init k block l = Some (n, d, fx)"
  shows "\<exists>c. gf2_remainder BCH_POLY_DA c = 0 \<and> c < 2 ^ 31 \<and> d = uint_to_bits (drop_bit 11 c) 20 \<and>
    0 \<le> n \<and> n \<le> 2 \<and> fx \<in> {0, 1} \<and>
    weight (bits_to_uint block 31 XOR c) \<le> nat n + (if l = None then 0 else k)"
  using assms by (rule chase_bch_da_sound)

theorem chase_decoding_sound_witness:
  "\<exists>c. gf2_remainder BCH_POLY_DA c = 0 \<and> c < 2 ^ 31 \<and> replicate 20 0 = uint_to_bits (drop_bit 11 c) 20 \<and>
    weight (bits_to_uint (1 # replicate 30 0) 31 XOR c) \<le> 1"
  using chase_decoding_sound [of 0 "1 # replicate 30 0" None 1 "replicate 20 0" 1] chase_zero_block [of 0 1 "[]" None]
  by simp

text \<open>
  The Chase search is complete for the positions it is meant to try: the first
  \<open>k\<close> entries of the position table are the \<open>k\<close> least reliable of the 31 positions, each once, in order
  of reliability; and whenever some combination of flips of these positions brings the received
  word within two bits of a code word, the decoder returns a result.
\<close>

theorem chase_tries_least_reliable:
  assumes "k \<le> 31"
  shows "mset (least_reliable l k) = mset [0..<31] \<and>
    (\<forall>i j. i < k \<and> i \<le> j \<and> j < 31 \<longrightarrow> l ! (least_reliable l k ! i) \<le> l ! (least_reliable l k ! j)) \<and>
    (\<forall>m c e. 0 < m \<and> m < 2 ^ k \<and> gf2_remainder BCH_POLY_DA c = 0 \<and> e < 2 ^ 31 \<and> weight e \<le> 2 \<and>
       apply_flips (flip_masks l k) k m (bits_to_uint block 31) = c XOR e \<longrightarrow>
       chase_bch_da ida_decode_init k block (Some l) \<noteq> None)"
proof (intro conjI allI impI)
  note s = least_reliable_spec [OF assms, of l]
  show "mset (least_reliable l k) = mset [0..<31]" using s by blast
  show "l ! (least_reliable l k ! i) \<le> l ! (least_reliable l k ! j)" if "i < k \<and> i \<le> j \<and> j < 31" for i j
    using s that by blast
  fix m c e
  let ?v = "bits_to_uint block 31"
  assume a: "0 < m \<and> m < 2 ^ k \<and> gf2_remainder BCH_POLY_DA c = 0 \<and> e < 2 ^ 31 \<and> weight e \<le> 2 \<and>
    apply_flips (flip_masks l k) k m ?v = c XOR e"
  then have "da_decode (apply_flips (flip_masks l k) k m ?v) \<noteq> None"
    using da.syndrome_decode_corrects2 [of c e 2 11] by (simp add: syn_da_init)
  then have "chase_search ida_decode_init (flip_masks l k) k ?v [1..<2 ^ k] \<noteq> None"
    using a by (intro chase_search_complete [of m]) auto
  then show "chase_bch_da ida_decode_init k block (Some l) \<noteq> None"
    by (auto simp: chase_bch_da_alt Let_def da_result_def split: option.split)
qed

theorem chase_tries_least_reliable_witness: "mset (least_reliable (replicate 31 1) 7) = mset [0..<31]"
  using chase_tries_least_reliable [of 7 "replicate 31 1" "[]"] by simp

text \<open>
  When the last, partial block has an even number of symbols, decoding does
  not depend on what the stack held: the result is the same for all values of the array elements
  that are never written.
\<close>

theorem partial_block_independent:
  assumes "even (n mod 124 div 2)"
  shows "descramble_payload u ul t k data l n m = descramble_payload u' ul' t k data l n m"
proof (cases "4 \<le> n mod 124")
  case True
  have "n mod 124 < 124" by simp
  then have b: "0 < n mod 124 div 2" "n mod 124 div 2 \<le> 64" using True by linarith+
  note i = tail_combined_bits_indep [OF assms b]
  show ?thesis unfolding descramble_payload_def Let_def option.map_comp comp_def
    by (simp only: i(1) [of u _ u'] i(2) [of ul _ ul'])
qed (simp add: descramble_payload_def Let_def)

theorem partial_block_independent_witness:
  "descramble_payload 0 0 ida_decode_init 0 (replicate 64 0) None 64 512 =
   descramble_payload 255 1 ida_decode_init 0 (replicate 64 0) None 64 512"
  by (rule partial_block_independent) simp

text \<open>
  With an odd number of symbols in the last block the decoder reads
  elements of its stack arrays that it never wrote. For a payload of 66 zero bits the value \<open>u\<close> found
  there decides whether a correction is counted.
\<close>

theorem partial_block_reads_unwritten:
  "descramble_payload u ul ida_decode_init k (replicate 66 0) None 66 512 = (replicate 40 0, of_bool (odd u))"
proof -
  have f: "for_down 32 1 2 = map (\<lambda>j. 2 + int (2 * (15 - j))) [0..<Suc 15]" "for_down 31 0 2 = map (\<lambda>j. 1 + int (2 * (15 - j))) [0..<Suc 15]"
    using for_down_closed [of 2 1 2 15] for_down_closed [of 2 0 1 15] by simp_all
  have z: "pick_symbols (replicate 66 0) (for_down 32 1 2) = (replicate 32 0 :: u8 list)"
    "pick_symbols (replicate 66 0) (for_down 31 0 2) = (replicate 32 0 :: u8 list)"
  proof -
    have "pick_symbols (replicate 66 (0 :: u8)) ss = replicate (2 * length ss) 0" if "\<forall>s\<in>set ss. 0 \<le> s \<and> s < 33" for ss
    proof -
      have "nat (2 * s) < 66" "nat (2 * s + 1) < 66" if "0 \<le> s" "s < 33" for s :: int using that by linarith+
      then show ?thesis using that by (induction ss) (simp_all add: pick_symbols_def)
    qed
    note p = this
    have l: "length (for_down 32 1 2) = 16" "length (for_down 31 0 2) = 16" by (simp_all add: f del: upt_Suc)
    have "\<forall>s\<in>set (for_down 32 1 2). 0 \<le> s \<and> s < 33" "\<forall>s\<in>set (for_down 31 0 2). 0 \<le> s \<and> s < 33"
      by (auto dest: set_for_down)
    then show "pick_symbols (replicate 66 0) (for_down 32 1 2) = (replicate 32 0 :: u8 list)"
      "pick_symbols (replicate 66 0) (for_down 31 0 2) = (replicate 32 0 :: u8 list)"
      using p l by simp_all
  qed
  have h: "de_interleave_n (replicate 66 0) (int (66 div 2)) = (replicate 32 0, replicate 32 0)"
    using z by (simp add: de_interleave_n_def)
  let ?h = "replicate 31 0 @ [u]"
  have m: "map ((!) (fill64 u (replicate 32 0))) [1..<33] = ?h"
    by (rule nth_equalityI) (auto simp: fill64_def nth_append less_Suc_eq)
  have t: "tail_combined u 33 (replicate 32 0, replicate 32 0) = ?h @ ?h"
    unfolding tail_combined_def prod.case m by simp
  have r31: "replicate 31 0 = (0 :: u8) # replicate 30 0" by (simp flip: replicate_Suc)
  have d: "drop 31 (?h @ ?h) = u # replicate 30 0 @ [0, u]" by (simp add: replicate_append_same flip: replicate_Suc)
  have c1: "chase_bch_da ida_decode_init k (?h @ ?h) None = Some (0, replicate 20 0, 0)"
    using chase_zero_block [of k 0 "[u] @ ?h" None] by (simp add: r31)
  have c2: "chase_bch_da ida_decode_init k (drop 31 (?h @ ?h)) None = Some (of_bool (odd u), replicate 20 0, of_bool (odd u))"
    unfolding d by (rule chase_zero_block)
  have "da_tail ida_decode_init k (?h @ ?h) None 512 0 ([], 0) = (replicate 40 0, of_bool (odd u))"
    using c1 c2 by (subst da_tail.simps, subst da_tail.simps, subst da_tail.simps)
      (simp add: BCH_DA_DATA_def del: drop_append flip: replicate_add)
  then show ?thesis by (simp add: descramble_payload_def Let_def h [simplified] t BCH_DA_DATA_def)
qed

end
