(* ===== verification/IdaReassembly.thy ===== *)
theory IdaReassembly
  imports IdaDecode
begin

unbundle bit_operations_syntax

text \<open>
  Reassembly of multi-burst messages: \<open>ida_reassemble\<close> and \<open>ida_reassemble_flush\<close> of
  \<^verbatim>\<open>src/ida_decode.c\<close>. The context is the list of the 16 slots; the message callback's arguments are
  returned as a value. A slot's buffer is the list of its used bytes, so that the C field
  \<^verbatim>\<open>data_len\<close> is its length.

  The lemmas show an invariant of the slots, and that the fragments of a message are assembled in
  order even when bursts of other channels and flushes come in between (\<open>fragments\<close> describes such
  a sequence of events).
\<close>

subsection \<open>Slots\<close>

record ida_reassembly =
  sl_active :: bool
  sl_direction :: ir_direction
  sl_frequency :: real
  sl_last_timestamp :: u64
  sl_last_ctr :: int
  sl_data :: "u8 list"

type_synonym ida_context = "ida_reassembly list"

definition IDA_MAX_REASSEMBLY :: nat where "IDA_MAX_REASSEMBLY = 16"

definition SLOT_DATA_SIZE :: int where "SLOT_DATA_SIZE = 256"

record ida_message =
  msg_data :: "u8 list"
  msg_timestamp :: u64
  msg_frequency :: real
  msg_direction :: ir_direction
  msg_magnitude :: real

definition burst_bytes :: "ida_burst \<Rightarrow> u8 list" where
  "burst_bytes b = take (nat (da_len b)) (payload b)"

definition slot_matches :: "ida_reassembly \<Rightarrow> ida_burst \<Rightarrow> bool" where
  "slot_matches s b \<longleftrightarrow> sl_active s \<and> sl_direction s = ib_direction b \<and>
     \<not> \<bar>sl_frequency s - ib_frequency b\<bar> > 260 \<and> \<not> ib_timestamp b < sl_last_timestamp s \<and>
     \<not> ib_timestamp b - sl_last_timestamp s > 280000000 \<and> (sl_last_ctr s + 1) mod 8 = da_ctr b"

definition slot_append :: "ida_reassembly \<Rightarrow> ida_burst \<Rightarrow> ida_reassembly" where
  "slot_append s b =
     (let s = (if int (length (sl_data s)) + da_len b \<le> SLOT_DATA_SIZE
               then s\<lparr>sl_data := sl_data s @ burst_bytes b\<rparr> else s)
      in s\<lparr>sl_last_timestamp := ib_timestamp b, sl_last_ctr := da_ctr b\<rparr>)"

text \<open>The slot for a new message: the first free one, otherwise the one with the oldest time stamp.\<close>

fun find_slot :: "ida_context \<Rightarrow> nat list \<Rightarrow> nat option \<Rightarrow> u64 \<Rightarrow> nat option" where
  "find_slot ctx [] idx oldest = idx"
| "find_slot ctx (i # is) idx oldest =
     (if \<not> sl_active (ctx ! i) then Some i
      else if sl_last_timestamp (ctx ! i) < oldest
      then find_slot ctx is (Some i) (sl_last_timestamp (ctx ! i))
      else find_slot ctx is idx oldest)"

definition start_slot :: "ida_burst \<Rightarrow> ida_reassembly" where
  "start_slot b =
     \<lparr>sl_active = True, sl_direction = ib_direction b, sl_frequency = ib_frequency b,
      sl_last_timestamp = ib_timestamp b, sl_last_ctr = da_ctr b, sl_data = burst_bytes b\<rparr>"

subsection \<open>Reassembly\<close>

definition ida_reassemble :: "ida_context \<Rightarrow> ida_burst \<Rightarrow> ida_context \<times> ida_message option" where
  "ida_reassemble ctx b =
     (if \<not> crc_ok b \<or> da_len b = 0 then (ctx, None)
      else case find (\<lambda>i. slot_matches (ctx ! i) b) [0..<IDA_MAX_REASSEMBLY] of
             Some i \<Rightarrow>
               let s = slot_append (ctx ! i) b
               in if cont b = 0
                  then (ctx[i := s\<lparr>sl_active := False\<rparr>],
                        Some \<lparr>msg_data = sl_data s, msg_timestamp = ib_timestamp b, msg_frequency = sl_frequency s,
                              msg_direction = sl_direction s, msg_magnitude = ib_magnitude b\<rparr>)
                  else (ctx[i := s], None)
           | None \<Rightarrow>
               if da_ctr b = 0 \<and> cont b = 0
               then (ctx, Some \<lparr>msg_data = burst_bytes b, msg_timestamp = ib_timestamp b,
                                msg_frequency = ib_frequency b, msg_direction = ib_direction b,
                                msg_magnitude = ib_magnitude b\<rparr>)
               else if da_ctr b = 0 \<and> cont b \<noteq> 0
               then let idx = (case find_slot ctx [0..<IDA_MAX_REASSEMBLY] None (- 1) of None \<Rightarrow> 0 | Some i \<Rightarrow> i)
                    in (ctx[idx := start_slot b], None)
               else (ctx, None))"

definition flush_slot :: "u64 \<Rightarrow> ida_reassembly \<Rightarrow> ida_reassembly" where
  "flush_slot now_ns s =
     (if sl_active s \<and> now_ns > sl_last_timestamp s + 280000000 then s\<lparr>sl_active := False\<rparr> else s)"

definition ida_reassemble_flush :: "ida_context \<Rightarrow> u64 \<Rightarrow> ida_context" where
  "ida_reassemble_flush ctx now_ns = map (flush_slot now_ns) ctx"

text \<open>Sequences of events: bursts and flushes, with the messages they emit.\<close>

datatype ida_event = Burst ida_burst | Flush u64

fun ida_event_step :: "ida_context \<Rightarrow> ida_event \<Rightarrow> ida_context \<times> ida_message option" where
  "ida_event_step ctx (Burst b) = ida_reassemble ctx b"
| "ida_event_step ctx (Flush now_ns) = (ida_reassemble_flush ctx now_ns, None)"

fun ida_run :: "ida_context \<Rightarrow> ida_event list \<Rightarrow> ida_context \<times> ida_message list" where
  "ida_run ctx [] = (ctx, [])"
| "ida_run ctx (e # es) =
     (case ida_event_step ctx e of
        (ctx', m) \<Rightarrow>
          (case ida_run ctx' es of (ctx'', ms) \<Rightarrow> (ctx'', (case m of None \<Rightarrow> ms | Some x \<Rightarrow> x # ms))))"

subsection \<open>Invariant\<close>

definition slot_wf :: "ida_reassembly \<Rightarrow> bool" where
  "slot_wf s \<longleftrightarrow> length (sl_data s) \<le> 256 \<and> 0 \<le> sl_last_ctr s \<and> sl_last_ctr s \<le> 7 \<and>
     (sl_active s \<longrightarrow> sl_direction s \<in> {DIR_DOWNLINK, DIR_UPLINK} \<and> sl_data s \<noteq> [])"

definition ctx_wf :: "ida_context \<Rightarrow> bool" where
  "ctx_wf ctx \<longleftrightarrow> length ctx = IDA_MAX_REASSEMBLY \<and> list_all slot_wf ctx"

definition empty_slot :: ida_reassembly where
  "empty_slot = \<lparr>sl_active = False, sl_direction = DIR_UNDEF, sl_frequency = 0, sl_last_timestamp = 0,
     sl_last_ctr = 0, sl_data = []\<rparr>"

definition empty_context :: ida_context where
  "empty_context = replicate IDA_MAX_REASSEMBLY empty_slot"

definition msg_wf :: "ida_message \<Rightarrow> bool" where
  "msg_wf m \<longleftrightarrow> 1 \<le> length (msg_data m) \<and> length (msg_data m) \<le> 256 \<and> msg_direction m \<in> {DIR_DOWNLINK, DIR_UPLINK}"

lemma length_burst_bytes: "ida_burst_wf b \<Longrightarrow> length (burst_bytes b) = nat (da_len b)"
  by (auto simp: burst_bytes_def ida_burst_wf_def)

lemma slot_append_simps [simp]:
  "sl_active (slot_append s b) = sl_active s" "sl_direction (slot_append s b) = sl_direction s"
  "sl_frequency (slot_append s b) = sl_frequency s" "sl_last_timestamp (slot_append s b) = ib_timestamp b"
  "sl_last_ctr (slot_append s b) = da_ctr b"
  by (simp_all add: slot_append_def Let_def)

lemma sl_data_slot_append:
  "sl_data (slot_append s b) =
     (if int (length (sl_data s)) + da_len b \<le> 256 then sl_data s @ burst_bytes b else sl_data s)"
  by (simp add: slot_append_def Let_def SLOT_DATA_SIZE_def)

lemma slot_append_wf:
  assumes "slot_wf s" and "ida_burst_wf b"
  shows "slot_wf (slot_append s b)"
  using assms length_burst_bytes [OF assms(2)]
  by (auto simp: slot_wf_def sl_data_slot_append ida_burst_wf_def)

lemma start_slot_wf:
  assumes "ida_burst_wf b" and "da_len b \<noteq> 0"
  shows "slot_wf (start_slot b)"
proof -
  have "length (burst_bytes b) = nat (da_len b)" using assms(1) by (rule length_burst_bytes)
  moreover have "0 < da_len b" "da_len b \<le> 20" using assms by (auto simp: ida_burst_wf_def)
  ultimately have "burst_bytes b \<noteq> []" "length (burst_bytes b) \<le> 256" by auto
  then show ?thesis using assms(1) by (auto simp: slot_wf_def start_slot_def ida_burst_wf_def)
qed

lemma find_slot_less: "find_slot ctx is idx old = Some i \<Longrightarrow> set is \<subseteq> {..<n} \<Longrightarrow> pred_option (\<lambda>i. i < n) idx \<Longrightarrow> i < n"
  by (induction ctx "is" idx old rule: find_slot.induct) (auto split: if_splits)

lemma ctx_wf_update: "ctx_wf ctx \<Longrightarrow> slot_wf s \<Longrightarrow> ctx_wf (ctx[i := s])"
  by (auto simp: ctx_wf_def list_all_iff dest!: set_update_subset_insert [THEN subsetD])

lemma slot_wf_deactivate: "slot_wf s \<Longrightarrow> slot_wf (s\<lparr>sl_active := False\<rparr>)"
  by (simp add: slot_wf_def)

lemma find_matching:
  assumes "find (\<lambda>i. slot_matches (ctx ! i) b) [0..<IDA_MAX_REASSEMBLY] = Some i"
  shows "i < IDA_MAX_REASSEMBLY" "slot_matches (ctx ! i) b"
  using assms by (auto simp: find_Some_iff)

lemma ida_reassemble_wf:
  assumes "ctx_wf ctx" and "ida_burst_wf b"
  shows "ctx_wf (fst (ida_reassemble ctx b)) \<and> pred_option msg_wf (snd (ida_reassemble ctx b))"
proof (cases "crc_ok b \<and> da_len b \<noteq> 0")
  case True
  have bytes: "1 \<le> length (burst_bytes b)" "length (burst_bytes b) \<le> 256" "ib_direction b \<in> {DIR_DOWNLINK, DIR_UPLINK}"
    using start_slot_wf [OF assms(2)] True by (auto simp: slot_wf_def start_slot_def Suc_le_eq)
  show ?thesis
  proof (cases "find (\<lambda>i. slot_matches (ctx ! i) b) [0..<IDA_MAX_REASSEMBLY]")
    case None
    then show ?thesis using True assms bytes start_slot_wf [OF assms(2)]
      by (auto simp: ida_reassemble_def Let_def msg_wf_def ctx_wf_update)
  next
    case (Some i)
    note i = find_matching [OF Some]
    have s: "slot_wf (ctx ! i)" using assms(1) i(1) by (auto simp: ctx_wf_def list_all_length)
    note a = slot_append_wf [OF s assms(2)]
    have "sl_active (ctx ! i)" using i(2) by (simp add: slot_matches_def)
    then have "msg_wf \<lparr>msg_data = sl_data (slot_append (ctx ! i) b), msg_timestamp = ib_timestamp b,
        msg_frequency = sl_frequency (ctx ! i), msg_direction = sl_direction (ctx ! i), msg_magnitude = ib_magnitude b\<rparr>"
      using a by (auto simp: slot_wf_def msg_wf_def Suc_le_eq)
    then show ?thesis using True Some assms(1) a
      by (auto simp: ida_reassemble_def Let_def ctx_wf_update slot_wf_deactivate)
  qed
qed (auto simp: ida_reassemble_def assms(1))

lemma ida_reassemble_flush_wf: "ctx_wf ctx \<Longrightarrow> ctx_wf (ida_reassemble_flush ctx now)"
  by (auto simp: ctx_wf_def ida_reassemble_flush_def list_all_iff flush_slot_def slot_wf_def)

lemma empty_context_wf: "ctx_wf empty_context"
  by (simp add: ctx_wf_def empty_context_def list_all_iff slot_wf_def empty_slot_def)

definition event_wf :: "ida_event \<Rightarrow> bool" where
  "event_wf e \<longleftrightarrow> (case e of Burst b \<Rightarrow> ida_burst_wf b | Flush _ \<Rightarrow> True)"

lemma ida_event_step_wf:
  "ctx_wf ctx \<Longrightarrow> event_wf e \<Longrightarrow> ctx_wf (fst (ida_event_step ctx e)) \<and> pred_option msg_wf (snd (ida_event_step ctx e))"
  by (cases e) (auto simp: event_wf_def ida_reassemble_wf ida_reassemble_flush_wf)

lemma ida_run_wf:
  "ctx_wf ctx \<Longrightarrow> list_all event_wf es \<Longrightarrow> ctx_wf (fst (ida_run ctx es)) \<and> list_all msg_wf (snd (ida_run ctx es))"
proof (induction es arbitrary: ctx)
  case (Cons e es)
  obtain ctx' m where s: "ida_event_step ctx e = (ctx', m)" by fastforce
  then have "ctx_wf ctx'" "pred_option msg_wf m" using ida_event_step_wf [of ctx e] Cons.prems by auto
  then show ?case using Cons.IH [of ctx'] Cons.prems s by (auto split: prod.split option.split)
qed simp

subsection \<open>Channels\<close>

definition far :: "ir_direction \<Rightarrow> real \<Rightarrow> ir_direction \<Rightarrow> real \<Rightarrow> bool" where
  "far d f d' f' \<longleftrightarrow> d' \<noteq> d \<or> \<bar>f' - f\<bar> > 520"

definition foreign_slot :: "ir_direction \<Rightarrow> real \<Rightarrow> ida_reassembly \<Rightarrow> bool" where
  "foreign_slot d f s \<longleftrightarrow> \<not> sl_active s \<or> far d f (sl_direction s) (sl_frequency s)"

definition free_slots :: "ida_context \<Rightarrow> nat" where
  "free_slots ctx = card {j. j < length ctx \<and> \<not> sl_active (ctx ! j)}"

text \<open>A burst that the partial message with time stamp \<open>t\<close> and counter \<open>c\<close> on a channel waits for.\<close>

definition awaited :: "ir_direction \<Rightarrow> real \<Rightarrow> u64 \<Rightarrow> int \<Rightarrow> ida_burst \<Rightarrow> bool" where
  "awaited d f t c b \<longleftrightarrow> crc_ok b \<and> da_len b \<noteq> 0 \<and> ib_direction b = d \<and> \<bar>f - ib_frequency b\<bar> \<le> 260 \<and>
     t \<le> ib_timestamp b \<and> ib_timestamp b - t \<le> 280000000 \<and> (c + 1) mod 8 = da_ctr b"

definition starts :: "ida_burst \<Rightarrow> bool" where
  "starts b \<longleftrightarrow> crc_ok b \<and> da_len b \<noteq> 0 \<and> da_ctr b = 0 \<and> cont b \<noteq> 0"

text \<open>
  \<open>fragments d f t c n m es ds b\<close>: the events \<open>es\<close> complete a message of which \<open>n\<close> bytes have arrived,
  the last ones at time \<open>t\<close> with counter \<open>c\<close>. They contribute the bytes \<open>ds\<close> and end with the burst \<open>b\<close>.
  In between come bursts of other channels, of which at most \<open>m\<close> start messages of their own, and
  flushes that do not exceed the time limit.
\<close>

inductive fragments ::
  "ir_direction \<Rightarrow> real \<Rightarrow> u64 \<Rightarrow> int \<Rightarrow> int \<Rightarrow> nat \<Rightarrow> ida_event list \<Rightarrow> u8 list \<Rightarrow> ida_burst \<Rightarrow> bool" where
  final: "awaited d f t c b \<Longrightarrow> cont b = 0 \<Longrightarrow> n + da_len b \<le> 256 \<Longrightarrow>
    fragments d f t c n m [Burst b] (burst_bytes b) b"
| next_fragment: "awaited d f t c b \<Longrightarrow> cont b \<noteq> 0 \<Longrightarrow> n + da_len b \<le> 256 \<Longrightarrow> ida_burst_wf b \<Longrightarrow>
    fragments d f (ib_timestamp b) (da_ctr b) (n + da_len b) m es ds e \<Longrightarrow>
    fragments d f t c n m (Burst b # es) (burst_bytes b @ ds) e"
| foreign_burst: "far d f (ib_direction b) (ib_frequency b) \<Longrightarrow> \<not> starts b \<Longrightarrow> fragments d f t c n m es ds e \<Longrightarrow>
    fragments d f t c n m (Burst b # es) ds e"
| foreign_start: "far d f (ib_direction b) (ib_frequency b) \<Longrightarrow> fragments d f t c n m es ds e \<Longrightarrow>
    fragments d f t c n (Suc m) (Burst b # es) ds e"
| flush: "now \<le> t + 280000000 \<Longrightarrow> fragments d f t c n m es ds e \<Longrightarrow>
    fragments d f t c n m (Flush now # es) ds e"

inductive_cases fragments_NilE: "fragments d f t c n m [] ds e"

definition own_slot :: "ir_direction \<Rightarrow> real \<Rightarrow> u64 \<Rightarrow> int \<Rightarrow> u8 list \<Rightarrow> nat \<Rightarrow> ida_context \<Rightarrow> bool" where
  "own_slot d f t c ds i ctx \<longleftrightarrow> length ctx = 16 \<and> i < 16 \<and>
     ctx ! i = \<lparr>sl_active = True, sl_direction = d, sl_frequency = f, sl_last_timestamp = t, sl_last_ctr = c, sl_data = ds\<rparr> \<and>
     (\<forall>j<16. j \<noteq> i \<longrightarrow> foreign_slot d f (ctx ! j))"

lemma foreign_no_match:
  assumes "foreign_slot d f s" and "ib_direction b = d" and "\<bar>f - ib_frequency b\<bar> \<le> 260"
  shows "\<not> slot_matches s b"
  using assms by (auto simp: foreign_slot_def far_def slot_matches_def)

lemma find_unique:
  assumes "P i" and "i < n" and "\<And>j. j < n \<Longrightarrow> j \<noteq> i \<Longrightarrow> \<not> P j"
  shows "find P [0..<n] = Some i"
  using assms by (auto simp: find_Some_iff intro!: exI [of _ i])

lemma own_match:
  assumes "own_slot d f t c ds i ctx" and "awaited d f t c b"
  shows "find (\<lambda>j. slot_matches (ctx ! j) b) [0..<IDA_MAX_REASSEMBLY] = Some i"
proof (rule find_unique)
  show "slot_matches (ctx ! i) b" "i < IDA_MAX_REASSEMBLY"
    using assms by (auto simp: own_slot_def awaited_def slot_matches_def IDA_MAX_REASSEMBLY_def)
  show "\<not> slot_matches (ctx ! j) b" if "j < IDA_MAX_REASSEMBLY" "j \<noteq> i" for j
    using assms that by (intro foreign_no_match [of d f]) (auto simp: own_slot_def awaited_def IDA_MAX_REASSEMBLY_def)
qed

lemma reassemble_next:
  assumes "own_slot d f t c ds i ctx" and "awaited d f t c b" and "cont b \<noteq> 0" and "int (length ds) + da_len b \<le> 256"
  obtains ctx' where "ida_reassemble ctx b = (ctx', None)"
    "own_slot d f (ib_timestamp b) (da_ctr b) (ds @ burst_bytes b) i ctx'" "free_slots ctx' = free_slots ctx"
proof -
  let ?s = "slot_append (ctx ! i) b"
  have r: "ida_reassemble ctx b = (ctx[i := ?s], None)"
    using assms(2,3) own_match [OF assms(1,2)] by (simp add: ida_reassemble_def awaited_def Let_def)
  have i: "length ctx = 16" "i < 16" "sl_active (ctx ! i)" using assms(1) by (auto simp: own_slot_def)
  have "?s = \<lparr>sl_active = True, sl_direction = d, sl_frequency = f, sl_last_timestamp = ib_timestamp b,
      sl_last_ctr = da_ctr b, sl_data = ds @ burst_bytes b\<rparr>"
    using assms(1,4) by (simp add: own_slot_def slot_append_def SLOT_DATA_SIZE_def)
  then have o: "own_slot d f (ib_timestamp b) (da_ctr b) (ds @ burst_bytes b) i (ctx[i := ?s])"
    using assms(1) by (auto simp: own_slot_def)
  have "{j. j < length (ctx[i := ?s]) \<and> \<not> sl_active (ctx[i := ?s] ! j)} = {j. j < length ctx \<and> \<not> sl_active (ctx ! j)}"
    using i by (auto simp: nth_list_update split: if_splits)
  then have "free_slots (ctx[i := ?s]) = free_slots ctx" by (simp only: free_slots_def)
  with r o show thesis by (rule that)
qed

lemma reassemble_final:
  assumes "own_slot d f t c ds i ctx" and "awaited d f t c b" and "cont b = 0" and "int (length ds) + da_len b \<le> 256"
  shows "snd (ida_reassemble ctx b) = Some \<lparr>msg_data = ds @ burst_bytes b, msg_timestamp = ib_timestamp b,
    msg_frequency = f, msg_direction = d, msg_magnitude = ib_magnitude b\<rparr>"
  using assms own_match [OF assms(1,2)]
  by (auto simp: ida_reassemble_def awaited_def Let_def own_slot_def sl_data_slot_append)

lemma find_slot_free:
  assumes "j \<in> set is" and "\<not> sl_active (ctx ! j)"
  shows "\<exists>i\<in>set is. find_slot ctx is idx old = Some i \<and> \<not> sl_active (ctx ! i)"
  using assms
proof (induction "is" arbitrary: idx old)
  case (Cons k ks)
  then show ?case by (cases "k = j") auto
qed simp

definition foreign_msg :: "ir_direction \<Rightarrow> real \<Rightarrow> ida_message \<Rightarrow> bool" where
  "foreign_msg d f m \<longleftrightarrow> far d f (msg_direction m) (msg_frequency m)"

lemma free_slots_update:
  assumes "i < length ctx"
  shows "free_slots ctx \<le> free_slots (ctx[i := s]) + (if sl_active (ctx ! i) then 0 else 1)"
    "\<not> sl_active s \<Longrightarrow> free_slots ctx \<le> free_slots (ctx[i := s])"
proof -
  let ?F = "\<lambda>ctx. {j. j < length ctx \<and> \<not> sl_active (ctx ! j)}"
  have fin: "finite (?F c)" for c by simp
  have sub: "?F ctx \<subseteq> insert i (?F (ctx[i := s]))" by (auto simp: nth_list_update)
  have "free_slots ctx \<le> card (insert i (?F (ctx[i := s])))" unfolding free_slots_def by (rule card_mono [OF _ sub]) simp
  also have "\<dots> \<le> Suc (free_slots (ctx[i := s]))" unfolding free_slots_def by (rule card_insert_le_m1) auto
  finally have le: "free_slots ctx \<le> Suc (free_slots (ctx[i := s]))" .
  have act: "free_slots ctx \<le> free_slots (ctx[i := s])" if "sl_active (ctx ! i) \<or> \<not> sl_active s"
    unfolding free_slots_def by (rule card_mono [OF fin]) (use that assms in \<open>auto simp: nth_list_update\<close>)
  show "free_slots ctx \<le> free_slots (ctx[i := s]) + (if sl_active (ctx ! i) then 0 else 1)" using le act by simp
  show "\<not> sl_active s \<Longrightarrow> free_slots ctx \<le> free_slots (ctx[i := s])" using act by blast
qed

lemma own_slot_update:
  "own_slot d f t c ds i ctx \<Longrightarrow> j \<noteq> i \<Longrightarrow> foreign_slot d f s \<Longrightarrow> own_slot d f t c ds i (ctx[j := s])"
  by (auto simp: own_slot_def nth_list_update_read)

lemma reassemble_foreign:
  assumes "own_slot d f t c ds i ctx" and "far d f (ib_direction b) (ib_frequency b)"
    and "starts b \<Longrightarrow> 0 < free_slots ctx"
  obtains ctx' m where "ida_reassemble ctx b = (ctx', m)" "own_slot d f t c ds i ctx'" "pred_option (foreign_msg d f) m"
    "free_slots ctx \<le> free_slots ctx' + of_bool (starts b)"
proof -
  have len: "length ctx = 16" "i < 16" using assms(1) by (auto simp: own_slot_def)
  consider (none) "ida_reassemble ctx b = (ctx, None)"
    | (single) m where "ida_reassemble ctx b = (ctx, Some m)" "foreign_msg d f m"
    | (match) j where "find (\<lambda>i. slot_matches (ctx ! i) b) [0..<IDA_MAX_REASSEMBLY] = Some j" "crc_ok b" "da_len b \<noteq> 0"
    | (start) "starts b" "find (\<lambda>i. slot_matches (ctx ! i) b) [0..<IDA_MAX_REASSEMBLY] = None"
    using assms(2)
    by (cases "crc_ok b \<and> da_len b \<noteq> 0"; cases "find (\<lambda>i. slot_matches (ctx ! i) b) [0..<IDA_MAX_REASSEMBLY]";
        cases "da_ctr b = 0"; cases "cont b = 0") (auto simp: ida_reassemble_def starts_def foreign_msg_def)
  then show thesis
  proof cases
    case none
    then show ?thesis using assms(1) that by simp
  next
    case single
    then show ?thesis using assms(1) that by simp
  next
    case match
    note j = find_matching [OF match(1)]
    have ji: "j \<noteq> i" using j(2) assms(1,2) by (auto simp: own_slot_def slot_matches_def far_def)
    have act: "sl_active (ctx ! j)" using j(2) by (simp add: slot_matches_def)
    have fs: "foreign_slot d f (ctx ! j)" using assms(1) j(1) ji by (auto simp: own_slot_def IDA_MAX_REASSEMBLY_def)
    define s where "s = (if cont b = 0 then (slot_append (ctx ! j) b)\<lparr>sl_active := False\<rparr> else slot_append (ctx ! j) b)"
    have s: "foreign_slot d f s" using fs by (auto simp: s_def foreign_slot_def)
    have "fst (ida_reassemble ctx b) = ctx[j := s]" "pred_option (foreign_msg d f) (snd (ida_reassemble ctx b))"
      using match fs act by (auto simp: ida_reassemble_def Let_def s_def foreign_msg_def foreign_slot_def)
    moreover have "free_slots ctx \<le> free_slots (ctx[j := s])"
      using free_slots_update(1) [of j ctx s] act j(1) len by (simp add: IDA_MAX_REASSEMBLY_def)
    ultimately show ?thesis using own_slot_update [OF assms(1) ji s] that by (metis prod.collapse trans_le_add1)
  next
    case start
    have "{j. j < length ctx \<and> \<not> sl_active (ctx ! j)} \<noteq> {}"
      using assms(3) start(1) unfolding free_slots_def by (metis card.empty less_numeral_extra(3))
    then obtain j0 where "j0 \<in> set [0..<16]" "\<not> sl_active (ctx ! j0)" using len by auto
    then obtain j where j: "j < 16" "find_slot ctx [0..<16] None (- 1) = Some j" "\<not> sl_active (ctx ! j)"
      using find_slot_free [of j0 "[0..<16]" ctx None "- 1"] by auto
    have ji: "j \<noteq> i" using assms(1) j(3) by (auto simp: own_slot_def)
    have r: "ida_reassemble ctx b = (ctx[j := start_slot b], None)"
      using start j by (simp add: ida_reassemble_def starts_def IDA_MAX_REASSEMBLY_def)
    have "foreign_slot d f (start_slot b)" using assms(2) by (simp add: foreign_slot_def start_slot_def)
    from own_slot_update [OF assms(1) ji this] show ?thesis
      using r that free_slots_update(1) [of j ctx "start_slot b"] j len start(1) by simp
  qed
qed

lemma flush_own:
  assumes "own_slot d f t c ds i ctx" and "now \<le> t + 280000000"
  shows "own_slot d f t c ds i (ida_reassemble_flush ctx now)" "free_slots ctx \<le> free_slots (ida_reassemble_flush ctx now)"
proof -
  show "own_slot d f t c ds i (ida_reassemble_flush ctx now)"
    using assms by (auto simp: own_slot_def ida_reassemble_flush_def flush_slot_def foreign_slot_def not_less)
  show "free_slots ctx \<le> free_slots (ida_reassemble_flush ctx now)"
    unfolding free_slots_def by (rule card_mono) (auto simp: ida_reassemble_flush_def flush_slot_def)
qed

lemma fragments_assembled:
  assumes "fragments d f t c n m es ds e" and "own_slot d f t c pre i ctx" and "n = int (length pre)" and "m \<le> free_slots ctx"
  shows "filter (\<lambda>x. \<not> foreign_msg d f x) (snd (ida_run ctx es)) =
    [\<lparr>msg_data = pre @ ds, msg_timestamp = ib_timestamp e, msg_frequency = f, msg_direction = d,
      msg_magnitude = ib_magnitude e\<rparr>]"
  using assms
proof (induction arbitrary: pre ctx rule: fragments.induct)
  case (final d f t c b n m)
  obtain ctx' where "ida_reassemble ctx b = (ctx', Some \<lparr>msg_data = pre @ burst_bytes b, msg_timestamp = ib_timestamp b,
      msg_frequency = f, msg_direction = d, msg_magnitude = ib_magnitude b\<rparr>)"
    using reassemble_final [OF final.prems(1) final.hyps(1,2)] final.hyps(3) final.prems(2) by (metis prod.collapse)
  then show ?case by (simp add: foreign_msg_def far_def)
next
  case (next_fragment d f t c b n m es ds e)
  obtain ctx' where c: "ida_reassemble ctx b = (ctx', None)"
    "own_slot d f (ib_timestamp b) (da_ctr b) (pre @ burst_bytes b) i ctx'" "free_slots ctx' = free_slots ctx"
    using reassemble_next [OF next_fragment.prems(1) next_fragment.hyps(1,2)] next_fragment.hyps(3) next_fragment.prems(2)
    by metis
  have "n + da_len b = int (length (pre @ burst_bytes b))"
    using length_burst_bytes [OF next_fragment.hyps(4)] next_fragment.hyps(4) next_fragment.prems(2)
    by (simp add: ida_burst_wf_def)
  then show ?case using next_fragment.IH [OF c(2)] next_fragment.prems(3) c by (simp split: prod.split)
next
  case (foreign_burst d f b t c n m es ds e)
  obtain ctx' r where "ida_reassemble ctx b = (ctx', r)" "own_slot d f t c pre i ctx'" "pred_option (foreign_msg d f) r"
      "free_slots ctx \<le> free_slots ctx'"
    using reassemble_foreign [OF foreign_burst.prems(1) foreign_burst.hyps(1)] foreign_burst.hyps(2) by auto
  then show ?case using foreign_burst.IH [of pre ctx'] foreign_burst.prems(2,3) by (auto split: prod.split option.split)
next
  case (foreign_start d f b t c n m es ds e)
  obtain ctx' r where "ida_reassemble ctx b = (ctx', r)" "own_slot d f t c pre i ctx'" "pred_option (foreign_msg d f) r"
      "free_slots ctx \<le> free_slots ctx' + of_bool (starts b)"
    using reassemble_foreign [OF foreign_start.prems(1) foreign_start.hyps(1)] foreign_start.prems(3) by auto
  moreover from this have "m \<le> free_slots ctx'" using foreign_start.prems(3) by (cases "starts b") auto
  ultimately show ?case using foreign_start.IH [of pre ctx'] foreign_start.prems(2) by (auto split: prod.split option.split)
next
  case (flush now t d f c n m es ds e)
  then show ?case using flush_own [OF flush.prems(1) flush.hyps(1)] flush.IH [of pre "ida_reassemble_flush ctx now"]
    by (auto split: prod.split)
qed

lemma message_started:
  assumes "length ctx = 16" and "\<forall>j<16. foreign_slot d f (ctx ! j)" and "m < free_slots ctx"
    and "starts b" and "ib_direction b = d" and "ib_frequency b = f"
  obtains i ctx' where "ida_reassemble ctx b = (ctx', None)" "own_slot d f (ib_timestamp b) 0 (burst_bytes b) i ctx'"
    "m \<le> free_slots ctx'"
proof -
  have none: "find (\<lambda>i. slot_matches (ctx ! i) b) [0..<IDA_MAX_REASSEMBLY] = None"
    using assms(2,5,6) by (auto simp: find_None_iff IDA_MAX_REASSEMBLY_def foreign_no_match [of d f])
  have "{j. j < length ctx \<and> \<not> sl_active (ctx ! j)} \<noteq> {}"
    using assms(3) unfolding free_slots_def by (metis card.empty not_less_zero)
  then obtain j0 where "j0 \<in> set [0..<16]" "\<not> sl_active (ctx ! j0)" using assms(1) by auto
  then obtain j where j: "j < 16" "find_slot ctx [0..<16] None (- 1) = Some j" "\<not> sl_active (ctx ! j)"
    using find_slot_free [of j0 "[0..<16]" ctx None "- 1"] by auto
  have r: "ida_reassemble ctx b = (ctx[j := start_slot b], None)"
    using assms(4) none j by (simp add: ida_reassemble_def starts_def IDA_MAX_REASSEMBLY_def)
  have "own_slot d f (ib_timestamp b) 0 (burst_bytes b) j (ctx[j := start_slot b])"
    using assms j(1) by (auto simp: own_slot_def start_slot_def starts_def)
  then show thesis using r that free_slots_update(1) [of j ctx "start_slot b"] j assms(1,3) by simp
qed

subsection \<open>Properties\<close>


definition example_burst :: "u64 \<Rightarrow> real \<Rightarrow> int \<Rightarrow> int \<Rightarrow> u8 list \<Rightarrow> ida_burst" where
  "example_burst t f ctr cn bs =
     \<lparr>ib_timestamp = t, ib_frequency = f, ib_direction = DIR_DOWNLINK, ib_magnitude = 1, ib_noise = 0,
      ib_level = 0, ib_confidence = 100, ib_n_symbols = 179, da_ctr = ctr, da_len = int (length bs), cont = cn,
      payload = bs @ replicate (32 - length bs) 0, payload_len = int (length bs), crc_ok = True,
      stored_crc = 0, computed_crc = 0, fixederrs = 0, bch_stream = replicate 256 0, bch_len = 200,
      burst_lcw = \<lparr>ft = 2, lcw_ok = 1, lcw_ft = 0, lcw_code = 0, lcw3_val = 0, ec_lcw = 0\<rparr>, lcw_header = []\<rparr>"

lemma free_slots_empty: "free_slots empty_context = 16"
proof -
  have "{j. j < length empty_context \<and> \<not> sl_active (empty_context ! j)} = {..<16}"
    by (auto simp: empty_context_def empty_slot_def IDA_MAX_REASSEMBLY_def)
  then show ?thesis by (simp add: free_slots_def)
qed


text \<open>
  C14. The slots stay well formed. Starting from the empty context, after any sequence of
  well-formed bursts and flushes there are 16 slots, none holds more than its 256 bytes, the
  counters are in range, and active slots are non-empty and have a direction. Every emitted message
  has between 1 and 256 bytes.
\<close>

theorem reassembly_invariant:
  assumes "list_all event_wf es"
  shows "ctx_wf (fst (ida_run empty_context es)) \<and> list_all msg_wf (snd (ida_run empty_context es))"
  by (rule ida_run_wf [OF empty_context_wf assms])

theorem reassembly_invariant_witness:
  "ctx_wf (fst (ida_run empty_context [Burst (example_burst 100 1000 0 1 [1, 2, 3]), Flush 120]))"
proof -
  have "list_all event_wf [Burst (example_burst 100 1000 0 1 [1, 2, 3]), Flush 120]"
    by (simp add: event_wf_def example_burst_def ida_burst_wf_def lcw_wf_def)
  from reassembly_invariant [OF this] show ?thesis by blast
qed

text \<open>
  C17. A fragment that does not fit the slot's buffer is left out, yet the message
  is still delivered when that fragment is the last one: the receiver of the message gets a shorter one,
  without notice.
\<close>

theorem overlong_message_truncated:
  assumes "own_slot d f t c ds i ctx" and "awaited d f t c b" and "cont b = 0" and "int (length ds) + da_len b > 256"
  shows "snd (ida_reassemble ctx b) = Some \<lparr>msg_data = ds, msg_timestamp = ib_timestamp b,
    msg_frequency = f, msg_direction = d, msg_magnitude = ib_magnitude b\<rparr>"
  using assms own_match [OF assms(1,2)]
  by (auto simp: ida_reassemble_def awaited_def Let_def own_slot_def sl_data_slot_append)

definition full_slot :: ida_reassembly where
  "full_slot = \<lparr>sl_active = True, sl_direction = DIR_DOWNLINK, sl_frequency = 1000, sl_last_timestamp = 100,
     sl_last_ctr = 4, sl_data = replicate 250 7\<rparr>"

theorem overlong_message_truncated_witness:
  "snd (ida_reassemble (empty_context[0 := full_slot]) (example_burst 200 1000 5 0 (replicate 10 9))) =
   Some \<lparr>msg_data = replicate 250 7, msg_timestamp = 200, msg_frequency = 1000, msg_direction = DIR_DOWNLINK,
     msg_magnitude = 1\<rparr>"
proof -
  let ?b = "example_burst 200 1000 5 0 (replicate 10 9)" and ?c = "empty_context[0 := full_slot]"
  have "own_slot DIR_DOWNLINK 1000 100 4 (replicate 250 7) 0 ?c"
    by (auto simp: own_slot_def full_slot_def empty_context_def IDA_MAX_REASSEMBLY_def foreign_slot_def
        empty_slot_def nth_list_update)
  moreover have "awaited DIR_DOWNLINK 1000 100 4 ?b" by (simp add: awaited_def example_burst_def)
  ultimately show ?thesis
    using overlong_message_truncated [of DIR_DOWNLINK 1000 100 4 "replicate 250 7" 0 ?c ?b]
    by (simp add: example_burst_def)
qed

end
