(* ===== verification/Sbd.thy ===== *)
theory Sbd
  imports IdaReassembly
begin

text \<open>
  Short burst data, \<^verbatim>\<open>sbd_extract\<close> and \<^verbatim>\<open>sbd_expire\<close> of \<^verbatim>\<open>src/sbd_acars.c\<close>: packets are recognised in the
  messages of the IDA reassembly, their headers are read, and messages of several packets are put together
  in eight slots. The call of \<^verbatim>\<open>sbd_process\<close>, of which there is at most one per message, is returned as a value.

  The lemmas show that the slots keep their invariant, that no read leaves the message, and that a message sent
  in several packets is delivered completely whatever arrives in between in the other direction.
\<close>

subsection \<open>Data\<close>

definition SBD_MAX_MULTI :: nat where "SBD_MAX_MULTI = 8"
definition SBD_MAX_DATA :: nat where "SBD_MAX_DATA = 1024"
definition SBD_TIMEOUT_NS :: u64 where "SBD_TIMEOUT_NS = 5000000000"

record sbd_multi =
  sm_active :: bool
  sm_msgno :: int
  sm_msgcnt :: int
  sm_ul :: bool
  sm_timestamp :: u64
  sm_frequency :: real
  sm_magnitude :: real
  sm_data :: "u8 list"

record sbd_stats =
  stat_ida_total :: int
  stat_sbd_total :: int
  stat_sbd_short :: int
  stat_sbd_single :: int
  stat_sbd_multi_ok :: int
  stat_sbd_multi_frag :: int
  stat_sbd_broken :: int

record sbd_state =
  sbd_slots :: "sbd_multi list"
  sbd_counts :: sbd_stats

record sbd_packet =
  pk_data :: "u8 list"
  pk_ul :: bool
  pk_timestamp :: u64
  pk_frequency :: real
  pk_magnitude :: real

definition sbd_empty_slot :: sbd_multi where
  "sbd_empty_slot = \<lparr>sm_active = False, sm_msgno = 0, sm_msgcnt = 0, sm_ul = False, sm_timestamp = 0, sm_frequency = 0,
     sm_magnitude = 0, sm_data = []\<rparr>"

definition sbd_start :: sbd_state where
  "sbd_start = \<lparr>sbd_slots = replicate SBD_MAX_MULTI sbd_empty_slot,
     sbd_counts = \<lparr>stat_ida_total = 0, stat_sbd_total = 0, stat_sbd_short = 0, stat_sbd_single = 0, stat_sbd_multi_ok = 0,
       stat_sbd_multi_frag = 0, stat_sbd_broken = 0\<rparr>\<rparr>"

subsection \<open>Headers\<close>

definition is_sbd :: "bool \<Rightarrow> u8 list \<Rightarrow> bool" where
  "is_sbd ul data =
     (if data ! 0 = 0x76 \<and> data ! 1 \<noteq> 5
      then if ul then 0x0c \<le> data ! 1 \<and> data ! 1 \<le> 0x0e else 0x08 \<le> data ! 1 \<and> data ! 1 \<le> 0x0b
      else if data ! 0 = 0x06 \<and> data ! 1 = 0x00
      then data ! 2 = 0x00 \<or> data ! 2 = 0x10 \<or> data ! 2 = 0x20 \<or> data ! 2 = 0x40 \<or> data ! 2 = 0x50 \<or> data ! 2 = 0x70
      else False)"

text \<open>Message number, message count and payload; \<open>None\<close> where the code returns early.\<close>

definition sbd_payload :: "bool \<Rightarrow> int \<Rightarrow> u8 list \<Rightarrow> (int \<times> int \<times> u8 list) option" where
  "sbd_payload ul msgcnt data =
     (let data = (if ul \<and> length data \<ge> 3 \<and> (data ! 0 = 0x50 \<or> data ! 0 = 0x51) then drop 3 data else data)
      in if length data = 0 then Some (0, msgcnt, [])
         else if length data > 3 \<and> data ! 0 = 0x10
         then let pkt_len = unat (data ! 1); msgno = uint (data ! 2); data = drop 3 data
              in if length data < pkt_len then None
                 else Some (msgno, msgcnt, if length data > pkt_len then take pkt_len data else data)
         else Some (0, msgcnt, data))"

definition sbd_header :: "bool \<Rightarrow> u8 list \<Rightarrow> (int \<times> int \<times> u8 list) option" where
  "sbd_header ul data0 =
     (let typ0 = data0 ! 0; typ1 = data0 ! 1; data = drop 2 data0
      in if typ0 = 0x06 \<and> typ1 = 0x00
         then if length data < 30 \<or> data ! 0 \<noteq> 0x20 then None
              else let msgcnt = uint (data ! 15)
                   in Some (if msgcnt = 0 then 0 else 1, msgcnt, drop 29 data)
         else if typ1 = 0x08
         then if length data < 5 then None
              else let prehdr_len = (if data ! 0 = 0x26 then 7 else if data ! 0 = 0x20 then 5 else 7)
                   in if length data < prehdr_len then None
                      else sbd_payload ul (uint (data ! 3)) (drop prehdr_len data)
         else sbd_payload ul (- 1) data)"

subsection \<open>Slots\<close>

definition sbd_expire :: "u64 \<Rightarrow> sbd_multi list \<Rightarrow> sbd_multi list" where
  "sbd_expire now = map (\<lambda>s. if sm_active s \<and> now > sm_timestamp s + SBD_TIMEOUT_NS then s\<lparr>sm_active := False\<rparr> else s)"

fun oldest_scan :: "sbd_multi list \<Rightarrow> nat list \<Rightarrow> u64 \<Rightarrow> nat option \<Rightarrow> nat option" where
  "oldest_scan slots [] oldest idx = idx"
| "oldest_scan slots (i # is) oldest idx =
     (if sm_timestamp (slots ! i) < oldest then oldest_scan slots is (sm_timestamp (slots ! i)) (Some i)
      else oldest_scan slots is oldest idx)"

definition sbd_free_index :: "sbd_multi list \<Rightarrow> nat" where
  "sbd_free_index slots =
     (case find (\<lambda>i. \<not> sm_active (slots ! i)) [0..<SBD_MAX_MULTI] of
        Some i \<Rightarrow> i
      | None \<Rightarrow> (case oldest_scan slots [0..<SBD_MAX_MULTI] (- 1) None of Some i \<Rightarrow> i | None \<Rightarrow> 0))"

definition sbd_append :: "sbd_multi \<Rightarrow> int \<Rightarrow> u64 \<Rightarrow> u8 list \<Rightarrow> sbd_multi" where
  "sbd_append s msgno timestamp sbd_data =
     (let space = SBD_MAX_DATA - length (sm_data s);
          copy = (if length sbd_data > space then space else length sbd_data)
      in s\<lparr>sm_data := (if copy > 0 then sm_data s @ take copy sbd_data else sm_data s), sm_msgno := msgno, sm_timestamp := timestamp\<rparr>)"

definition sbd_dispatch :: "sbd_state \<Rightarrow> int \<Rightarrow> int \<Rightarrow> u8 list \<Rightarrow> bool \<Rightarrow> u64 \<Rightarrow> real \<Rightarrow> real \<Rightarrow> sbd_state \<times> sbd_packet option" where
  "sbd_dispatch st msgno msgcnt sbd_data ul timestamp frequency magnitude =
     (let c = sbd_counts st; slots = sbd_slots st;
          packet = \<lparr>pk_data = sbd_data, pk_ul = ul, pk_timestamp = timestamp, pk_frequency = frequency, pk_magnitude = magnitude\<rparr>
      in if msgno = 0
         then (st\<lparr>sbd_counts := c\<lparr>stat_sbd_short := stat_sbd_short c + 1\<rparr>\<rparr>, if length sbd_data > 0 then Some packet else None)
         else if msgcnt = 1 \<and> msgno = 1
         then (st\<lparr>sbd_counts := c\<lparr>stat_sbd_single := stat_sbd_single c + 1\<rparr>\<rparr>, Some packet)
         else if msgcnt > 1
         then (st\<lparr>sbd_slots := slots[sbd_free_index slots :=
                   \<lparr>sm_active = True, sm_msgno = msgno, sm_msgcnt = msgcnt, sm_ul = ul, sm_timestamp = timestamp,
                    sm_frequency = frequency, sm_magnitude = magnitude,
                    sm_data = take (if length sbd_data > SBD_MAX_DATA then SBD_MAX_DATA else length sbd_data) sbd_data\<rparr>]\<rparr>, None)
         else if msgno > 1
         then case find (\<lambda>i. sm_active (slots ! i) \<and> sm_ul (slots ! i) = ul \<and> msgno = sm_msgno (slots ! i) + 1) (rev [0..<SBD_MAX_MULTI]) of
                None \<Rightarrow> (st\<lparr>sbd_counts := c\<lparr>stat_sbd_broken := stat_sbd_broken c + 1\<rparr>\<rparr>, None)
              | Some i \<Rightarrow>
                  let s = sbd_append (slots ! i) msgno timestamp sbd_data;
                      c = c\<lparr>stat_sbd_multi_frag := stat_sbd_multi_frag c + 1\<rparr>
                  in if msgno = sm_msgcnt s
                     then (st\<lparr>sbd_slots := slots[i := s\<lparr>sm_active := False\<rparr>], sbd_counts := c\<lparr>stat_sbd_multi_ok := stat_sbd_multi_ok c + 1\<rparr>\<rparr>,
                           Some \<lparr>pk_data = sm_data s, pk_ul = ul, pk_timestamp = timestamp, pk_frequency = sm_frequency s,
                                 pk_magnitude = sm_magnitude s\<rparr>)
                     else (st\<lparr>sbd_slots := slots[i := s], sbd_counts := c\<rparr>, None)
         else (st, None))"

definition sbd_extract :: "sbd_state \<Rightarrow> u8 list \<Rightarrow> bool \<Rightarrow> u64 \<Rightarrow> real \<Rightarrow> real \<Rightarrow> sbd_state \<times> sbd_packet option" where
  "sbd_extract st data ul timestamp frequency magnitude =
     (if length data < 5 then (st, None)
      else if \<not> is_sbd ul data then (st, None)
      else
        let st = st\<lparr>sbd_counts := (sbd_counts st)\<lparr>stat_sbd_total := stat_sbd_total (sbd_counts st) + 1\<rparr>\<rparr>
        in case sbd_header ul data of
             None \<Rightarrow> (st, None)
           | Some (msgno, msgcnt, sbd_data) \<Rightarrow>
               sbd_dispatch (st\<lparr>sbd_slots := sbd_expire timestamp (sbd_slots st)\<rparr>) msgno msgcnt sbd_data ul timestamp frequency magnitude)"

definition acars_ida_cb :: "sbd_state \<Rightarrow> ida_message \<Rightarrow> sbd_state \<times> sbd_packet option" where
  "acars_ida_cb st m =
     sbd_extract (st\<lparr>sbd_counts := (sbd_counts st)\<lparr>stat_ida_total := stat_ida_total (sbd_counts st) + 1\<rparr>\<rparr>)
       (msg_data m) (msg_direction m = DIR_UPLINK) (msg_timestamp m) (msg_frequency m) (msg_magnitude m)"

text \<open>A run over a sequence of messages, with the packets handed to \<^verbatim>\<open>sbd_process\<close>.\<close>

fun sbd_run :: "sbd_state \<Rightarrow> ida_message list \<Rightarrow> sbd_state \<times> sbd_packet list" where
  "sbd_run st [] = (st, [])"
| "sbd_run st (m # ms) =
     (case acars_ida_cb st m of (st', p) \<Rightarrow> case sbd_run st' ms of (st'', ps) \<Rightarrow> (st'', (case p of None \<Rightarrow> ps | Some q \<Rightarrow> q # ps)))"

subsection \<open>Invariant\<close>

definition sbd_slot_ok :: "sbd_multi \<Rightarrow> bool" where
  "sbd_slot_ok s \<longleftrightarrow> length (sm_data s) \<le> SBD_MAX_DATA \<and>
     (sm_active s \<longrightarrow> 0 < sm_msgno s \<and> sm_msgno s < 256 \<and> 1 < sm_msgcnt s \<and> sm_msgcnt s < 256)"

definition sbd_ok :: "sbd_state \<Rightarrow> bool" where
  "sbd_ok st \<longleftrightarrow> length (sbd_slots st) = SBD_MAX_MULTI \<and> (\<forall>s \<in> set (sbd_slots st). sbd_slot_ok s)"

lemma sbd_start_ok: "sbd_ok sbd_start"
  by (simp add: sbd_ok_def sbd_start_def sbd_slot_ok_def sbd_empty_slot_def SBD_MAX_MULTI_def SBD_MAX_DATA_def)

lemma uint8_bounds: "0 \<le> uint (b :: u8)" "- 1 \<le> uint b" "uint b < 256"
  using uint_lt2p [of b] by (simp_all add: order_trans [of "- 1" 0])

lemma sbd_payload_bounds:
  assumes "sbd_payload ul msgcnt data = Some (msgno, cnt, p)"
  shows "cnt = msgcnt \<and> 0 \<le> msgno \<and> msgno < 256 \<and> length p \<le> length data"
  using assms uint8_bounds by (auto simp: sbd_payload_def Let_def split: if_splits)

lemma sbd_header_bounds:
  assumes "sbd_header ul data = Some (msgno, cnt, p)"
  shows "0 \<le> msgno \<and> msgno < 256 \<and> - 1 \<le> cnt \<and> cnt < 256 \<and> length p \<le> length data"
  using assms uint8_bounds [of "data ! 17"] uint8_bounds [of "data ! 5"]
  by (auto simp: sbd_header_def Let_def split: if_splits dest!: sbd_payload_bounds)

lemma oldest_scan_in: "oldest_scan slots is oldest idx = Some i \<Longrightarrow> i \<in> set is \<or> idx = Some i"
  by (induction slots "is" oldest idx rule: oldest_scan.induct) (auto split: if_splits)

lemma sbd_free_index_bound: "sbd_free_index slots < SBD_MAX_MULTI"
  by (auto simp: sbd_free_index_def SBD_MAX_MULTI_def find_Some_iff split: option.splits dest!: oldest_scan_in)

lemma sbd_expire_slot:
  assumes "s \<in> set (sbd_expire now slots)"
  obtains s0 where "s0 \<in> set slots" and "s = s0 \<or> s = s0\<lparr>sm_active := False\<rparr>"
  using assms by (auto simp: sbd_expire_def split: if_splits)

lemma sbd_expire_ok: "sbd_ok st \<Longrightarrow> sbd_ok (st\<lparr>sbd_slots := sbd_expire now (sbd_slots st)\<rparr>)"
  by (auto simp: sbd_ok_def sbd_slot_ok_def elim!: sbd_expire_slot) (simp add: sbd_expire_def)

lemma sbd_append_data:
  assumes "length (sm_data s) \<le> SBD_MAX_DATA"
  shows "sm_data (sbd_append s msgno t p) = take SBD_MAX_DATA (sm_data s @ p)"
  using assms by (auto simp: sbd_append_def Let_def)

lemma sbd_dispatch_ok:
  assumes "sbd_ok st" and "0 \<le> msgno" and "msgno < 256" and "cnt < 256"
    and "sbd_dispatch st msgno cnt p ul t f m = (st', out)"
  shows "sbd_ok st' \<and> (\<forall>q. out = Some q \<longrightarrow> length (pk_data q) \<le> max SBD_MAX_DATA (length p))"
proof -
  consider "msgno = 0 \<or> cnt = 1 \<and> msgno = 1" | "msgno \<noteq> 0" "cnt > 1" | "msgno > 1" "cnt \<le> 1" | "msgno = 1" "cnt < 1"
    using assms(2) by fastforce
  then show ?thesis
  proof cases
    case 1
    then show ?thesis using assms(1,5) by (auto simp: sbd_dispatch_def sbd_ok_def Let_def split: if_splits)
  next
    case 2
    then show ?thesis using assms
      by (auto simp: sbd_dispatch_def sbd_ok_def sbd_slot_ok_def Let_def split: if_splits dest!: set_update_subset_insert [THEN subsetD])
  next
    case 3
    then have c: "\<not> (cnt = 1 \<and> msgno = 1)" "msgno \<noteq> 0" "\<not> cnt > 1" by auto
    let ?f = "find (\<lambda>i. sm_active (sbd_slots st ! i) \<and> sm_ul (sbd_slots st ! i) = ul \<and> msgno = sm_msgno (sbd_slots st ! i) + 1) (rev [0..<SBD_MAX_MULTI])"
    show ?thesis
    proof (cases ?f)
      case None
      then show ?thesis using assms(1,5) 3 c by (auto simp: sbd_dispatch_def sbd_ok_def Let_def)
    next
      case (Some i)
      then have i: "i < SBD_MAX_MULTI" "sm_active (sbd_slots st ! i)" by (auto simp: find_Some_iff rev_nth)
      then have s: "sbd_slot_ok (sbd_slots st ! i)" using assms(1) by (auto simp: sbd_ok_def)
      then have d: "length (sm_data (sbd_append (sbd_slots st ! i) msgno t p)) \<le> SBD_MAX_DATA"
        by (subst sbd_append_data) (auto simp: sbd_slot_ok_def)
      then have "sbd_slot_ok (sbd_append (sbd_slots st ! i) msgno t p)"
        using s i 3 assms(3) by (auto simp: sbd_slot_ok_def sbd_append_def Let_def)
      then have "sbd_slot_ok (sbd_append (sbd_slots st ! i) msgno t p)"
        "sbd_slot_ok ((sbd_append (sbd_slots st ! i) msgno t p)\<lparr>sm_active := False\<rparr>)" by (auto simp: sbd_slot_ok_def)
      then show ?thesis using assms(1,5) 3 c Some d
        by (auto simp: sbd_dispatch_def sbd_ok_def Let_def split: if_splits dest!: set_update_subset_insert [THEN subsetD])
    qed
  next
    case 4
    then show ?thesis using assms(1,5) by (auto simp: sbd_dispatch_def Let_def)
  qed
qed

lemma sbd_ok_counts [simp]: "sbd_ok (st\<lparr>sbd_counts := c\<rparr>) = sbd_ok st"
  by (simp add: sbd_ok_def)

lemma sbd_extract_ok:
  assumes "sbd_ok st" and "sbd_extract st data ul t f m = (st', out)"
  shows "sbd_ok st' \<and> (\<forall>q. out = Some q \<longrightarrow> length (pk_data q) \<le> max SBD_MAX_DATA (length data))"
proof (cases "length data < 5 \<or> \<not> is_sbd ul data \<or> sbd_header ul data = None")
  case True
  then show ?thesis using assms by (auto simp: sbd_extract_def Let_def split: if_splits)
next
  case False
  then obtain no cnt p where h: "sbd_header ul data = Some (no, cnt, p)" by auto
  note b = sbd_header_bounds [OF h]
  have "sbd_ok (st\<lparr>sbd_counts := c, sbd_slots := sbd_expire t (sbd_slots st)\<rparr>)" for c
    using sbd_expire_ok [of "st\<lparr>sbd_counts := c\<rparr>" t] assms(1) by simp
  from sbd_dispatch_ok [OF this, of no cnt] b assms(2) False h show ?thesis
    by (fastforce simp: sbd_extract_def Let_def)
qed

subsection \<open>Messages of several packets\<close>

definition in_time :: "u64 \<Rightarrow> u64 \<Rightarrow> bool" where
  "in_time t now \<longleftrightarrow> now \<le> t + SBD_TIMEOUT_NS"

definition free_sbd :: "sbd_multi list \<Rightarrow> nat" where
  "free_sbd slots = length (filter (\<lambda>s. \<not> sm_active s) slots)"

definition own_sbd :: "bool \<Rightarrow> u64 \<Rightarrow> int \<Rightarrow> int \<Rightarrow> real \<Rightarrow> real \<Rightarrow> u8 list \<Rightarrow> nat \<Rightarrow> sbd_multi list \<Rightarrow> bool" where
  "own_sbd ul t no cnt f m ds i slots \<longleftrightarrow> length slots = SBD_MAX_MULTI \<and> i < SBD_MAX_MULTI \<and>
     slots ! i = \<lparr>sm_active = True, sm_msgno = no, sm_msgcnt = cnt, sm_ul = ul, sm_timestamp = t, sm_frequency = f,
       sm_magnitude = m, sm_data = ds\<rparr> \<and>
     (\<forall>j < SBD_MAX_MULTI. j \<noteq> i \<longrightarrow> \<not> (sm_active (slots ! j) \<and> sm_ul (slots ! j) = ul))"

lemma own_expire:
  assumes "own_sbd ul t no cnt f m ds i slots" and "in_time t now"
  shows "own_sbd ul t no cnt f m ds i (sbd_expire now slots)"
  using assms by (auto simp: own_sbd_def sbd_expire_def in_time_def)

lemma free_expire: "free_sbd slots \<le> free_sbd (sbd_expire now slots)"
  by (induction slots) (auto simp: free_sbd_def sbd_expire_def)

lemma free_update:
  assumes "j < length slots"
  shows "free_sbd (slots[j := s]) + (if sm_active (slots ! j) then 0 else 1) = free_sbd slots + (if sm_active s then 0 else 1)"
  using assms
proof (induction slots arbitrary: j)
  case (Cons a slots)
  show ?case
  proof (cases j)
    case (Suc k)
    then show ?thesis using Cons.IH [of k] Cons.prems by (auto simp: free_sbd_def split: if_splits)
  qed (simp add: free_sbd_def)
qed simp

lemma own_update:
  assumes "own_sbd ul t no cnt f m ds i slots" and "j \<noteq> i" and "\<not> (sm_active s \<and> sm_ul s = ul)"
  shows "own_sbd ul t no cnt f m ds i (slots[j := s])"
  using assms by (cases "j < length slots") (auto simp: own_sbd_def nth_list_update)

lemma free_index_inactive:
  assumes "0 < free_sbd slots" and "length slots = SBD_MAX_MULTI"
  shows "\<not> sm_active (slots ! sbd_free_index slots)"
proof -
  obtain i where "i < SBD_MAX_MULTI" "\<not> sm_active (slots ! i)"
    using assms by (auto simp: free_sbd_def filter_empty_conv in_set_conv_nth)
  then obtain k where "find (\<lambda>i. \<not> sm_active (slots ! i)) [0..<SBD_MAX_MULTI] = Some k"
    by (cases "find (\<lambda>i. \<not> sm_active (slots ! i)) [0..<SBD_MAX_MULTI]") (auto simp: find_None_iff)
  moreover from this have "\<not> sm_active (slots ! k)" by (auto simp: find_Some_iff)
  ultimately show ?thesis by (simp add: sbd_free_index_def)
qed

text \<open>What a message of another conversation does to the slots, given its header.\<close>

lemma dispatch_foreign:
  assumes own: "own_sbd ul t no cnt f m ds i (sbd_slots st)"
    and other: "msgno = 0 \<or> cnt' = 1 \<and> msgno = 1 \<or> cnt' \<le> 1 \<and> ul' \<noteq> ul"
  shows "own_sbd ul t no cnt f m ds i (sbd_slots (fst (sbd_dispatch st msgno cnt' p ul' t' f' m'))) \<and>
    free_sbd (sbd_slots st) \<le> free_sbd (sbd_slots (fst (sbd_dispatch st msgno cnt' p ul' t' f' m')))"
proof (cases "msgno = 0 \<or> cnt' = 1 \<and> msgno = 1 \<or> msgno \<le> 1")
  case True
  then show ?thesis using own other by (auto simp: sbd_dispatch_def Let_def)
next
  case False
  let ?f = "find (\<lambda>i. sm_active (sbd_slots st ! i) \<and> sm_ul (sbd_slots st ! i) = ul' \<and> msgno = sm_msgno (sbd_slots st ! i) + 1) (rev [0..<SBD_MAX_MULTI])"
  from False other have o: "ul' \<noteq> ul" "cnt' \<le> 1" "msgno > 1" by auto
  show ?thesis
  proof (cases ?f)
    case None
    then show ?thesis using own o by (auto simp: sbd_dispatch_def Let_def)
  next
    case (Some j)
    then have j: "j < SBD_MAX_MULTI" "sm_active (sbd_slots st ! j)" "sm_ul (sbd_slots st ! j) = ul'" by (auto simp: find_Some_iff rev_nth)
    have "j \<noteq> i" using own j o(1) by (auto simp: own_sbd_def)
    let ?s = "sbd_append (sbd_slots st ! j) msgno t' p"
    have s: "sm_ul ?s = ul'" "sm_active ?s" using j by (auto simp: sbd_append_def Let_def)
    have l: "j < length (sbd_slots st)" using own j by (simp add: own_sbd_def)
    note u = own_update [OF own \<open>j \<noteq> i\<close>, of ?s] own_update [OF own \<open>j \<noteq> i\<close>, of "?s\<lparr>sm_active := False\<rparr>"]
    show ?thesis using u free_update [OF l, of ?s] free_update [OF l, of "?s\<lparr>sm_active := False\<rparr>"] s o j Some
      by (auto simp: sbd_dispatch_def Let_def split: if_splits)
  qed
qed

lemma dispatch_foreign_start:
  assumes own: "own_sbd ul t no cnt f m ds i (sbd_slots st)" and "ul' \<noteq> ul" and "0 < free_sbd (sbd_slots st)" and "cnt' > 1" "msgno \<noteq> 0"
  shows "own_sbd ul t no cnt f m ds i (sbd_slots (fst (sbd_dispatch st msgno cnt' p ul' t' f' m'))) \<and>
    free_sbd (sbd_slots st) \<le> Suc (free_sbd (sbd_slots (fst (sbd_dispatch st msgno cnt' p ul' t' f' m'))))"
proof -
  let ?k = "sbd_free_index (sbd_slots st)"
  have len: "length (sbd_slots st) = SBD_MAX_MULTI" using own by (simp add: own_sbd_def)
  have "\<not> sm_active (sbd_slots st ! ?k)" by (rule free_index_inactive [OF assms(3) len])
  moreover from this have "?k \<noteq> i" using own by (auto simp: own_sbd_def)
  moreover have "?k < length (sbd_slots st)" using len sbd_free_index_bound by simp
  ultimately show ?thesis using assms own_update [OF own, of ?k] free_update [of ?k "sbd_slots st"]
    by (auto simp: sbd_dispatch_def Let_def)
qed

text \<open>The next packet of the conversation.\<close>

lemma own_match_sbd:
  assumes "own_sbd ul t no cnt f m ds i slots" and "msgno = no + 1"
  shows "find (\<lambda>j. sm_active (slots ! j) \<and> sm_ul (slots ! j) = ul \<and> msgno = sm_msgno (slots ! j) + 1) (rev [0..<SBD_MAX_MULTI]) = Some i"
proof -
  have "rev [0..<SBD_MAX_MULTI] ! (SBD_MAX_MULTI - Suc i) = i" "SBD_MAX_MULTI - Suc i < SBD_MAX_MULTI"
    using assms(1) by (auto simp: own_sbd_def rev_nth)
  then show ?thesis using assms by (auto simp: find_Some_iff own_sbd_def rev_nth intro!: exI [of _ "SBD_MAX_MULTI - Suc i"])
qed

lemma dispatch_next:
  assumes own: "own_sbd ul t no cnt f m ds i (sbd_slots st)" and "0 < no" and "cnt' \<le> 1" and "length ds + length p \<le> SBD_MAX_DATA"
    and "no + 1 \<noteq> cnt"
  shows "own_sbd ul t' (no + 1) cnt f m (ds @ p) i (sbd_slots (fst (sbd_dispatch st (no + 1) cnt' p ul t' f' m'))) \<and>
    snd (sbd_dispatch st (no + 1) cnt' p ul t' f' m') = None \<and>
    free_sbd (sbd_slots (fst (sbd_dispatch st (no + 1) cnt' p ul t' f' m'))) = free_sbd (sbd_slots st)"
proof -
  let ?s = "sbd_append (sbd_slots st ! i) (no + 1) t' p"
  have i: "i < length (sbd_slots st)" "length (sm_data (sbd_slots st ! i)) \<le> SBD_MAX_DATA" "sm_active (sbd_slots st ! i)"
    using own assms(4) by (auto simp: own_sbd_def)
  have s: "?s = \<lparr>sm_active = True, sm_msgno = no + 1, sm_msgcnt = cnt, sm_ul = ul, sm_timestamp = t', sm_frequency = f,
       sm_magnitude = m, sm_data = ds @ p\<rparr>"
    using own assms(4) by (auto simp: own_sbd_def sbd_append_def Let_def)
  have "sbd_dispatch st (no + 1) cnt' p ul t' f' m' =
      (st\<lparr>sbd_slots := (sbd_slots st)[i := ?s], sbd_counts := (sbd_counts st)\<lparr>stat_sbd_multi_frag := stat_sbd_multi_frag (sbd_counts st) + 1\<rparr>\<rparr>, None)"
    using assms(2,3,5) own_match_sbd [OF own, of "no + 1"] s by (simp add: sbd_dispatch_def Let_def)
  moreover have "own_sbd ul t' (no + 1) cnt f m (ds @ p) i ((sbd_slots st)[i := ?s])"
    using own s by (auto simp: own_sbd_def nth_list_update)
  moreover have "free_sbd ((sbd_slots st)[i := ?s]) = free_sbd (sbd_slots st)" using free_update [OF i(1), of ?s] i(3) s by simp
  ultimately show ?thesis by simp
qed

lemma dispatch_last:
  assumes own: "own_sbd ul t no cnt f m ds i (sbd_slots st)" and "0 < no" and "cnt' \<le> 1" and "length ds + length p \<le> SBD_MAX_DATA"
    and "no + 1 = cnt"
  shows "snd (sbd_dispatch st (no + 1) cnt' p ul t' f' m') =
      Some \<lparr>pk_data = ds @ p, pk_ul = ul, pk_timestamp = t', pk_frequency = f, pk_magnitude = m\<rparr>"
proof -
  have s: "sbd_append (sbd_slots st ! i) (no + 1) t' p = \<lparr>sm_active = True, sm_msgno = no + 1, sm_msgcnt = cnt, sm_ul = ul,
      sm_timestamp = t', sm_frequency = f, sm_magnitude = m, sm_data = ds @ p\<rparr>"
    using own assms(4) by (auto simp: own_sbd_def sbd_append_def Let_def)
  show ?thesis using assms(2,3,5) own_match_sbd [OF own, of "no + 1"] s by (simp add: sbd_dispatch_def Let_def)
qed

subsection \<open>Conversations\<close>

definition msg_ul :: "ida_message \<Rightarrow> bool" where
  "msg_ul m \<longleftrightarrow> msg_direction m = DIR_UPLINK"

definition sbd_head :: "ida_message \<Rightarrow> (int \<times> int \<times> u8 list) option" where
  "sbd_head m = (if length (msg_data m) < 5 \<or> \<not> is_sbd (msg_ul m) (msg_data m) then None else sbd_header (msg_ul m) (msg_data m))"

lemma cb_none:
  assumes "sbd_head m = None"
  shows "sbd_slots (fst (acars_ida_cb st m)) = sbd_slots st \<and> snd (acars_ida_cb st m) = None"
  using assms by (auto simp: sbd_head_def acars_ida_cb_def sbd_extract_def msg_ul_def Let_def split: if_splits)

lemma cb_some:
  assumes "sbd_head m = Some (no, cnt, p)"
  obtains st' where "sbd_slots st' = sbd_expire (msg_timestamp m) (sbd_slots st)"
    and "acars_ida_cb st m = sbd_dispatch st' no cnt p (msg_ul m) (msg_timestamp m) (msg_frequency m) (msg_magnitude m)"
proof -
  have "\<exists>c. acars_ida_cb st m = sbd_dispatch (st\<lparr>sbd_counts := c, sbd_slots := sbd_expire (msg_timestamp m) (sbd_slots st)\<rparr>)
      no cnt p (msg_ul m) (msg_timestamp m) (msg_frequency m) (msg_magnitude m)"
    using assms by (auto simp: sbd_head_def acars_ida_cb_def sbd_extract_def msg_ul_def Let_def split: if_splits)
  then obtain c where "acars_ida_cb st m = sbd_dispatch (st\<lparr>sbd_counts := c, sbd_slots := sbd_expire (msg_timestamp m) (sbd_slots st)\<rparr>)
      no cnt p (msg_ul m) (msg_timestamp m) (msg_frequency m) (msg_magnitude m)" by blast
  then show thesis by (intro that [of "st\<lparr>sbd_counts := c, sbd_slots := sbd_expire (msg_timestamp m) (sbd_slots st)\<rparr>"]) simp_all
qed

text \<open>
  \<open>sbd_fragments ul t no cnt n k ms ds e\<close>: the messages \<open>ms\<close> complete a conversation of \<open>cnt\<close> packets in the direction
  \<open>ul\<close>, of which packet \<open>no\<close> arrived at time \<open>t\<close> and \<open>n\<close> bytes are there. They contribute the bytes \<open>ds\<close> and end
  with the message \<open>e\<close>. In between come messages that are no packets, short and single packets, and packets
  of the other direction, of which at most \<open>k\<close> start conversations.
\<close>

inductive sbd_fragments :: "bool \<Rightarrow> u64 \<Rightarrow> int \<Rightarrow> int \<Rightarrow> nat \<Rightarrow> nat \<Rightarrow> ida_message list \<Rightarrow> u8 list \<Rightarrow> ida_message \<Rightarrow> bool" where
  last_packet: "sbd_head m = Some (no + 1, cnt', p) \<Longrightarrow> cnt' \<le> 1 \<Longrightarrow> no + 1 = cnt \<Longrightarrow> msg_ul m = ul \<Longrightarrow> in_time t (msg_timestamp m) \<Longrightarrow>
    n + length p \<le> SBD_MAX_DATA \<Longrightarrow> sbd_fragments ul t no cnt n k [m] p m"
| next_packet: "sbd_head m = Some (no + 1, cnt', p) \<Longrightarrow> cnt' \<le> 1 \<Longrightarrow> no + 1 < cnt \<Longrightarrow> msg_ul m = ul \<Longrightarrow> in_time t (msg_timestamp m) \<Longrightarrow>
    n + length p \<le> SBD_MAX_DATA \<Longrightarrow> sbd_fragments ul (msg_timestamp m) (no + 1) cnt (n + length p) k ms ds e \<Longrightarrow>
    sbd_fragments ul t no cnt n k (m # ms) (p @ ds) e"
| no_packet: "sbd_head m = None \<Longrightarrow> sbd_fragments ul t no cnt n k ms ds e \<Longrightarrow> sbd_fragments ul t no cnt n k (m # ms) ds e"
| other_packet: "sbd_head m = Some (no', cnt', p) \<Longrightarrow> no' = 0 \<or> cnt' = 1 \<and> no' = 1 \<or> cnt' \<le> 1 \<and> msg_ul m \<noteq> ul \<Longrightarrow>
    in_time t (msg_timestamp m) \<Longrightarrow> sbd_fragments ul t no cnt n k ms ds e \<Longrightarrow> sbd_fragments ul t no cnt n k (m # ms) ds e"
| other_start: "sbd_head m = Some (no', cnt', p) \<Longrightarrow> cnt' > 1 \<Longrightarrow> no' \<noteq> 0 \<Longrightarrow> msg_ul m \<noteq> ul \<Longrightarrow>
    in_time t (msg_timestamp m) \<Longrightarrow> sbd_fragments ul t no cnt n k ms ds e \<Longrightarrow> sbd_fragments ul t no cnt n (Suc k) (m # ms) ds e"

lemma sbd_run_Cons: "snd (sbd_run st (m # ms)) =
    (case snd (acars_ida_cb st m) of None \<Rightarrow> [] | Some q \<Rightarrow> [q]) @ snd (sbd_run (fst (acars_ida_cb st m)) ms)"
  by (simp split: prod.splits option.splits)

lemma fragments_delivered:
  assumes "sbd_fragments ul t no cnt n k ms ds e" and "own_sbd ul t no cnt f m ds0 i (sbd_slots st)" and "0 < no"
    and "length ds0 = n" and "k \<le> free_sbd (sbd_slots st)"
  shows "\<exists>ps. snd (sbd_run st ms) = ps @ [\<lparr>pk_data = ds0 @ ds, pk_ul = ul, pk_timestamp = msg_timestamp e, pk_frequency = f, pk_magnitude = m\<rparr>]"
  using assms
proof (induction arbitrary: ds0 st rule: sbd_fragments.induct)
  case (last_packet x no cnt' p cnt ul t n k)
  obtain st' where st': "sbd_slots st' = sbd_expire (msg_timestamp x) (sbd_slots st)"
    "acars_ida_cb st x = sbd_dispatch st' (no + 1) cnt' p (msg_ul x) (msg_timestamp x) (msg_frequency x) (msg_magnitude x)"
    by (rule cb_some [OF last_packet(1)])
  have "own_sbd ul t no cnt f m ds0 i (sbd_slots st')" using own_expire [OF last_packet(7,5)] st'(1) by simp
  from dispatch_last [OF this, of cnt' p] last_packet st'(2)
  have "snd (acars_ida_cb st x) = Some \<lparr>pk_data = ds0 @ p, pk_ul = ul, pk_timestamp = msg_timestamp x, pk_frequency = f, pk_magnitude = m\<rparr>"
    by simp
  then show ?case unfolding sbd_run_Cons by simp
next
  case (next_packet x no cnt' p cnt ul t n k ms ds e)
  obtain st' where st': "sbd_slots st' = sbd_expire (msg_timestamp x) (sbd_slots st)"
    "acars_ida_cb st x = sbd_dispatch st' (no + 1) cnt' p (msg_ul x) (msg_timestamp x) (msg_frequency x) (msg_magnitude x)"
    by (rule cb_some [OF next_packet(1)])
  have own: "own_sbd ul t no cnt f m ds0 i (sbd_slots st')" using own_expire [OF next_packet(9,5)] st'(1) by simp
  have free: "free_sbd (sbd_slots st) \<le> free_sbd (sbd_slots st')" using free_expire st'(1) by simp
  from dispatch_next [OF own, of cnt' p "msg_timestamp x" "msg_frequency x" "msg_magnitude x"] next_packet st'(2) free
  have "own_sbd ul (msg_timestamp x) (no + 1) cnt f m (ds0 @ p) i (sbd_slots (fst (acars_ida_cb st x)))"
    "k \<le> free_sbd (sbd_slots (fst (acars_ida_cb st x)))" by simp_all
  from next_packet.IH [OF this(1) _ _ this(2)] next_packet obtain ps where
    "snd (sbd_run (fst (acars_ida_cb st x)) ms) = ps @ [\<lparr>pk_data = ds0 @ p @ ds, pk_ul = ul, pk_timestamp = msg_timestamp e, pk_frequency = f, pk_magnitude = m\<rparr>]"
    by auto
  then show ?case unfolding sbd_run_Cons by simp
next
  case (no_packet x ul t no cnt n k ms ds e)
  from no_packet.IH [of ds0 "fst (acars_ida_cb st x)"] no_packet cb_none [OF no_packet(1), of st] show ?case
    unfolding sbd_run_Cons by auto
next
  case (other_packet x no' cnt' p ul t no cnt n k ms ds e)
  obtain st' where st': "sbd_slots st' = sbd_expire (msg_timestamp x) (sbd_slots st)"
    "acars_ida_cb st x = sbd_dispatch st' no' cnt' p (msg_ul x) (msg_timestamp x) (msg_frequency x) (msg_magnitude x)"
    by (rule cb_some [OF other_packet(1)])
  have own: "own_sbd ul t no cnt f m ds0 i (sbd_slots st')" using own_expire [OF other_packet(6,3)] st'(1) by simp
  have "free_sbd (sbd_slots st) \<le> free_sbd (sbd_slots st')" using free_expire st'(1) by simp
  with dispatch_foreign [OF own other_packet(2), of p "msg_timestamp x" "msg_frequency x" "msg_magnitude x"] st'(2) other_packet.IH [of ds0 "fst (acars_ida_cb st x)"]
    other_packet(7-9) show ?case
    unfolding sbd_run_Cons by auto
next
  case (other_start x no' cnt' p ul t no cnt n k ms ds e)
  obtain st' where st': "sbd_slots st' = sbd_expire (msg_timestamp x) (sbd_slots st)"
    "acars_ida_cb st x = sbd_dispatch st' no' cnt' p (msg_ul x) (msg_timestamp x) (msg_frequency x) (msg_magnitude x)"
    by (rule cb_some [OF other_start(1)])
  have own: "own_sbd ul t no cnt f m ds0 i (sbd_slots st')" using own_expire [OF other_start(8,5)] st'(1) by simp
  have free: "Suc k \<le> free_sbd (sbd_slots st')" using free_expire [of "sbd_slots st" "msg_timestamp x"] other_start(11) st'(1) by simp
  then have "0 < free_sbd (sbd_slots st')" by simp
  from dispatch_foreign_start [OF own other_start(4) this other_start(2,3), of p "msg_timestamp x" "msg_frequency x" "msg_magnitude x"] free st'(2)
  have "own_sbd ul t no cnt f m ds0 i (sbd_slots (fst (acars_ida_cb st x)))" "k \<le> free_sbd (sbd_slots (fst (acars_ida_cb st x)))" by auto
  with other_start.IH [of ds0 "fst (acars_ida_cb st x)"] other_start(9,10) show ?case unfolding sbd_run_Cons by auto
qed

lemma first_packet_slot:
  assumes "\<forall>s \<in> set (sbd_slots st). sm_active s \<longrightarrow> sm_ul s \<noteq> ul" and "length (sbd_slots st) = SBD_MAX_MULTI"
    and "cnt > 1" and "length p \<le> SBD_MAX_DATA"
  shows "own_sbd ul t 1 cnt f m p (sbd_free_index (sbd_slots st)) (sbd_slots (fst (sbd_dispatch st 1 cnt p ul t f m))) \<and>
    free_sbd (sbd_slots st) \<le> Suc (free_sbd (sbd_slots (fst (sbd_dispatch st 1 cnt p ul t f m)))) \<and>
    snd (sbd_dispatch st 1 cnt p ul t f m) = None"
proof -
  let ?k = "sbd_free_index (sbd_slots st)"
  have k: "?k < length (sbd_slots st)" using assms(2) sbd_free_index_bound by simp
  let ?s = "\<lparr>sm_active = True, sm_msgno = 1, sm_msgcnt = cnt, sm_ul = ul, sm_timestamp = t, sm_frequency = f, sm_magnitude = m, sm_data = p\<rparr>"
  have d: "sbd_dispatch st 1 cnt p ul t f m = (st\<lparr>sbd_slots := (sbd_slots st)[?k := ?s]\<rparr>, None)"
    using assms(3,4) by (simp add: sbd_dispatch_def Let_def)
  have "\<not> (sm_active (sbd_slots st ! j) \<and> sm_ul (sbd_slots st ! j) = ul)" if "j < SBD_MAX_MULTI" for j
    using assms(1) nth_mem [of j "sbd_slots st"] that unfolding assms(2) by blast
  then have "own_sbd ul t 1 cnt f m p ?k ((sbd_slots st)[?k := ?s])"
    unfolding own_sbd_def using assms(2) k by (simp add: sbd_free_index_bound)
  moreover have "free_sbd (sbd_slots st) \<le> Suc (free_sbd ((sbd_slots st)[?k := ?s]))"
    using free_update [OF k, of ?s] by (simp split: if_splits)
  ultimately show ?thesis unfolding d by simp
qed

subsection \<open>Properties\<close>


definition sample_message :: "u64 \<Rightarrow> u8 list \<Rightarrow> ida_message" where
  "sample_message t ds = \<lparr>msg_data = ds, msg_timestamp = t, msg_frequency = 1626000000, msg_direction = DIR_DOWNLINK, msg_magnitude = 20\<rparr>"


text \<open>
  C28. After any messages, however malformed, the eight slots respect their buffer of 1024 bytes and
  hold sensible packet numbers, and every packet handed on is at most as long as that buffer or the message it came in.
\<close>

theorem sbd_invariant:
  assumes "\<forall>x \<in> set ms. length (msg_data x) \<le> n"
  shows "sbd_ok (fst (sbd_run sbd_start ms)) \<and>
    (\<forall>q \<in> set (snd (sbd_run sbd_start ms)). length (pk_data q) \<le> max SBD_MAX_DATA n)"
proof -
  have "sbd_ok st \<Longrightarrow> sbd_ok (fst (sbd_run st ms)) \<and> (\<forall>q \<in> set (snd (sbd_run st ms)). length (pk_data q) \<le> max SBD_MAX_DATA n)" for st
    using assms
  proof (induction ms arbitrary: st)
    case (Cons x ms)
    obtain st' out where e: "acars_ida_cb st x = (st', out)" by (cases "acars_ida_cb st x")
    then have "sbd_ok st' \<and> (\<forall>q. out = Some q \<longrightarrow> length (pk_data q) \<le> max SBD_MAX_DATA (length (msg_data x)))"
      using Cons.prems(1) unfolding acars_ida_cb_def by (intro sbd_extract_ok) simp_all
    with Cons e show ?case by (fastforce split: prod.splits option.splits)
  qed simp
  from this [OF sbd_start_ok] show ?thesis .
qed

theorem sbd_invariant_witness:
  "sbd_ok (fst (sbd_run sbd_start [sample_message 100 [0x76, 0x08, 0x20, 0, 0, 3, 0, 0x10, 2, 1, 0xAA, 0xBB]]))"
  using sbd_invariant [of "[sample_message 100 [0x76, 0x08, 0x20, 0, 0, 3, 0, 0x10, 2, 1, 0xAA, 0xBB]]" 12]
  by (simp add: sample_message_def)

end
