(* ===== verification/AcarsText.thy ===== *)
theory AcarsText
  imports Sbd Crc CText
begin

unbundle bit_operations_syntax

text \<open>
  The text side of \<^verbatim>\<open>src/sbd_acars.c\<close>: JSON escaping and the fixed output buffers, time stamps, and the positions
  that are read from the free text of a message. Strings are lists of characters; where the code relies on the
  terminating zero, \<open>cstr\<close> cuts at it. Calendar arithmetic (\<^verbatim>\<open>gmtime_r\<close>, \<^verbatim>\<open>strftime\<close>) and number reading (\<^verbatim>\<open>strtod\<close>)
  of the C library are written out; double values are exact reals.
\<close>

subsection \<open>C strings\<close>

definition cstr :: "string \<Rightarrow> string" where
  "cstr = takeWhile (\<lambda>c. c \<noteq> CHR 0x00)"

definition byte_char :: "u8 \<Rightarrow> char" where
  "byte_char b = char_of (unat b)"

definition char_at :: "string \<Rightarrow> nat \<Rightarrow> char" where
  "char_at s i = (if i < length s then s ! i else CHR 0x00)"

fun strstr :: "string \<Rightarrow> string \<Rightarrow> string option" where
  "strstr pat [] = (if pat = [] then Some [] else None)"
| "strstr pat (c # s) = (if take (length pat) (c # s) = pat then Some (c # s) else strstr pat s)"

definition starts_with :: "string \<Rightarrow> string \<Rightarrow> bool" where
  "starts_with pat s \<longleftrightarrow> take (length pat) s = pat"

subsection \<open>JSON escaping\<close>

fun escape_loop :: "nat \<Rightarrow> string \<Rightarrow> string \<Rightarrow> string" where
  "escape_loop outsz [] out = out"
| "escape_loop outsz (c # cs) out =
     (if \<not> length out + 2 < outsz then out
      else if c = CHR 0x22 then if length out + 2 \<ge> outsz then out else escape_loop outsz cs (out @ [CHR 0x5C, CHR 0x22])
      else if c = CHR 0x5C then if length out + 2 \<ge> outsz then out else escape_loop outsz cs (out @ [CHR 0x5C, CHR 0x5C])
      else if c = CHR 0x0A then if length out + 2 \<ge> outsz then out else escape_loop outsz cs (out @ [CHR 0x5C, CHR ''n''])
      else if c = CHR 0x0D then if length out + 2 \<ge> outsz then out else escape_loop outsz cs (out @ [CHR 0x5C, CHR ''r''])
      else if c = CHR 0x09 then if length out + 2 \<ge> outsz then out else escape_loop outsz cs (out @ [CHR 0x5C, CHR ''t''])
      else if of_char c < (0x20 :: nat) \<or> c = CHR 0x7F
      then if length out + 6 \<ge> outsz then out
           else escape_loop outsz cs (out @ snprintf (outsz - length out) ([CHR 0x5C, CHR ''u''] @ pad_left CHR ''0'' 4 (hex_nat (of_char c))))
      else escape_loop outsz cs (out @ [c]))"

definition hub_json_escape :: "string \<Rightarrow> nat \<Rightarrow> string" where
  "hub_json_escape inp outsz = escape_loop outsz inp []"

definition json_escape :: "string \<Rightarrow> nat \<Rightarrow> string" where
  "json_escape inp outsz = escape_loop outsz inp []"

subsection \<open>Output buffers\<close>

definition JSON_BUF_SIZE :: nat where "JSON_BUF_SIZE = 8192"

definition json_buf_append :: "string \<Rightarrow> string \<Rightarrow> string" where
  "json_buf_append buf s = (if length buf \<ge> JSON_BUF_SIZE - 1 then buf else buf @ snprintf (JSON_BUF_SIZE - length buf) s)"

definition hub_buf_append :: "string \<Rightarrow> string \<Rightarrow> string" where
  "hub_buf_append buf s = (if length buf \<ge> JSON_BUF_SIZE - 1 then buf else buf @ snprintf (JSON_BUF_SIZE - length buf) s)"

subsection \<open>Time stamps\<close>

record ts_state =
  first_ts_ns :: u64
  ts_once :: bool
  wall_sec :: int
  wall_nsec :: int

definition ts_ensure_init :: "int \<times> int \<Rightarrow> u64 \<Rightarrow> ts_state \<Rightarrow> ts_state" where
  "ts_ensure_init clock ts_ns st =
     (let st = (if first_ts_ns st = 0 then st\<lparr>first_ts_ns := ts_ns\<rparr> else st)
      in if ts_once st then st else st\<lparr>ts_once := True, wall_sec := fst clock, wall_nsec := snd clock\<rparr>)"

definition is_leap :: "nat \<Rightarrow> bool" where
  "is_leap y \<longleftrightarrow> 4 dvd y \<and> (\<not> 100 dvd y \<or> 400 dvd y)"

definition year_days :: "nat \<Rightarrow> nat" where
  "year_days y = (if is_leap y then 366 else 365)"

function split_year :: "nat \<Rightarrow> nat \<Rightarrow> nat \<times> nat" where
  "split_year y d = (if d < year_days y then (y, d) else split_year (y + 1) (d - year_days y))"
  by pat_completeness auto
termination
  by (relation "measure snd") (auto simp: year_days_def)

declare split_year.simps [simp del]

definition month_days :: "nat \<Rightarrow> nat list" where
  "month_days y = [31, if is_leap y then 29 else 28, 31, 30, 31, 30, 31, 31, 30, 31, 30, 31]"

fun split_month :: "nat list \<Rightarrow> nat \<Rightarrow> nat \<Rightarrow> nat \<times> nat" where
  "split_month [] m d = (m, d)"
| "split_month (l # ls) m d = (if d < l then (m, d) else split_month ls (m + 1) (d - l))"

definition two_digits :: "nat \<Rightarrow> string" where
  "two_digits n = pad_left CHR ''0'' 2 (dec_nat n)"

text \<open>\<^verbatim>\<open>strftime\<close> with \<^verbatim>\<open>%Y-%m-%dT%H:%M:%SZ\<close> on the result of \<^verbatim>\<open>gmtime_r\<close>, for times since 1970.\<close>

definition iso8601 :: "nat \<Rightarrow> string" where
  "iso8601 sec =
     (case split_year 1970 (sec div 86400) of (y, yd) \<Rightarrow>
      case split_month (month_days y) 1 yd of (m, md) \<Rightarrow>
        dec_nat y @ ''-'' @ two_digits m @ ''-'' @ two_digits (md + 1) @ ''T'' @
        two_digits (sec mod 86400 div 3600) @ '':'' @ two_digits (sec mod 3600 div 60) @ '':'' @ two_digits (sec mod 60) @ ''Z'')"

definition elapsed_s :: "ts_state \<Rightarrow> u64 \<Rightarrow> real" where
  "elapsed_s st ts_ns = real (unat (ts_ns - first_ts_ns st)) / 10 ^ 9"

definition format_timestamp :: "int \<times> int \<Rightarrow> u64 \<Rightarrow> ts_state \<Rightarrow> ts_state \<times> string" where
  "format_timestamp clock ts_ns st =
     (let st = ts_ensure_init clock ts_ns st
      in (st, iso8601 (nat (wall_sec st + \<lfloor>elapsed_s st ts_ns\<rfloor>))))"

definition ts_to_unix :: "int \<times> int \<Rightarrow> u64 \<Rightarrow> ts_state \<Rightarrow> ts_state \<times> real" where
  "ts_to_unix clock ts_ns st =
     (let st = ts_ensure_init clock ts_ns st
      in (st, real_of_int (wall_sec st) + real_of_int (wall_nsec st) / 10 ^ 9 + elapsed_s st ts_ns))"

subsection \<open>Reading numbers\<close>

text \<open>\<^verbatim>\<open>strtod\<close>: no conversion, infinity or not-a-number, or a value with the rest of the string.\<close>

datatype strtod_result = No_Number | Not_Finite | Number real string

definition is_space :: "char \<Rightarrow> bool" where
  "is_space c \<longleftrightarrow> c = CHR '' '' \<or> (9 \<le> (of_char c :: nat) \<and> of_char c \<le> (13 :: nat))"

definition lower_char :: "char \<Rightarrow> char" where
  "lower_char c = (if CHR ''A'' \<le> c \<and> c \<le> CHR ''Z'' then char_of (of_char c + 32 :: nat) else c)"

definition is_hex_digit :: "char \<Rightarrow> bool" where
  "is_hex_digit c \<longleftrightarrow> is_digit c \<or> (CHR ''a'' \<le> lower_char c \<and> lower_char c \<le> CHR ''f'')"

definition hex_digit :: "char \<Rightarrow> nat" where
  "hex_digit c = (if is_digit c then char_digit c else of_char (lower_char c) - 87)"

definition digits_value_base :: "nat \<Rightarrow> (char \<Rightarrow> nat) \<Rightarrow> string \<Rightarrow> nat" where
  "digits_value_base b f s = fold (\<lambda>c n. b * n + f c) s 0"

definition read_exponent :: "char \<Rightarrow> string \<Rightarrow> int \<times> string" where
  "read_exponent e s =
     (if s \<noteq> [] \<and> lower_char (hd s) = e
      then let s1 = tl s;
               neg = (s1 \<noteq> [] \<and> hd s1 = CHR ''-'');
               s2 = (if s1 \<noteq> [] \<and> (hd s1 = CHR ''-'' \<or> hd s1 = CHR ''+'') then tl s1 else s1);
               ds = takeWhile is_digit s2
           in if ds = [] then (0, s)
              else ((if neg then - int (parse_nat ds) else int (parse_nat ds)), dropWhile is_digit s2)
      else (0, s))"

text \<open>The mantissa: digits, a point, digits, at least one digit in all.\<close>

definition read_mantissa :: "nat \<Rightarrow> (char \<Rightarrow> bool) \<Rightarrow> (char \<Rightarrow> nat) \<Rightarrow> string \<Rightarrow> (nat \<times> nat \<times> string) option" where
  "read_mantissa b dig f s =
     (let ip = takeWhile dig s; s1 = dropWhile dig s;
          fp = (if s1 \<noteq> [] \<and> hd s1 = CHR ''.'' then takeWhile dig (tl s1) else []);
          s2 = (if s1 \<noteq> [] \<and> hd s1 = CHR ''.'' \<and> (ip \<noteq> [] \<or> fp \<noteq> []) then dropWhile dig (tl s1) else s1)
      in if ip = [] \<and> fp = [] then None else Some (digits_value_base b f (ip @ fp), length fp, s2))"

definition strtod_unsigned :: "string \<Rightarrow> (real \<times> string) option" where
  "strtod_unsigned s =
     (case (if map lower_char (take 2 s) = ''0x'' then read_mantissa 16 is_hex_digit hex_digit (drop 2 s) else None) of
        Some (v, k, rest) \<Rightarrow>
          (case read_exponent CHR ''p'' rest of (e, rest') \<Rightarrow> Some (real v / 16 ^ k * 2 powi e, rest'))
      | None \<Rightarrow>
          (case read_mantissa 10 is_digit char_digit s of
             None \<Rightarrow> None
           | Some (v, k, rest) \<Rightarrow>
               (case read_exponent CHR ''e'' rest of (e, rest') \<Rightarrow> Some (real v / 10 ^ k * 10 powi e, rest'))))"

definition strtod :: "string \<Rightarrow> strtod_result" where
  "strtod s =
     (let s1 = dropWhile is_space s;
          neg = (s1 \<noteq> [] \<and> hd s1 = CHR ''-'');
          s2 = (if s1 \<noteq> [] \<and> (hd s1 = CHR ''-'' \<or> hd s1 = CHR ''+'') then tl s1 else s1)
      in if map lower_char (take 3 s2) = ''inf'' \<or> map lower_char (take 3 s2) = ''nan'' then Not_Finite
         else case strtod_unsigned s2 of
                None \<Rightarrow> No_Number
              | Some (v, rest) \<Rightarrow> Number (if neg then - v else v) rest)"

subsection \<open>Positions in the text\<close>

definition label_ok :: "string \<Rightarrow> bool" where
  "label_ok label \<longleftrightarrow>
     char_at label 0 = CHR ''H'' \<and> char_at label 1 = CHR ''1'' \<or>
     char_at label 0 = CHR ''2'' \<and> char_at label 1 = CHR ''0'' \<or>
     char_at label 0 = CHR ''4'' \<and> char_at label 1 = CHR ''4'' \<or>
     char_at label 0 = CHR ''4'' \<and> char_at label 1 = CHR ''J'' \<or>
     char_at label 0 = CHR ''1'' \<and> char_at label 1 = CHR ''5'' \<or>
     char_at label 0 = CHR ''S'' \<and> char_at label 1 = CHR ''A''"

definition flight_plan :: "string \<Rightarrow> string \<Rightarrow> bool" where
  "flight_plan label text \<longleftrightarrow> char_at label 0 = CHR ''H'' \<and> char_at label 1 = CHR ''1'' \<and> starts_with ''FPN'' text"

definition signed_lat :: "char \<Rightarrow> real \<Rightarrow> real" where
  "signed_lat d x = (if d = CHR ''S'' then - x else x)"

definition signed_lon :: "char \<Rightarrow> real \<Rightarrow> real" where
  "signed_lon d x = (if d = CHR ''W'' then - x else x)"

text \<open>Format 1: \<^verbatim>\<open>POS[NS]ddddd[EW]dddddd\<close>.\<close>

definition position_pos :: "string \<Rightarrow> (real \<times> real) option" where
  "position_pos text =
     (case strstr ''POS'' text of
        None \<Rightarrow> None
      | Some q \<Rightarrow>
          let p = drop 3 q; lat_dir = char_at p 0
          in if lat_dir = CHR ''N'' \<or> lat_dir = CHR ''S''
             then let p = drop 1 p; lat_buf = takeWhile is_digit (take 5 p)
                  in if length lat_buf = 5
                     then let p = drop 5 p; lon_dir = char_at p 0
                          in if lon_dir = CHR ''E'' \<or> lon_dir = CHR ''W''
                             then let p = drop 1 p; lon_buf = takeWhile is_digit (take 6 p)
                                  in if length lon_buf = 6
                                     then let la = real (parse_nat lat_buf) / 1000; lo = real (parse_nat lon_buf) / 1000
                                          in if la \<ge> 0 \<and> la \<le> 90 \<and> lo \<ge> 0 \<and> lo \<le> 180
                                             then Some (signed_lat lat_dir la, signed_lon lon_dir lo) else None
                                     else None
                             else None
                     else None
             else None)"

text \<open>Format 2: \<^verbatim>\<open>[NS]ddmmm[EW]dddmmm\<close> anywhere, degrees and tenths of minutes.\<close>

definition position_at :: "char \<Rightarrow> string \<Rightarrow> (real \<times> real) option" where
  "position_at lat_dir s =
     (let n = length (takeWhile is_digit s)
      in if n = 5 \<and> (char_at s n = CHR ''E'' \<or> char_at s n = CHR ''W'')
         then let lon_dir = char_at s n; lon_start = drop (n + 1) s; m = length (takeWhile is_digit lon_start)
              in if m = 6
                 then let lat_deg = parse_nat (take 2 s); lat_min10 = parse_nat (take 3 (drop 2 s));
                          lon_deg = parse_nat (take 3 lon_start); lon_min10 = parse_nat (take 3 (drop 3 lon_start))
                      in if lat_deg \<le> 90 \<and> lat_min10 < 600 \<and> lon_deg \<le> 180 \<and> lon_min10 < 600
                         then Some (signed_lat lat_dir (real lat_deg + real lat_min10 / 600),
                                    signed_lon lon_dir (real lon_deg + real lon_min10 / 600))
                         else None
                 else None
         else None)"

fun position_scan :: "string \<Rightarrow> (real \<times> real) option" where
  "position_scan [] = None"
| "position_scan (c # s) =
     (if (c = CHR ''N'' \<or> c = CHR ''S'') \<and> is_digit (char_at s 0)
      then case position_at c s of Some r \<Rightarrow> Some r | None \<Rightarrow> position_scan s
      else position_scan s)"

text \<open>Format 3: \<^verbatim>\<open>LAT [NS] dd.ddd/LON [EW] ddd.ddd\<close>.\<close>

definition skip_blanks :: "string \<Rightarrow> string" where
  "skip_blanks = dropWhile (\<lambda>c. c = CHR '' '')"

definition position_lon :: "string \<Rightarrow> (real \<Rightarrow> real \<times> real) \<Rightarrow> (real \<times> real) option" where
  "position_lon rest result =
     (case strstr ''LON'' rest of
        None \<Rightarrow> None
      | Some q \<Rightarrow>
          let lp = skip_blanks (drop 3 q); lon_dir = char_at lp 0
          in if lon_dir = CHR ''E'' \<or> lon_dir = CHR ''W''
             then case strtod (skip_blanks (drop 1 lp)) of
                    Number lo rest' \<Rightarrow> if lo \<ge> 0 \<and> lo \<le> 180 then Some (result (signed_lon lon_dir lo)) else None
                  | _ \<Rightarrow> None
             else None)"

definition position_tagged :: "string \<Rightarrow> (real \<times> real) option" where
  "position_tagged text =
     (case strstr ''LAT'' text of
        None \<Rightarrow> None
      | Some q \<Rightarrow>
          let p = skip_blanks (drop 3 q); lat_dir = char_at p 0
          in if lat_dir = CHR ''N'' \<or> lat_dir = CHR ''S''
             then case strtod (skip_blanks (drop 1 p)) of
                    Number la rest \<Rightarrow> if la \<ge> 0 \<and> la \<le> 90 then position_lon rest (Pair (signed_lat lat_dir la)) else None
                  | _ \<Rightarrow> None
             else None)"

definition acars_extract_text_position :: "string \<Rightarrow> string \<Rightarrow> (real \<times> real) option" where
  "acars_extract_text_position label text =
     (if text = [] then None
      else if \<not> label_ok label then None
      else if flight_plan label text then None
      else case position_pos text of
             Some r \<Rightarrow> Some r
           | None \<Rightarrow> (case position_scan text of Some r \<Rightarrow> Some r | None \<Rightarrow> position_tagged text))"

definition is_delim :: "char \<Rightarrow> bool" where
  "is_delim c \<longleftrightarrow> c = CHR '','' \<or> c = CHR '' '' \<or> c = CHR ''/''"

definition is_upper_char :: "char \<Rightarrow> bool" where
  "is_upper_char c \<longleftrightarrow> CHR ''A'' \<le> c \<and> c \<le> CHR ''Z''"

definition waypoint_token :: "string \<Rightarrow> string option" where
  "waypoint_token s =
     (if is_upper_char (char_at s 0) \<and> is_upper_char (char_at s 1) \<and> is_upper_char (char_at s 2) \<and>
         is_upper_char (char_at s 3) \<and> is_upper_char (char_at s 4) \<and>
         (char_at s 5 = CHR '','' \<or> char_at s 5 = CHR '' '' \<or> char_at s 5 = CHR ''/'' \<or>
          char_at s 5 = CHR 0x00 \<or> char_at s 5 = CHR 0x0D \<or> char_at s 5 = CHR 0x0A)
      then Some (take 5 s) else None)"

definition next_token :: "string \<Rightarrow> string" where
  "next_token s = dropWhile is_delim (dropWhile (\<lambda>c. \<not> is_delim c) s)"

lemma next_token_shorter: "s \<noteq> [] \<Longrightarrow> length (next_token s) < length s"
  by (cases s) (auto simp: next_token_def less_Suc_eq_le length_dropWhile_le order_trans [OF length_dropWhile_le length_dropWhile_le])

function waypoint_scan :: "(string \<Rightarrow> (real \<times> real) option) \<Rightarrow> string \<Rightarrow> (real \<times> real) option" where
  "waypoint_scan lookup s =
     (if s = [] then None
      else let t = next_token s
           in case Option.bind (waypoint_token t) lookup of
                Some r \<Rightarrow> Some r
              | None \<Rightarrow> waypoint_scan lookup (dropWhile (\<lambda>c. \<not> is_delim c) t))"
  by pat_completeness auto
termination
  by (relation "measure (length \<circ> snd)")
    (auto intro!: order.strict_trans1 [OF length_dropWhile_le] next_token_shorter)

declare waypoint_scan.simps [simp del]

definition acars_extract_waypoint_position :: "(string \<Rightarrow> (real \<times> real) option) \<Rightarrow> string \<Rightarrow> string \<Rightarrow> (real \<times> real) option" where
  "acars_extract_waypoint_position lookup label text =
     (if text = [] then None
      else if \<not> label_ok label then None
      else if flight_plan label text then None
      else waypoint_scan lookup (if starts_with ''POS'' text then drop 3 text else text))"

subsection \<open>Escaping is correct\<close>

text \<open>How a JSON reader undoes the escapes.\<close>

fun json_unescape :: "string \<Rightarrow> string option" where
  "json_unescape [] = Some []"
| "json_unescape (c # s) =
     (if c = CHR 0x5C
      then case s of
             [] \<Rightarrow> None
           | e # s' \<Rightarrow>
               if e = CHR 0x22 \<or> e = CHR 0x5C then map_option ((#) e) (json_unescape s')
               else if e = CHR ''n'' then map_option ((#) CHR 0x0A) (json_unescape s')
               else if e = CHR ''r'' then map_option ((#) CHR 0x0D) (json_unescape s')
               else if e = CHR ''t'' then map_option ((#) CHR 0x09) (json_unescape s')
               else if e = CHR ''u''
               then case s' of
                      h1 # h2 # h3 # h4 # s'' \<Rightarrow>
                        map_option ((#) (char_of (digits_value_base 16 hex_digit [h1, h2, h3, h4]))) (json_unescape s'')
                    | _ \<Rightarrow> None
               else None
      else if c = CHR 0x22 \<or> of_char c < (0x20 :: nat) then None
      else map_option ((#) c) (json_unescape s))"

definition escape_char :: "char \<Rightarrow> string" where
  "escape_char c =
     (if c = CHR 0x22 then [CHR 0x5C, CHR 0x22]
      else if c = CHR 0x5C then [CHR 0x5C, CHR 0x5C]
      else if c = CHR 0x0A then [CHR 0x5C, CHR ''n'']
      else if c = CHR 0x0D then [CHR 0x5C, CHR ''r'']
      else if c = CHR 0x09 then [CHR 0x5C, CHR ''t'']
      else if of_char c < (0x20 :: nat) \<or> c = CHR 0x7F then [CHR 0x5C, CHR ''u''] @ pad_left CHR ''0'' 4 (hex_nat (of_char c))
      else [c])"

lemma hex_nat_small: "n < 16 \<Longrightarrow> hex_nat n = [digit_char n]" "16 \<le> n \<Longrightarrow> n < 256 \<Longrightarrow> hex_nat n = [digit_char (n div 16), digit_char (n mod 16)]"
  by (simp_all add: hex_nat_def digits.simps [of 16 n] digits.simps [of 16 "n div 16"] div_less_iff_less_mult)

lemma hex_digit_char: "d < 16 \<Longrightarrow> hex_digit (digit_char d) = d"
proof -
  assume d: "d < 16"
  then have "d \<in> set [0..<16]" by simp
  moreover have "\<forall>d \<in> set [0..<16]. hex_digit (digit_char d) = d" by code_simp
  ultimately show ?thesis by blast
qed

lemma replicate_2_3: "replicate 2 x = [x, x]" "replicate 3 x = [x, x, x]"
  by (simp_all add: eval_nat_numeral)

lemma u_escape:
  assumes "n < 256"
  shows "pad_left CHR ''0'' 4 (hex_nat n) = [CHR ''0'', CHR ''0'', digit_char (n div 16), digit_char (n mod 16)]"
proof (cases "n < 16")
  case True
  have "digit_char 0 = CHR ''0''" by code_simp
  then show ?thesis using True by (simp add: hex_nat_small pad_left_def replicate_2_3)
next
  case False
  then have "hex_nat n = [digit_char (n div 16), digit_char (n mod 16)]" using assms hex_nat_small(2) [of n] by simp
  then show ?thesis by (simp add: pad_left_def replicate_2_3)
qed

lemma u_value:
  assumes "n < 256"
  shows "digits_value_base 16 hex_digit [CHR ''0'', CHR ''0'', digit_char (n div 16), digit_char (n mod 16)] = n"
proof -
  have "hex_digit CHR ''0'' = 0" by code_simp
  moreover have "hex_digit (digit_char (n div 16)) = n div 16" "hex_digit (digit_char (n mod 16)) = n mod 16"
    using assms by (simp_all add: hex_digit_char)
  ultimately show ?thesis by (simp add: digits_value_base_def)
qed

lemma of_char_less: "of_char c < (256 :: nat)"
  by simp

lemma length_hex_char: "length (hex_nat (of_char c)) \<le> 4"
proof -
  have "length (hex_nat n) \<le> 2" if "n < 256" for n
    using that hex_nat_small [of n] by (cases "n < 16") auto
  from this [OF of_char_less [of c]] show ?thesis by simp
qed

lemma unescape_char: "json_unescape (escape_char c @ s) = map_option ((#) c) (json_unescape s)"
proof -
  consider "c = CHR 0x22" | "c = CHR 0x5C" | "c = CHR 0x0A" | "c = CHR 0x0D" | "c = CHR 0x09"
    | "c \<notin> {CHR 0x22, CHR 0x5C, CHR 0x0A, CHR 0x0D, CHR 0x09}" "of_char c < (0x20 :: nat) \<or> c = CHR 0x7F"
    | "c \<notin> {CHR 0x22, CHR 0x5C, CHR 0x0A, CHR 0x0D, CHR 0x09}" "\<not> (of_char c < (0x20 :: nat) \<or> c = CHR 0x7F)"
    by blast
  then show ?thesis
  proof cases
    case 6
    note h = u_escape [OF of_char_less, of c] u_value [OF of_char_less, of c]
    show ?thesis using 6 h by (simp add: escape_char_def)
  qed (simp_all add: escape_char_def)
qed

lemma length_escape_char: "length (escape_char c) \<le> 6" "escape_char c \<noteq> []"
  using length_hex_char [of c] by (auto simp: escape_char_def)

text \<open>The loop copies the escapes of a prefix of its input.\<close>

lemma escape_loop_step:
  "escape_loop outsz (c # cs) out =
     (if length out + 2 < outsz \<and> (length (escape_char c) < 6 \<or> length out + 6 < outsz)
      then escape_loop outsz cs (out @ escape_char c) else out)"
proof -
  have l: "length (pad_left CHR ''0'' 4 (hex_nat (of_char c :: nat))) = 4" using length_hex_char [of c] by simp
  then have "length out + 6 < outsz \<Longrightarrow>
      snprintf (outsz - length out) ([CHR 0x5C, CHR ''u''] @ pad_left CHR ''0'' 4 (hex_nat (of_char c))) =
      [CHR 0x5C, CHR ''u''] @ pad_left CHR ''0'' 4 (hex_nat (of_char c :: nat))"
    by (simp add: snprintf_def)
  then show ?thesis using l by (simp add: escape_char_def)
qed

lemma escape_loop_prefix:
  "\<exists>n \<le> length cs. escape_loop outsz cs out = out @ concat (map escape_char (take n cs)) \<and>
     (length out + 6 * length cs < outsz \<longrightarrow> n = length cs)"
proof (induction cs arbitrary: out)
  case (Cons c cs)
  show ?case
  proof (cases "length out + 2 < outsz \<and> (length (escape_char c) < 6 \<or> length out + 6 < outsz)")
    case True
    obtain n where n: "n \<le> length cs" "escape_loop outsz cs (out @ escape_char c) = (out @ escape_char c) @ concat (map escape_char (take n cs))"
      "length (out @ escape_char c) + 6 * length cs < outsz \<longrightarrow> n = length cs"
      using Cons.IH [of "out @ escape_char c"] by blast
    have "length out + 6 * length (c # cs) < outsz \<longrightarrow> Suc n = length (c # cs)"
      using n(3) length_escape_char(1) [of c] by auto
    then show ?thesis using True n by (intro exI [of _ "Suc n"]) (simp add: escape_loop_step del: escape_loop.simps)
  next
    case False
    then show ?thesis by (intro exI [of _ 0]) (auto simp: escape_loop_step simp del: escape_loop.simps)
  qed
qed (intro exI [of _ 0], simp)

lemma escape_loop_length: "length out < outsz \<Longrightarrow> length (escape_loop outsz cs out) < outsz"
proof (induction cs arbitrary: out)
  case (Cons c cs)
  have "length (escape_char c) \<le> 2 \<or> length (escape_char c) = 6"
    using length_hex_char [of c] by (auto simp: escape_char_def)
  with Cons length_escape_char(1) [of c] show ?case by (auto simp: escape_loop_step simp del: escape_loop.simps)
qed simp

lemma unescape_concat: "json_unescape (concat (map escape_char cs)) = Some cs"
  by (induction cs) (simp_all add: unescape_char)

text \<open>
  C30. Escaping is right for every text: the escaped string fits its buffer, a JSON reader
  accepts it as the contents of a string and reads back a prefix of the text, and the whole text when the
  buffer has six characters for each of its characters.
\<close>

theorem json_escape_roundtrip:
  assumes "0 < outsz"
  shows "length (json_escape s outsz) < outsz \<and> hub_json_escape s outsz = json_escape s outsz \<and>
    (\<exists>n \<le> length s. json_unescape (json_escape s outsz) = Some (take n s) \<and> (6 * length s < outsz \<longrightarrow> n = length s))"
proof -
  obtain n where "n \<le> length s" "escape_loop outsz s [] = concat (map escape_char (take n s))" "6 * length s < outsz \<longrightarrow> n = length s"
    using escape_loop_prefix [of s outsz "[]"] by auto
  then show ?thesis using assms escape_loop_length [of "[]" outsz s] unescape_concat [of "take n s"]
    by (auto simp: json_escape_def hub_json_escape_def)
qed

theorem json_escape_roundtrip_witness:
  "json_unescape (json_escape ''say hi'' 64) = Some ''say hi''"
  using json_escape_roundtrip [of 64 "''say hi''"] by auto

subsection \<open>Positions\<close>

lemma position_pos_range: "position_pos text = Some (lat, lon) \<Longrightarrow> \<bar>lat\<bar> \<le> 90 \<and> \<bar>lon\<bar> \<le> 180"
  by (auto simp: position_pos_def signed_lat_def signed_lon_def Let_def split: option.splits if_splits)

lemma position_at_range: "position_at d s = Some (lat, lon) \<Longrightarrow> \<bar>lat\<bar> < 91 \<and> \<bar>lon\<bar> < 181"
  by (auto simp: position_at_def signed_lat_def signed_lon_def Let_def field_simps split: if_splits)

lemma position_scan_range: "position_scan s = Some (lat, lon) \<Longrightarrow> \<bar>lat\<bar> < 91 \<and> \<bar>lon\<bar> < 181"
  by (induction s) (auto split: if_splits option.splits dest: position_at_range)

lemma position_tagged_range: "position_tagged s = Some (lat, lon) \<Longrightarrow> \<bar>lat\<bar> \<le> 90 \<and> \<bar>lon\<bar> \<le> 180"
  by (auto simp: position_tagged_def position_lon_def signed_lat_def signed_lon_def Let_def
      split: option.splits if_splits strtod_result.splits)

text \<open>
  A position that is read from the text of a message is less than 91 degrees of latitude and less than 181 degrees
  of longitude. It may leave the globe, however: degrees and minutes are checked separately, so ninety degrees and
  59.9 minutes are accepted.
\<close>

theorem text_position_range:
  "(acars_extract_text_position label text = Some (lat, lon) \<longrightarrow> \<bar>lat\<bar> < 91 \<and> \<bar>lon\<bar> < 181) \<and>
   acars_extract_text_position ''15'' ''N90599E180599'' = Some (90 + 599 / 600, 180 + 599 / 600)"
proof
  show "acars_extract_text_position label text = Some (lat, lon) \<longrightarrow> \<bar>lat\<bar> < 91 \<and> \<bar>lon\<bar> < 181"
    by (auto simp: acars_extract_text_position_def split: if_splits option.splits
        dest!: position_pos_range position_scan_range position_tagged_range)
  show "acars_extract_text_position ''15'' ''N90599E180599'' = Some (90 + 599 / 600, 180 + 599 / 600)"
    by (simp add: acars_extract_text_position_def position_pos_def position_at_def label_ok_def flight_plan_def starts_with_def
        char_at_def is_digit_of_char parse_nat_def char_digit_def signed_lat_def signed_lon_def)
qed

theorem text_position_range_witness:
  "acars_extract_text_position ''15'' ''N90599E180599'' = Some (90 + 599 / 600, 180 + 599 / 600) \<and> \<bar>90 + 599 / 600 :: real\<bar> < 91"
  using text_position_range [of "''15''" "''N90599E180599''" "90 + 599 / 600" "180 + 599 / 600"] by simp

subsection \<open>Position reports are read back\<close>

definition zero_padded :: "nat \<Rightarrow> nat \<Rightarrow> string" where
  "zero_padded w n = pad_left CHR ''0'' w (dec_nat n)"

lemma zero_padded_digits: "c \<in> set (zero_padded w n) \<Longrightarrow> is_digit c"
  using dec_nat_digits [of c n] by (auto simp: zero_padded_def pad_left_def is_digit_of_char split: if_splits)

lemma length_zero_padded: "n < 10 ^ w \<Longrightarrow> 0 < w \<Longrightarrow> length (zero_padded w n) = w"
  using length_dec_nat [of n w] by (simp add: zero_padded_def max_def)

lemma parse_leading_zeros: "((\<lambda>n. 10 * n + char_digit CHR ''0'') ^^ k) 0 = 0"
  by (induction k) (simp_all add: char_digit_def)

lemma parse_zero_padded: "parse_nat (zero_padded w n) = n"
  using parse_dec_nat [of n] by (simp add: zero_padded_def pad_left_def parse_nat_def parse_leading_zeros)

lemma takeWhile_zero_padded [simp]: "takeWhile is_digit (zero_padded w n) = zero_padded w n"
  using zero_padded_digits [of _ w n] by (simp add: takeWhile_eq_all_conv)

text \<open>
  C31. A position report in the form \<^verbatim>\<open>POSN43312W123174\<close>, thousandths of degrees with a hemisphere letter each, is read back
  exactly for every latitude and longitude on the globe, under each of the labels that carry positions and whatever follows it.
\<close>

theorem position_report_roundtrip:
  assumes "label_ok label" and "lat \<le> 90000" and "lon \<le> 180000" and "ns \<in> {CHR ''N'', CHR ''S''}" and "ew \<in> {CHR ''E'', CHR ''W''}"
  shows "acars_extract_text_position label (''POS'' @ [ns] @ zero_padded 5 lat @ [ew] @ zero_padded 6 lon @ rest) =
    Some (signed_lat ns (real lat / 1000), signed_lon ew (real lon / 1000))"
proof -
  let ?a = "zero_padded 5 lat" and ?b = "zero_padded 6 lon"
  have l: "length ?a = 5" "length ?b = 6" using assms(2,3) by (simp_all add: length_zero_padded)
  have "position_pos (''POS'' @ [ns] @ ?a @ [ew] @ ?b @ rest) = Some (signed_lat ns (real lat / 1000), signed_lon ew (real lon / 1000))"
    using assms(2-5) l by (auto simp: position_pos_def char_at_def parse_zero_padded nth_append Let_def)
  then show ?thesis using assms(1) by (simp add: acars_extract_text_position_def flight_plan_def starts_with_def)
qed

lemma digit_chars:
  "digit_char 0 = CHR ''0''" "digit_char (Suc 0) = CHR ''1''" "digit_char 2 = CHR ''2''" "digit_char 3 = CHR ''3''" "digit_char 4 = CHR ''4''"
  "digit_char 5 = CHR ''5''" "digit_char 6 = CHR ''6''" "digit_char 7 = CHR ''7''" "digit_char 8 = CHR ''8''" "digit_char 9 = CHR ''9''"
  by code_simp+

theorem position_report_roundtrip_witness:
  "acars_extract_text_position ''H1'' ''POSN43312W123174,WAYPT'' = Some (43312 / 1000, - (123174 / 1000))"
proof -
  have "zero_padded 5 43312 = ''43312''" "zero_padded 6 123174 = ''123174''" by (simp_all add: zero_padded_def dec_nat_def digits.simps pad_left_def digit_chars)
  then show ?thesis
    using position_report_roundtrip [of "''H1''" 43312 123174 "CHR ''N''" "CHR ''W''" "'',WAYPT''"]
    by (simp add: label_ok_def char_at_def signed_lat_def signed_lon_def)
qed

end
