(* ===== verification/BeamCache.thy ===== *)
theory BeamCache
  imports FrameDecode
begin

text \<open>
  The cache of recent ground beam positions in \<^verbatim>\<open>src/main.c\<close>, from which the position of an aircraft is estimated: a
  ring of 64 entries, written by the output thread for every decoded ring alert of a ground beam, and searched backwards by
  \<^verbatim>\<open>beam_cache_lookup\<close>.
\<close>

definition BEAM_CACHE_SIZE :: nat where "BEAM_CACHE_SIZE = 64"

record beam_entry =
  be_lat :: real
  be_lon :: real
  be_sat_id :: int
  be_beam_id :: int
  be_timestamp_ns :: u64

record beam_cache =
  bc_entries :: "beam_entry list"
  bc_head :: nat

definition empty_beam_cache :: beam_cache where
  "empty_beam_cache = \<lparr>bc_entries = replicate BEAM_CACHE_SIZE \<lparr>be_lat = 0, be_lon = 0, be_sat_id = 0, be_beam_id = 0, be_timestamp_ns = 0\<rparr>,
     bc_head = 0\<rparr>"

definition beam_cache_add :: "beam_entry \<Rightarrow> beam_cache \<Rightarrow> beam_cache" where
  "beam_cache_add e c = c\<lparr>bc_entries := (bc_entries c)[bc_head c mod BEAM_CACHE_SIZE := e], bc_head := bc_head c + 1\<rparr>"

text \<open>The index of the entry written \<open>i\<close> entries before the last one.\<close>

definition beam_index :: "nat \<Rightarrow> nat \<Rightarrow> nat" where
  "beam_index head i = nat ((int head - 1 - int i + int BEAM_CACHE_SIZE) mod int BEAM_CACHE_SIZE)"

fun beam_scan :: "beam_entry list \<Rightarrow> nat \<Rightarrow> u64 \<Rightarrow> nat list \<Rightarrow> (real \<times> real \<times> int \<times> int) option" where
  "beam_scan es head ts [] = None"
| "beam_scan es head ts (i # is) =
     (let e = es ! beam_index head i
      in if be_timestamp_ns e = 0 then None
         else if be_timestamp_ns e > ts then beam_scan es head ts is
         else if ts - be_timestamp_ns e > 10000000000 then None
         else Some (be_lat e, be_lon e, be_sat_id e, be_beam_id e))"

definition beam_cache_lookup :: "beam_cache \<Rightarrow> u64 \<Rightarrow> (real \<times> real \<times> int \<times> int) option" where
  "beam_cache_lookup c ts = beam_scan (bc_entries c) (bc_head c) ts [0..<BEAM_CACHE_SIZE]"

subsection \<open>The ring holds the last 64 entries\<close>

text \<open>The history of entries, the most recent first.\<close>

definition cache_of :: "beam_entry list \<Rightarrow> beam_cache" where
  "cache_of h = foldr beam_cache_add h empty_beam_cache"

lemma cache_of_Nil [simp]: "cache_of [] = empty_beam_cache"
  and cache_of_Cons [simp]: "cache_of (e # h) = beam_cache_add e (cache_of h)"
  by (simp_all add: cache_of_def)

lemma cache_of_shape [simp]: "bc_head (cache_of h) = length h" "length (bc_entries (cache_of h)) = BEAM_CACHE_SIZE"
  by (induction h) (simp_all add: empty_beam_cache_def beam_cache_add_def)

lemma beam_index_bound: "beam_index head i < BEAM_CACHE_SIZE"
  by (simp add: beam_index_def BEAM_CACHE_SIZE_def nat_less_iff)

lemma beam_index_Suc: "beam_index (Suc head) (Suc i) = beam_index head i"
  by (simp add: beam_index_def algebra_simps)

lemma beam_index_0: "beam_index (Suc head) 0 = head mod BEAM_CACHE_SIZE"
  by (simp add: beam_index_def BEAM_CACHE_SIZE_def nat_mod_as_int)

lemma beam_index_inj:
  assumes "i < BEAM_CACHE_SIZE" and "j < BEAM_CACHE_SIZE" and "beam_index head i = beam_index head j"
  shows "i = j"
proof -
  have "(int head - 1 - int i + 64) mod 64 = (int head - 1 - int j + 64) mod 64"
    using assms(3) by (simp add: beam_index_def BEAM_CACHE_SIZE_def)
  then have "(64 :: int) dvd (int head - 1 - int i + 64) - (int head - 1 - int j + 64)" by (simp only: mod_eq_dvd_iff)
  moreover have "(int head - 1 - int i + 64) - (int head - 1 - int j + 64) = int j - int i" by simp
  ultimately have "(64 :: int) dvd int j - int i" by (simp only:)
  then obtain q where "int j - int i = 64 * q" by (rule dvdE)
  moreover from assms(1,2) have "int j - int i < 64" "- 64 < int j - int i" by (simp_all add: BEAM_CACHE_SIZE_def)
  ultimately have "q = 0" by presburger
  with \<open>int j - int i = 64 * q\<close> show ?thesis by simp
qed

lemma cache_of_nth:
  assumes "i < BEAM_CACHE_SIZE"
  shows "bc_entries (cache_of h) ! beam_index (length h) i = (if i < length h then h ! i else
    \<lparr>be_lat = 0, be_lon = 0, be_sat_id = 0, be_beam_id = 0, be_timestamp_ns = 0\<rparr>)"
  using assms
proof (induction h arbitrary: i)
  case Nil
  then show ?case using beam_index_bound by (simp add: empty_beam_cache_def)
next
  case (Cons e h)
  show ?case
  proof (cases i)
    case 0
    then show ?thesis by (simp add: beam_cache_add_def beam_index_0 BEAM_CACHE_SIZE_def)
  next
    case (Suc k)
    have "length h mod BEAM_CACHE_SIZE \<noteq> beam_index (length h) k"
      using beam_index_inj [of 0 i "Suc (length h)"] Cons.prems Suc by (auto simp: beam_index_0 beam_index_Suc)
    then show ?thesis using Cons Suc by (simp add: beam_cache_add_def beam_index_Suc)
  qed
qed

text \<open>The reference: the most recent entry that is not in the future, if it is at most ten seconds old.\<close>

fun recent_beam :: "u64 \<Rightarrow> beam_entry list \<Rightarrow> (real \<times> real \<times> int \<times> int) option" where
  "recent_beam ts [] = None"
| "recent_beam ts (e # h) =
     (if be_timestamp_ns e > ts then recent_beam ts h
      else if ts - be_timestamp_ns e > 10000000000 then None
      else Some (be_lat e, be_lon e, be_sat_id e, be_beam_id e))"

lemma beam_scan_recent:
  assumes "\<forall>e \<in> set h. be_timestamp_ns e \<noteq> 0" and "k \<le> BEAM_CACHE_SIZE"
  shows "beam_scan (bc_entries (cache_of h)) (length h) ts [k..<BEAM_CACHE_SIZE] = recent_beam ts (drop k (take BEAM_CACHE_SIZE h))"
  using assms(2)
proof (induction "BEAM_CACHE_SIZE - k" arbitrary: k)
  case 0
  then show ?case by simp
next
  case (Suc n)
  then have k: "k < BEAM_CACHE_SIZE" by simp
  then have IH: "beam_scan (bc_entries (cache_of h)) (length h) ts [Suc k..<BEAM_CACHE_SIZE] =
      recent_beam ts (drop (Suc k) (take BEAM_CACHE_SIZE h))"
    using Suc by simp
  show ?case
  proof (cases "k < length h")
    case True
    then have "drop k (take BEAM_CACHE_SIZE h) = h ! k # drop (Suc k) (take BEAM_CACHE_SIZE h)"
      using k by (simp add: Cons_nth_drop_Suc [symmetric])
    moreover have "be_timestamp_ns (h ! k) \<noteq> 0" using True assms(1) by simp
    ultimately show ?thesis using IH k True cache_of_nth [OF k, of h] by (simp add: upt_conv_Cons Let_def)
  next
    case False
    then show ?thesis using k cache_of_nth [OF k, of h] by (simp add: upt_conv_Cons Let_def)
  qed
qed



end
