(* ===== verification/AcarsMessage.thy ===== *)
theory AcarsMessage
  imports AcarsText BeamCache
begin

unbundle bit_operations_syntax

text \<open>
  ACARS messages in \<^verbatim>\<open>src/sbd_acars.c\<close>, in the build without libacars: \<^verbatim>\<open>acars_parse_fallback\<close> with its checks of checksum and
  parity, the JSON, text and aggregator outputs, the map and position reports it triggers, and \<^verbatim>\<open>sbd_process\<close>, which decides between
  ACARS and raw output. Everything the code sends somewhere is an event. The network is a parameter: what \<^verbatim>\<open>connect\<close> and \<^verbatim>\<open>send\<close> return;
  so are the clocks. Numbers are exact, and the diagnostics on the error stream are left out.
\<close>

subsection \<open>State, configuration and events\<close>

datatype acars_event =
    Stdout string
  | Sent_Udp int string
  | Sent_Tcp int string
  | Web_Message string string string string bool u64
  | Web_Aircraft string string real real int int u64 real int bool
  | Basestation string string real real int u64

record feed_ep =
  fe_fd :: int
  fe_is_tcp :: bool
  fe_tcp_host :: "string option"
  fe_tcp_port :: int

record net_env =
  env_connect :: "string \<Rightarrow> int \<Rightarrow> int"
  env_send :: "int \<Rightarrow> string \<Rightarrow> int"
  env_clock :: "int \<times> int"
  env_time :: int

record acars_config =
  acars_json :: bool
  acars_enabled :: bool
  web_enabled :: bool
  basestation_enabled :: bool
  basestation_beam :: bool
  station :: "string option"
  udp_fds :: "int list"

record acars_state =
  ac_ts :: ts_state
  feeds :: "feed_ep list"
  stat_acars_total :: int
  stat_acars_errors :: int
  stat_pos_text :: int
  stat_pos_beam :: int
  stat_bs_sent :: int

subsection \<open>Sending\<close>

definition json_buf_emit :: "acars_config \<Rightarrow> string \<Rightarrow> acars_event list" where
  "json_buf_emit cfg buf =
     (if buf = [] then []
      else (if acars_json cfg then [Stdout (buf @ [CHR 0x0A])] else []) @
           map (\<lambda>fd. Sent_Udp fd buf) (filter (\<lambda>fd. fd \<ge> 0) (udp_fds cfg)))"

definition feed_any_active :: "acars_state \<Rightarrow> bool" where
  "feed_any_active st \<longleftrightarrow> feeds st \<noteq> []"

definition feed_send :: "net_env \<Rightarrow> string \<Rightarrow> feed_ep \<Rightarrow> feed_ep \<times> acars_event list" where
  "feed_send env buf f =
     (if \<not> fe_is_tcp f then (f, if fe_fd f \<ge> 0 then [Sent_Udp (fe_fd f) buf] else [])
      else
        let f = (case fe_tcp_host f of
                   Some host \<Rightarrow> if fe_fd f < 0 then f\<lparr>fe_fd := env_connect env host (fe_tcp_port f)\<rparr> else f
                 | None \<Rightarrow> f)
        in if fe_fd f \<ge> 0
           then let r1 = env_send env (fe_fd f) buf;
                    r2 = (if r1 > 0 then env_send env (fe_fd f) [CHR 0x0A] else r1);
                    sent = [Sent_Tcp (fe_fd f) buf] @ (if r1 > 0 then [Sent_Tcp (fe_fd f) [CHR 0x0A]] else [])
                in (if r2 \<le> 0 then f\<lparr>fe_fd := - 1\<rparr> else f, sent)
           else (f, []))"

definition hub_buf_emit :: "net_env \<Rightarrow> string \<Rightarrow> feed_ep list \<Rightarrow> feed_ep list \<times> acars_event list" where
  "hub_buf_emit env buf fs =
     (if buf = [] then (fs, []) else (map (fst \<circ> feed_send env buf) fs, concat (map (snd \<circ> feed_send env buf) fs)))"

subsection \<open>Fields of a message\<close>

definition chars :: "u8 list \<Rightarrow> string" where
  "chars = map byte_char"

definition acars_reg :: "u8 list \<Rightarrow> string" where
  "acars_reg data = cstr (chars (dropWhile (\<lambda>b. b = 0x2E) (take 7 (drop 1 data))))"

text \<open>The text area, without its terminator, and whether the terminator announces another block.\<close>

definition acars_rest :: "u8 list \<Rightarrow> u8 list \<times> bool" where
  "acars_rest data =
     (let rest = drop 12 data
      in if rest \<noteq> [] \<and> last rest = 0x03 then (butlast rest, False)
         else if rest \<noteq> [] \<and> last rest = 0x17 then (butlast rest, True)
         else (rest, False))"

record acars_body =
  ab_msg_num :: "u8 list"
  ab_msg_num_seq :: u8
  ab_flight :: "u8 list"
  ab_txt :: "u8 list option"

definition acars_body_of :: "bool \<Rightarrow> u8 list \<Rightarrow> acars_body" where
  "acars_body_of ul rest =
     (if rest \<noteq> [] \<and> rest ! 0 = 0x02
      then if ul \<and> length rest \<ge> 11
           then \<lparr>ab_msg_num = take 3 (drop 1 rest), ab_msg_num_seq = rest ! 4, ab_flight = take 6 (drop 5 rest), ab_txt = Some (drop 11 rest)\<rparr>
           else \<lparr>ab_msg_num = [], ab_msg_num_seq = 0, ab_flight = [], ab_txt = Some (drop 1 rest)\<rparr>
      else \<lparr>ab_msg_num = [], ab_msg_num_seq = 0, ab_flight = [], ab_txt = None\<rparr>)"

definition txt_bytes :: "acars_body \<Rightarrow> u8 list" where
  "txt_bytes b = (case ab_txt b of None \<Rightarrow> [] | Some t \<Rightarrow> t)"

definition hex_byte :: "u8 \<Rightarrow> string" where
  "hex_byte b = pad_left CHR ''0'' 2 (hex_nat (unat b))"

subsection \<open>The aggregator format\<close>

fun hdr_hex_loop :: "u8 list \<Rightarrow> string \<Rightarrow> string" where
  "hdr_hex_loop [] out = out"
| "hdr_hex_loop (b # bs) out = (if length out < 64 - 3 then hdr_hex_loop bs (out @ snprintf (64 - length out) (hex_byte b)) else out)"

definition hub_line ::
  "acars_config \<Rightarrow> net_env \<Rightarrow> string \<Rightarrow> string \<Rightarrow> char \<Rightarrow> string \<Rightarrow> char \<Rightarrow> bool \<Rightarrow> bool \<Rightarrow> string \<Rightarrow> string \<Rightarrow> string \<Rightarrow> int \<Rightarrow> real \<Rightarrow> real \<Rightarrow>
   u8 list \<Rightarrow> string" where
  \<open>hub_line cfg env mode reg ack label blk_id block_end ul txt flight msg_num errors freq magn hdr =
     foldl hub_buf_append []
       ([''{"app":{"name":"iridium-toolkit","version":"0.0.1"}'',
         '',"source":{"transport":"iridium","protocol":"acars"''] @
        (case station cfg of Some s \<Rightarrow> ['',"station_id":"'' @ s @ ''"''] | None \<Rightarrow> []) @
        [''}'',
         '',"acars":{"timestamp":"'' @ iso8601 (nat (env_time env)) @ ''"'',
         '',"errors":'' @ dec_int errors,
         '',"link_direction":"'' @ (if ul then ''uplink'' else ''downlink'') @ ''"'',
         '',"block_end":'' @ (if block_end then ''true'' else ''false''),
         '',"mode":"'' @ mode @ ''"'',
         '',"tail":"'' @ hub_json_escape reg 64 @ ''"'',
         '',"label":"'' @ hub_json_escape label 16 @ ''"'',
         '',"block_id":"'' @ [blk_id] @ ''"'',
         '',"ack":"'' @ [if ack = CHR 0x15 then CHR ''!'' else ack] @ ''"''] @
        (if flight \<noteq> [] then ['',"flight":"'' @ hub_json_escape flight 32 @ ''"''] else []) @
        (if msg_num \<noteq> [] then ['',"message_number":"'' @ hub_json_escape msg_num 16 @ ''"''] else []) @
        ['',"text":"'' @ (if txt \<noteq> [] then hub_json_escape txt 2048 else []) @ ''"'',
         ''}'',
         '',"freq":'' @ fixed 1 freq,
         '',"level":'' @ fixed 2 magn,
         '',"header":"'' @ hdr_hex_loop hdr [] @ ''"'',
         ''}''])\<close>

definition hub_emit_acars ::
  "acars_config \<Rightarrow> net_env \<Rightarrow> acars_state \<Rightarrow> string \<Rightarrow> string \<Rightarrow> char \<Rightarrow> string \<Rightarrow> char \<Rightarrow> bool \<Rightarrow> bool \<Rightarrow> string \<Rightarrow> string \<Rightarrow> string \<Rightarrow> int \<Rightarrow> real \<Rightarrow> real \<Rightarrow>
   u8 list \<Rightarrow> acars_state \<times> acars_event list" where
  "hub_emit_acars cfg env st mode reg ack label blk_id block_end ul txt flight msg_num errors freq magn hdr =
     (if \<not> feed_any_active st then (st, [])
      else case hub_buf_emit env (hub_line cfg env mode reg ack label blk_id block_end ul txt flight msg_num errors freq magn hdr) (feeds st) of
             (fs, es) \<Rightarrow> (st\<lparr>feeds := fs\<rparr>, es))"

subsection \<open>The JSON output\<close>

definition trunc_real :: "real \<Rightarrow> int" where
  "trunc_real x = (if x \<ge> 0 then \<lfloor>x\<rfloor> else \<lceil>x\<rceil>)"

definition json_label :: "u8 list \<Rightarrow> string" where
  "json_label data = cstr [byte_char (data ! 9), if data ! 9 = 0x5F \<and> data ! 10 = 0x7F then CHR ''d'' else byte_char (data ! 10)]"

definition json_line :: "acars_config \<Rightarrow> real \<Rightarrow> u8 list \<Rightarrow> bool \<Rightarrow> real \<Rightarrow> real \<Rightarrow> u8 list \<Rightarrow> string" where
  \<open>json_line cfg unix_time data ul freq magn hdr =
     (case acars_rest data of (rest, cont_block) \<Rightarrow>
      let body = acars_body_of ul rest;
          tv_sec = trunc_real unix_time;
          tv_usec = trunc_real ((unix_time - real_of_int tv_sec) * 1000000);
          esc_text = (if txt_bytes body \<noteq> [] then json_escape (chars (txt_bytes body)) 2048 else []);
          flight = cstr (chars (ab_flight body)); msg_num = cstr (chars (ab_msg_num body))
      in foldl json_buf_append []
        ([''{"iridium":{"app":{"name":"iridium-sniffer","ver":"1.0"}''] @
         (case station cfg of Some s \<Rightarrow> ['',"station":"'' @ s @ ''"''] | None \<Rightarrow> []) @
         ['',"t":{"sec":'' @ dec_int tv_sec @ '',"usec":'' @ dec_int tv_usec @ ''}'',
          '',"freq":'' @ dec_int (trunc_real freq),
          '',"sig_level":'' @ fixed 2 magn] @
         (if hdr \<noteq> [] then ['',"header":"''] @ map hex_byte hdr @ [''"''] else []) @
         ['',"acars":{"err":false,"crc_ok":true'',
          '',"more":'' @ (if cont_block then ''true'' else ''false''),
          '',"reg":"'' @ json_escape (cstr (chars (take 7 (drop 1 data)))) 64 @ ''"'',
          '',"mode":"'' @ [byte_char (data ! 0)] @ ''"'',
          '',"label":"'' @ json_escape (json_label data) 16 @ ''"'',
          '',"blk_id":"'' @ [byte_char (data ! 11)] @ ''"'',
          '',"ack":"'' @ [byte_char (data ! 8)] @ ''"''] @
         (if ul \<and> flight \<noteq> []
          then ['',"flight":"'' @ json_escape flight 32 @ ''"'',
                '',"msg_num":"'' @ json_escape msg_num 16 @ ''"''] @
               (if ab_msg_num_seq body \<noteq> 0 then ['',"msg_num_seq":"'' @ [byte_char (ab_msg_num_seq body)] @ ''"''] else [])
          else []) @
         (if esc_text \<noteq> [] then ['',"msg_text":"'' @ esc_text @ ''"''] else []) @
         [''}}}'']))\<close>

definition acars_output_json ::
  "acars_config \<Rightarrow> net_env \<Rightarrow> acars_state \<Rightarrow> u8 list \<Rightarrow> bool \<Rightarrow> u64 \<Rightarrow> real \<Rightarrow> real \<Rightarrow> u8 list \<Rightarrow> acars_state \<times> acars_event list" where
  "acars_output_json cfg env st data ul ts freq magn hdr =
     (if length data < 13 then (st, [])
      else case ts_to_unix (env_clock env) ts (ac_ts st) of
             (ts', unix_time) \<Rightarrow> (st\<lparr>ac_ts := ts'\<rparr>, json_buf_emit cfg (json_line cfg unix_time data ul freq magn hdr)))"

subsection \<open>The text output\<close>

definition printable :: "u8 \<Rightarrow> char" where
  "printable b = (if 0x20 \<le> b \<and> b < 0x7F then byte_char b else CHR ''.'')"

definition text_line :: "string \<Rightarrow> u8 list \<Rightarrow> bool \<Rightarrow> int \<Rightarrow> string" where
  "text_line ts_buf data ul errors =
     (case acars_rest data of (rest, cont_block) \<Rightarrow>
      let label = (if data ! 9 = 0x5F \<and> data ! 10 = 0x7F then ''_?'' else cstr [byte_char (data ! 9), byte_char (data ! 10)])
      in ''ACARS: '' @ ts_buf @ '' '' @ (if ul then ''UL'' else ''DL'') @ '' Mode:'' @ [byte_char (data ! 0)] @
         '' REG:'' @ pad_right 7 (acars_reg data) @ '' '' @
         (if data ! 8 = 0x15 then ''NAK  '' else ''ACK:'' @ [byte_char (data ! 8)] @ '' '') @
         ''Label:'' @ label @ '' bID:'' @ [byte_char (data ! 11)] @ '' '' @
         (if rest \<noteq> [] \<and> rest ! 0 = 0x02
          then if ul \<and> length rest \<ge> 11
               then ''SEQ:'' @ cstr (chars (take 4 (drop 1 rest))) @ '' FNO:'' @ cstr (chars (take 6 (drop 5 rest))) @ '' '' @
                    (if length rest > 11 then ''['' @ map printable (drop 11 rest) @ '']'' else [])
               else if length rest > 1 then ''['' @ map printable (drop 1 rest) @ '']'' else []
          else []) @
         (if cont_block then '' CONT'' @ [CHR 0x27] @ ''d'' else []) @
         (if errors > 0 then '' ERRORS'' else []) @ [CHR 0x0A])"

definition acars_output_text ::
  "net_env \<Rightarrow> acars_state \<Rightarrow> u8 list \<Rightarrow> bool \<Rightarrow> u64 \<Rightarrow> int \<Rightarrow> acars_state \<times> acars_event list" where
  "acars_output_text env st data ul ts errors =
     (if length data < 13 then (st, [])
      else case format_timestamp (env_clock env) ts (ac_ts st) of
             (ts', ts_buf) \<Rightarrow> (st\<lparr>ac_ts := ts'\<rparr>, [Stdout (text_line ts_buf data ul errors)]))"

definition sbd_output_raw :: "acars_config \<Rightarrow> net_env \<Rightarrow> acars_state \<Rightarrow> u8 list \<Rightarrow> bool \<Rightarrow> u64 \<Rightarrow> acars_state \<times> acars_event list" where
  "sbd_output_raw cfg env st data ul ts =
     (if acars_enabled cfg then (st, [])
      else case format_timestamp (env_clock env) ts (ac_ts st) of
             (ts', ts_buf) \<Rightarrow>
               (st\<lparr>ac_ts := ts'\<rparr>,
                [Stdout (''SBD: '' @ ts_buf @ '' '' @ (if ul then ''UL'' else ''DL'') @ '' '' @ concat (map hex_byte (take 64 data)) @
                   (if length data > 64 then ''...'' else []) @ '' | '' @ map printable (take 64 data) @ [CHR 0x0A])]))"

subsection \<open>Checking and parsing\<close>

function bit_count :: "u8 \<Rightarrow> nat" where
  "bit_count b = (if b = 0 then 0 else unat (b AND 1) + bit_count (drop_bit 1 b))"
  by pat_completeness auto
termination
proof (relation "measure unat")
  fix b :: u8
  assume "b \<noteq> 0"
  then have "unat b \<noteq> 0" by (metis unat_eq_zero)
  then have "unat b div 2 < unat b" by simp
  then show "(drop_bit 1 b, b) \<in> measure unat" by (simp add: drop_bit_eq_div unat_div)
qed simp

declare bit_count.simps [simp del]

definition parity_ok :: "u8 list \<Rightarrow> bool" where
  "parity_ok data \<longleftrightarrow> list_all (\<lambda>c. bit_count c mod 2 \<noteq> 0) data"

definition strip_parity :: "u8 list \<Rightarrow> u8 list" where
  "strip_parity = map (\<lambda>c. c AND 0x7F)"

text \<open>Checksum bytes, header and block of the data after the start marker.\<close>

definition split_checksum :: "u8 list \<Rightarrow> u8 list option \<times> u8 list" where
  "split_checksum data =
     (let len = length data
      in if len \<ge> 3 \<and> data ! (len - 1) = 0x7F then (Some [data ! (len - 3), data ! (len - 2)], take (len - 3) data) else (None, data))"

definition split_header :: "u8 list \<Rightarrow> u8 list \<times> u8 list" where
  "split_header data = (if length data > 0 \<and> data ! 0 = 0x03 \<and> length data \<ge> 8 then (take 8 data, drop 8 data) else ([], data))"

definition crc_errors :: "u8 list option \<Rightarrow> u8 list \<Rightarrow> int" where
  "crc_errors csum data =
     (case csum of
        None \<Rightarrow> 1
      | Some cs \<Rightarrow>
          let crc_len = length data + 2
          in if crc_len \<le> SBD_MAX_DATA then if crc16_kermit crc16_init (data @ cs) crc_len \<noteq> 0 then 1 else 0 else 0)"

text \<open>The aggregator output, and the message list of the web map.\<close>

definition fallback_feed ::
  "acars_config \<Rightarrow> net_env \<Rightarrow> acars_state \<Rightarrow> u8 list \<Rightarrow> bool \<Rightarrow> u64 \<Rightarrow> real \<Rightarrow> real \<Rightarrow> u8 list \<Rightarrow> int \<Rightarrow> acars_state \<times> acars_event list" where
  "fallback_feed cfg env st stripped ul ts freq magn hdr errors =
     (if feed_any_active st \<and> errors = 0
      then
        case acars_rest stripped of (rest, cont_block) \<Rightarrow>
        let body = acars_body_of ul rest; reg = acars_reg stripped; label = json_label stripped;
            flight = cstr (chars (ab_flight body)); msg_num = cstr (chars (ab_msg_num body))
        in case hub_emit_acars cfg env st (cstr [byte_char (stripped ! 0)]) reg (byte_char (stripped ! 8)) label (byte_char (stripped ! 11))
                  (\<not> cont_block) ul (chars (txt_bytes body)) flight msg_num errors freq magn hdr of
             (st', es) \<Rightarrow>
               (st', es @
                 (if web_enabled cfg \<and> reg \<noteq> [] \<and> txt_bytes body \<noteq> [] \<and> label \<noteq> ''_d''
                  then [Web_Message reg flight label (cstr (chars (take 255 (txt_bytes body)))) ul ts] else []))
      else (st, []))"

text \<open>The position of the aircraft: from the text, else from a waypoint, else from the beam.\<close>

definition fallback_text :: "u8 list \<Rightarrow> bool \<Rightarrow> string" where
  "fallback_text stripped ul = cstr (chars (take 2047 (txt_bytes (acars_body_of ul (fst (acars_rest stripped))))))"

definition fallback_position ::
  "acars_config \<Rightarrow> (string \<Rightarrow> (real \<times> real) option) \<Rightarrow> beam_cache \<Rightarrow> acars_state \<Rightarrow> u8 list \<Rightarrow> bool \<Rightarrow> u64 \<Rightarrow> real \<Rightarrow> int \<Rightarrow>
   acars_state \<times> acars_event list" where
  "fallback_position cfg wp_lookup cache st stripped ul ts freq errors =
     (let reg = acars_reg stripped
      in if web_enabled cfg \<and> errors = 0 \<and> length stripped \<ge> 13 \<and> reg \<noteq> []
         then
           let label = cstr [byte_char (stripped ! 9), byte_char (stripped ! 10)];
               txt = fallback_text stripped ul;
               pos = (case acars_extract_text_position label txt of
                        Some p \<Rightarrow> Some p
                      | None \<Rightarrow> acars_extract_waypoint_position wp_lookup label txt)
           in case pos of
                Some (lat, lon) \<Rightarrow>
                  (case beam_cache_lookup cache ts of
                     Some (_, _, sat, beam) \<Rightarrow>
                       (st\<lparr>stat_pos_text := stat_pos_text st + 1, stat_bs_sent := stat_bs_sent st + (if basestation_enabled cfg then 1 else 0)\<rparr>,
                        [Web_Aircraft reg [] lat lon sat beam ts freq (- 99999) True] @
                        (if basestation_enabled cfg then [Basestation reg [] lat lon (- 99999) ts] else []))
                   | None \<Rightarrow>
                       (st\<lparr>stat_pos_text := stat_pos_text st + 1, stat_bs_sent := stat_bs_sent st + (if basestation_enabled cfg then 1 else 0)\<rparr>,
                        [Web_Aircraft reg [] lat lon 0 0 ts freq (- 99999) True] @
                        (if basestation_enabled cfg then [Basestation reg [] lat lon (- 99999) ts] else [])))
              | None \<Rightarrow>
                  (case beam_cache_lookup cache ts of
                     Some (lat, lon, sat, beam) \<Rightarrow>
                       (st\<lparr>stat_pos_beam := stat_pos_beam st + 1\<rparr>,
                        [Web_Aircraft reg [] lat lon sat beam ts freq (- 99999) False] @
                        (if basestation_enabled cfg \<and> basestation_beam cfg then [Basestation reg [] lat lon (- 99999) ts] else []))
                   | None \<Rightarrow> (st, []))
         else (st, []))"

definition acars_parse_fallback ::
  "acars_config \<Rightarrow> net_env \<Rightarrow> (string \<Rightarrow> (real \<times> real) option) \<Rightarrow> beam_cache \<Rightarrow> acars_state \<Rightarrow> sbd_packet \<Rightarrow> acars_state \<times> acars_event list" where
  "acars_parse_fallback cfg env wp_lookup cache st pk =
     (let data = pk_data pk; ul = pk_ul pk; ts = pk_timestamp pk; freq = pk_frequency pk; magn = pk_magnitude pk
      in if length data = 0 \<or> data ! 0 \<noteq> 0x01 then (st, [])
         else if length data \<le> 2 then (st, [])
         else
           case split_checksum (drop 1 data) of (csum, data) \<Rightarrow>
           case split_header data of (hdr, data) \<Rightarrow>
           let ce = crc_errors csum data
           in if length data < 13 then (st, [])
              else
                let stripped = strip_parity data;
                    errors = ce + (if parity_ok data then 0 else 1);
                    st = st\<lparr>stat_acars_total := stat_acars_total st + 1, stat_acars_errors := stat_acars_errors st + (if errors > 0 then 1 else 0)\<rparr>;
                    json = (acars_json cfg \<or> udp_fds cfg \<noteq> [])
                in if json \<and> errors > 0 then (st, [])
                   else
                     case (if json then acars_output_json cfg env st stripped ul ts freq magn hdr else (st, [])) of (st, es1) \<Rightarrow>
                     case (if \<not> acars_json cfg then acars_output_text env st stripped ul ts errors else (st, [])) of (st, es2) \<Rightarrow>
                     case fallback_feed cfg env st stripped ul ts freq magn hdr errors of (st, es3) \<Rightarrow>
                     case fallback_position cfg wp_lookup cache st stripped ul ts freq errors of (st, es4) \<Rightarrow>
                       (st, es1 @ es2 @ es3 @ es4))"

definition sbd_process ::
  "acars_config \<Rightarrow> net_env \<Rightarrow> (string \<Rightarrow> (real \<times> real) option) \<Rightarrow> beam_cache \<Rightarrow> acars_state \<Rightarrow> sbd_packet \<Rightarrow> acars_state \<times> acars_event list" where
  "sbd_process cfg env wp_lookup cache st pk =
     (if length (pk_data pk) > 2 \<and> pk_data pk ! 0 = 0x01 then acars_parse_fallback cfg env wp_lookup cache st pk
      else if length (pk_data pk) > 0 then sbd_output_raw cfg env st (pk_data pk) (pk_ul pk) (pk_timestamp pk)
      else (st, []))"

subsection \<open>Parity\<close>

lemma bit_count_card:
  assumes "\<And>j. n \<le> j \<Longrightarrow> \<not> bit b j"
  shows "bit_count b = (\<Sum>i<n. of_bool (bit b i))"
  using assms
proof (induction n arbitrary: b)
  case 0
  then have "b = 0" by (intro bit_word_eqI) simp
  then show ?case by (simp add: bit_count.simps)
next
  case (Suc n)
  show ?case
  proof (cases "b = 0")
    case False
    have "bit_count (drop_bit 1 b) = (\<Sum>i<n. of_bool (bit (drop_bit 1 b) i))"
      by (rule Suc.IH) (simp add: bit_drop_bit_eq Suc.prems)
    moreover have "unat (b AND 1) = of_bool (bit b 0)" by (simp add: and_one_eq bit_0 odd_iff_mod_2_eq_one)
    moreover have "bit_count b = unat (b AND 1) + bit_count (drop_bit 1 b)" using False by (subst bit_count.simps) simp
    ultimately show ?thesis by (simp only: sum.lessThan_Suc_shift bit_drop_bit_eq) simp
  qed (simp add: bit_count.simps)
qed

lemma bit_count_8: "bit_count b = card {i. i < 8 \<and> bit b i}"
proof -
  have "bit_count b = (\<Sum>i<8. of_bool (bit b i))" by (rule bit_count_card) (auto dest: bit_imp_le_length)
  also have "\<dots> = card ({..<8} \<inter> {i. bit b i})" by (simp add: sum_of_bool_eq)
  also have "{..<8} \<inter> {i. bit b i} = {i. i < 8 \<and> bit b i}" by auto
  finally show ?thesis .
qed

lemma bit_count_flip:
  assumes "k < 8"
  shows "odd (bit_count (b XOR 2 ^ k)) \<longleftrightarrow> even (bit_count b)"
proof -
  let ?A = "{i. i < 8 \<and> bit b i}"
  have flip: "{i. i < 8 \<and> bit (b XOR 2 ^ k) i} = (if k \<in> ?A then ?A - {k} else insert k ?A)"
    using assms by (auto simp: bit_xor_iff bit_exp_iff)
  have "finite ?A" by simp
  moreover have "k \<in> ?A \<Longrightarrow> 0 < card ?A" by (rule card_gt_0_iff [THEN iffD2]) auto
  ultimately show ?thesis unfolding bit_count_8 flip by (cases "k \<in> ?A") (auto simp: card_Diff_singleton)
qed

text \<open>The transmitter sets the high bit so that the number of ones is odd.\<close>

definition odd_parity :: "u8 \<Rightarrow> u8" where
  "odd_parity c = (if even (bit_count c) then c XOR 2 ^ 7 else c)"

lemma odd_parity_odd: "odd (bit_count (odd_parity c))"
  using bit_count_flip [of 7 c] by (simp add: odd_parity_def)

lemma odd_parity_strip:
  assumes "c < 0x80"
  shows "odd_parity c AND 0x7F = c"
proof -
  have m: "(0x7F :: u8) = mask 7" by (simp add: mask_eq_exp_minus_1)
  have "c < 2 ^ 7" using assms by simp
  then have low: "bit c j \<Longrightarrow> j < 7" for j using word_less_exp_iff [of 7 c] by (cases "j < 7") auto
  have seven: "bit (128 :: int) j \<longleftrightarrow> j = 7" for j using bit_exp_iff [of 7 j, where 'a = int] by (auto simp: possible_bit_def)
  show ?thesis unfolding m odd_parity_def
    by (intro bit_word_eqI) (auto simp: bit_and_iff bit_mask_iff bit_xor_iff dest: low seven [THEN iffD1])
qed

subsection \<open>Messages on the air\<close>

text \<open>A block of characters as it is sent: start marker, characters with parity, checksum, end marker.\<close>

definition kermit_bytes :: "u8 list \<Rightarrow> u8 list" where
  "kermit_bytes d = (let c = crc16_kermit crc16_init d (length d) in [ucast c, ucast (drop_bit 8 c)])"

definition frame_acars :: "u8 list \<Rightarrow> u8 list" where
  "frame_acars d = 0x01 # d @ kermit_bytes d @ [0x7F]"

lemma kermit_bytes_check: "crc16_kermit crc16_init (d @ kermit_bytes d) (length d + 2) = 0"
proof -
  let ?c = "crc_run kermit_step lo_byte d 0"
  have c: "crc16_kermit crc16_init d (length d) = ?c" using crc16_kermit_run [of "length d" d] by simp
  have "lo_byte (ucast ?c) XOR hi_byte (ucast (drop_bit 8 ?c)) = ?c" using split_bytes [of ?c] by (simp add: xor.commute)
  then have "crc_run kermit_step lo_byte (d @ [ucast ?c, ucast (drop_bit 8 ?c)]) 0 = 0" by (intro kermit.appended_checksum) simp
  then show ?thesis using crc16_kermit_run [of "length d + 2" "d @ kermit_bytes d"] by (simp add: kermit_bytes_def c Let_def)
qed

lemma length_kermit_bytes [simp]: "length (kermit_bytes d) = 2"
  by (simp add: kermit_bytes_def Let_def)

text \<open>What is left of a frame whose block may have been changed on the way.\<close>

lemma split_framed:
  assumes "length cs = 2"
  shows "split_checksum (d @ cs @ [0x7F]) = (Some cs, d)"
proof -
  obtain a b where "cs = [a, b]" using assms by (auto simp: length_Suc_conv numeral_2_eq_2)
  then show ?thesis by (simp add: split_checksum_def nth_append Let_def)
qed

lemma split_no_header: "d \<noteq> [] \<Longrightarrow> hd d \<noteq> 0x03 \<Longrightarrow> split_header d = ([], d)"
  by (cases d) (simp_all add: split_header_def)

lemma crc_errors_values: "crc_errors csum d = 0 \<or> crc_errors csum d = 1"
  by (auto simp: crc_errors_def Let_def split: option.splits)

lemma json_append_nonempty: "buf \<noteq> [] \<Longrightarrow> foldl json_buf_append buf ps \<noteq> []"
  by (induction ps arbitrary: buf) (simp_all add: json_buf_append_def)

lemma json_line_nonempty: "json_line cfg u data ul freq magn hdr \<noteq> []"
proof -
  have "json_buf_append [] (c # s) \<noteq> []" for c s by (simp add: json_buf_append_def JSON_BUF_SIZE_def snprintf_def)
  then have "foldl json_buf_append [] ((c # s) # ps) \<noteq> []" for c s ps by (simp add: json_append_nonempty)
  then show ?thesis unfolding json_line_def Let_def by (simp split: prod.split del: foldl.simps)
qed

text \<open>The checks on a frame with a changed block.\<close>

lemma fallback_framed:
  assumes "pk_data pk = 0x01 # d @ cs @ [0x7F]" and "length cs = 2" and "13 \<le> length d" and "hd d \<noteq> 0x03"
    and "acars_json cfg" and "feeds st = []" and "\<not> web_enabled cfg"
    and "errors = crc_errors (Some cs) d + (if parity_ok d then 0 else 1)"
  shows "acars_parse_fallback cfg env wp cache st pk =
    (if errors > 0 then (st\<lparr>stat_acars_total := stat_acars_total st + 1, stat_acars_errors := stat_acars_errors st + 1\<rparr>, [])
     else acars_output_json cfg env (st\<lparr>stat_acars_total := stat_acars_total st + 1\<rparr>) (strip_parity d) (pk_ul pk) (pk_timestamp pk)
            (pk_frequency pk) (pk_magnitude pk) [])"
proof -
  have ne: "d \<noteq> []" using assms(3) by auto
  note s = split_framed [OF assms(2), of d] split_no_header [OF ne assms(4)]
  have f: "fallback_feed cfg env st' x ul ts freq magn hdr e = (st', [])" if "feeds st' = []" for st' x ul ts freq magn hdr e
    using that by (simp add: fallback_feed_def feed_any_active_def)
  have p: "fallback_position cfg wp cache st' x ul ts freq e = (st', [])" for st' x ul ts freq e
    using assms(7) by (simp add: fallback_position_def Let_def)
  have j: "feeds (fst (acars_output_json cfg env st' x ul ts freq magn hdr)) = feeds st'" for st' x ul ts freq magn hdr
    by (simp add: acars_output_json_def split: prod.split)
  obtain st1 es1 where o: "acars_output_json cfg env (st\<lparr>stat_acars_total := stat_acars_total st + 1\<rparr>) (strip_parity d) (pk_ul pk) (pk_timestamp pk)
      (pk_frequency pk) (pk_magnitude pk) [] = (st1, es1)" by fastforce
  have "feeds st1 = []"
    using j [of "st\<lparr>stat_acars_total := stat_acars_total st + 1\<rparr>" "strip_parity d" "pk_ul pk" "pk_timestamp pk" "pk_frequency pk" "pk_magnitude pk" "[]"]
      o assms(6) by simp
  then show ?thesis using assms(1,3,5) ne s o f p assms(8) by (simp add: acars_parse_fallback_def Let_def)
qed

lemma crc_errors_framed: "length d + 2 \<le> SBD_MAX_DATA \<Longrightarrow> crc_errors (Some (kermit_bytes d)) d = 0"
  using kermit_bytes_check [of d] by (simp add: crc_errors_def Let_def)

lemma strip_odd_parity: "list_all (\<lambda>c. c < 0x80) d \<Longrightarrow> strip_parity (map odd_parity d) = d"
  by (induction d) (simp_all add: strip_parity_def odd_parity_strip)

lemma parity_ok_sent: "parity_ok (map odd_parity d)"
  using odd_parity_odd by (simp add: parity_ok_def list_all_iff odd_iff_mod_2_eq_one)

lemma parity_flip:
  assumes "i < length d" and "k < 8"
  shows "\<not> parity_ok ((map odd_parity d)[i := odd_parity (d ! i) XOR 2 ^ k])"
proof -
  have "even (bit_count (odd_parity (d ! i) XOR 2 ^ k))" using bit_count_flip [OF assms(2)] odd_parity_odd by blast
  moreover have "odd_parity (d ! i) XOR 2 ^ k \<in> set ((map odd_parity d)[i := odd_parity (d ! i) XOR 2 ^ k])"
    using assms(1) by (simp add: set_update_memI)
  ultimately show ?thesis unfolding parity_ok_def list_all_iff by (auto simp: even_iff_mod_2_eq_zero)
qed


definition sample_config :: acars_config where
  "sample_config = \<lparr>acars_json = True, acars_enabled = True, web_enabled = False, basestation_enabled = False, basestation_beam = False,
     station = None, udp_fds = []\<rparr>"

definition sample_state :: acars_state where
  "sample_state = \<lparr>ac_ts = \<lparr>first_ts_ns = 0, ts_once = False, wall_sec = 0, wall_nsec = 0\<rparr>, feeds = [], stat_acars_total = 0,
     stat_acars_errors = 0, stat_pos_text = 0, stat_pos_beam = 0, stat_bs_sent = 0\<rparr>"

definition sample_env :: net_env where
  "sample_env = \<lparr>env_connect = \<lambda>_ _. - 1, env_send = \<lambda>_ s. int (length s), env_clock = (1700000000, 0), env_time = 1700000000\<rparr>"

definition sample_block :: "u8 list" where
  "sample_block = [0x32, 0x2E, 0x4E, 0x37, 0x31, 0x32, 0x54, 0x57, 0x41, 0x48, 0x31, 0x32, 0x02]"


text \<open>What is appended stays: the buffer only grows, and short pieces are copied whole.\<close>

lemma json_append_keeps: "c \<in> set buf \<Longrightarrow> c \<in> set (foldl json_buf_append buf ps)"
  by (induction ps arbitrary: buf) (simp_all add: json_buf_append_def)

lemma json_append_short:
  "length buf + length (concat ps) < JSON_BUF_SIZE - 1 \<Longrightarrow> foldl json_buf_append buf ps = buf @ concat ps"
proof (induction ps arbitrary: buf)
  case (Cons p ps)
  then have "json_buf_append buf p = buf @ p" by (simp add: json_buf_append_def snprintf_def)
  with Cons show ?case by simp
qed simp

text \<open>
  The JSON output copies the acknowledgement character without escaping it. A negative acknowledgement, the
  control character 0x15, thus appears as it is in the line, where no JSON reader accepts it.
\<close>

theorem nak_not_escaped:
  assumes "data ! 8 = 0x15" and "station cfg = None"
  shows "CHR 0x15 \<in> set (json_line cfg 0 data ul 0 0 []) \<and> json_unescape [CHR 0x15] = None"
proof -
  have z: "dec_int (trunc_real 0) = ''0''" "dec_int (trunc_real ((0 - real_of_int (trunc_real 0)) * 1000000)) = ''0''" "fixed 2 0 = ''0.00''"
    by (simp_all add: trunc_real_def dec_int_def dec_nat_def digits.simps digit_chars fixed_def round_even_def pad_left_def replicate_2_3 Let_def)
  have b: "byte_char (data ! 8) = CHR 0x15" unfolding assms(1) by code_simp
  have e: "length (json_escape s 64) < 64" "length (json_escape s 16) < 16" for s
    by (simp_all add: json_escape_def escape_loop_length)
  define ps where "ps = (\<lambda>more_s. [
      ''{\"iridium\":{\"app\":{\"name\":\"iridium-sniffer\",\"ver\":\"1.0\"}'', '',\"t\":{\"sec\":0,\"usec\":0}'', '',\"freq\":0'', '',\"sig_level\":0.00'',
      '',\"acars\":{\"err\":false,\"crc_ok\":true'', '',\"more\":'' @ more_s, '',\"reg\":\"'' @ json_escape (cstr (chars (take 7 (drop 1 data)))) 64 @ ''\"'',
      '',\"mode\":\"'' @ [byte_char (data ! 0)] @ ''\"'', '',\"label\":\"'' @ json_escape (json_label data) 16 @ ''\"'',
      '',\"blk_id\":\"'' @ [byte_char (data ! 11)] @ ''\"'', '',\"ack\":\"'' @ [CHR 0x15] @ ''\"''])"
  obtain rest cb where r: "acars_rest data = (rest, cb)" by fastforce
  have "\<exists>qs. json_line cfg 0 data ul 0 0 [] = foldl json_buf_append [] (ps (if cb then ''true'' else ''false'') @ qs)"
    unfolding json_line_def r ps_def Let_def z b [symmetric] by (simp add: assms(2) z del: foldl_append foldl.simps) blast
  then obtain qs where l: "json_line cfg 0 data ul 0 0 [] = foldl json_buf_append [] (ps (if cb then ''true'' else ''false'') @ qs)" by blast
  have "length (concat (ps (if cb then ''true'' else ''false''))) < 400"
    using e(1) [of "cstr (chars (take 7 (drop 1 data)))"] e(2) [of "json_label data"] by (simp add: ps_def)
  then have "foldl json_buf_append [] (ps (if cb then ''true'' else ''false'')) = concat (ps (if cb then ''true'' else ''false''))"
    using json_append_short [of "[]"] by (simp add: JSON_BUF_SIZE_def)
  then have "CHR 0x15 \<in> set (foldl json_buf_append [] (ps (if cb then ''true'' else ''false'')))" by (simp add: ps_def)
  then show ?thesis unfolding l foldl_append by (simp add: json_append_keeps)
qed

theorem nak_not_escaped_witness:
  "CHR 0x15 \<in> set (json_line sample_config 0 (sample_block[8 := 0x15]) True 0 0 [])"
  using nak_not_escaped [of "sample_block[8 := 0x15]" sample_config True] by (simp add: sample_block_def sample_config_def)

end
