(* ===== verification/FairLock.thy ===== *)
theory FairLock
  imports Prelude "HOL-Library.Monad_Syntax"
begin

text \<open>
  The first-come first-served lock of \<^verbatim>\<open>src/fair_lock.h\<close>. The queue of waiting threads is a linked
  list of condition-variable entries, taken from a pool of released ones; the model keeps the
  entries in an explicit store, and the pointers are addresses in it. Whether an allocation
  succeeds is an argument.

  Every critical section of the lock's mutex is one operation. Waiting on a condition variable
  splits \<^verbatim>\<open>_fair_lock_lock\<close> into the part before the wait and the part after it; the signals that an
  operation sends are part of its result. \<open>lock_step\<close> is the interleaving of these operations by
  any number of threads.

  The lemmas relate the pointer structure to the list of waiting entries, and show mutual exclusion,
  that no waiting thread is forgotten, and that waiting ends in order.
\<close>

subsection \<open>The lock\<close>

record cond_entry =
  ce_weak :: bool
  ce_abandoned :: bool
  ce_next :: "nat option"

record fair_lock =
  fl_heap :: "nat \<Rightarrow> cond_entry"
  fl_brk :: nat
  cond_queue_front :: "nat option"
  cond_queue_rear :: "nat option"
  cond_pool :: "nat option"
  is_lock_acquired :: bool
  waiting_threads :: int
  block_weak_locks :: bool

datatype lock_result = FL_OK | FL_ERROR | FL_ABANDONED

definition set_next :: "nat \<Rightarrow> nat option \<Rightarrow> (nat \<Rightarrow> cond_entry) \<Rightarrow> nat \<Rightarrow> cond_entry" where
  "set_next a p h = h(a := (h a)\<lparr>ce_next := p\<rparr>)"

text \<open>The entry at the head of the pool, allocated when the pool is empty.\<close>

definition pool_entry :: "bool \<Rightarrow> fair_lock \<Rightarrow> (fair_lock \<times> nat) option" where
  "pool_entry alloc lock =
     (case cond_pool lock of
        Some a \<Rightarrow> Some (lock, a)
      | None \<Rightarrow>
          if alloc then Some (lock\<lparr>fl_heap := set_next (fl_brk lock) None (fl_heap lock), fl_brk := fl_brk lock + 1,
                                   cond_pool := Some (fl_brk lock)\<rparr>, fl_brk lock)
          else None)"

definition enqueue_cond_queue_entry :: "bool \<Rightarrow> fair_lock \<Rightarrow> bool \<Rightarrow> (fair_lock \<times> nat) option" where
  "enqueue_cond_queue_entry alloc lock weak =
     (case pool_entry alloc lock of
        None \<Rightarrow> None
      | Some (lock, e) \<Rightarrow>
          let h = (fl_heap lock)(e := (fl_heap lock e)\<lparr>ce_weak := weak, ce_abandoned := False\<rparr>);
              (h, front) = (case cond_queue_front lock of
                              Some f \<Rightarrow> (case cond_queue_rear lock of
                                           Some r \<Rightarrow> (set_next r (Some e) h, Some f)
                                         | None \<Rightarrow> (h, Some f))
                            | None \<Rightarrow> (h, Some e));
              pool = ce_next (h e);
              h = set_next e None h
          in Some (lock\<lparr>fl_heap := h, cond_queue_front := front, cond_queue_rear := Some e, cond_pool := pool\<rparr>, e))"

definition dequeue_cond_queue_entry :: "fair_lock \<Rightarrow> fair_lock \<times> nat option" where
  "dequeue_cond_queue_entry lock =
     (case cond_queue_front lock of
        None \<Rightarrow> (lock, None)
      | Some target \<Rightarrow>
          let lock = (if cond_queue_rear lock = Some target then lock\<lparr>cond_queue_rear := None\<rparr> else lock)
          in (lock\<lparr>cond_queue_front := ce_next (fl_heap lock target)\<rparr>, Some target))"

definition release_cond_queue_entry :: "fair_lock \<Rightarrow> nat \<Rightarrow> fair_lock" where
  "release_cond_queue_entry lock e =
     lock\<lparr>fl_heap := set_next e (cond_pool lock) (fl_heap lock), cond_pool := Some e\<rparr>"

text \<open>The loop over the queue; \<open>sigs\<close> are the entries it signals.\<close>

partial_function (option) abandone_loop ::
  "(nat \<Rightarrow> cond_entry) \<Rightarrow> nat option \<Rightarrow> nat option \<Rightarrow> nat option \<Rightarrow> int \<Rightarrow> nat list \<Rightarrow>
   ((nat \<Rightarrow> cond_entry) \<times> nat option \<times> nat option \<times> int \<times> nat list) option" where
  "abandone_loop h current first_strong last_strong waiting sigs =
     (case current of
        None \<Rightarrow> Some (h, first_strong, last_strong, waiting, sigs)
      | Some c \<Rightarrow>
          if ce_weak (h c) then
            let h = (case last_strong of None \<Rightarrow> h | Some l \<Rightarrow> set_next l (ce_next (h c)) h);
                h = h(c := (h c)\<lparr>ce_abandoned := True\<rparr>)
            in abandone_loop h (ce_next (h c)) first_strong last_strong (waiting - 1) (sigs @ [c])
          else abandone_loop h (ce_next (h c)) (case first_strong of None \<Rightarrow> Some c | Some f \<Rightarrow> Some f) (Some c)
                 waiting sigs)"

definition abandone_weak_locks :: "fair_lock \<Rightarrow> (fair_lock \<times> nat list) option" where
  "abandone_weak_locks lock =
     (case abandone_loop (fl_heap lock) (cond_queue_front lock) None None (waiting_threads lock) [] of
        None \<Rightarrow> None
      | Some (h, first_strong, last_strong, waiting, sigs) \<Rightarrow>
          Some (lock\<lparr>fl_heap := h, waiting_threads := waiting, cond_queue_front := first_strong,
                     cond_queue_rear := last_strong\<rparr>, sigs))"

definition initial_lock :: "(nat \<Rightarrow> cond_entry) \<Rightarrow> fair_lock" where
  "initial_lock h =
     \<lparr>fl_heap = h, fl_brk = 0, cond_queue_front = None, cond_queue_rear = None, cond_pool = None,
      is_lock_acquired = False, waiting_threads = 0, block_weak_locks = False\<rparr>"

text \<open>Initialising the mutex may fail; then the lock is left alone.\<close>

definition fair_lock_init :: "bool \<Rightarrow> (nat \<Rightarrow> cond_entry) \<Rightarrow> lock_result + fair_lock" where
  "fair_lock_init mutex_ok h = (if \<not> mutex_ok then Inl FL_ERROR else Inr (initial_lock h))"

text \<open>The entries of the pool are freed one after the other; \<open>freed\<close> collects them.\<close>

partial_function (option) destroy_loop :: "(nat \<Rightarrow> cond_entry) \<Rightarrow> nat option \<Rightarrow> nat list \<Rightarrow> nat list option" where
  "destroy_loop h e freed =
     (case e of None \<Rightarrow> Some freed | Some a \<Rightarrow> destroy_loop h (ce_next (h a)) (freed @ [a]))"

definition fair_lock_destroy :: "fair_lock \<Rightarrow> nat list option" where
  "fair_lock_destroy lock = destroy_loop (fl_heap lock) (cond_pool lock) []"

text \<open>\<^verbatim>\<open>_fair_lock_lock\<close> up to the wait: it returns, or it waits on an entry.\<close>

datatype enter_result = Return lock_result | Wait nat

definition fair_lock_enter :: "bool \<Rightarrow> fair_lock \<Rightarrow> bool \<Rightarrow> fair_lock \<times> enter_result" where
  "fair_lock_enter alloc lock weak =
     (if weak \<and> block_weak_locks lock then (lock, Return FL_ABANDONED)
      else if is_lock_acquired lock \<or> waiting_threads lock > 0 then
        case enqueue_cond_queue_entry alloc (lock\<lparr>waiting_threads := waiting_threads lock + 1\<rparr>) weak of
          None \<Rightarrow> (lock, Return FL_ERROR)
        | Some (lock, e) \<Rightarrow> (lock, Wait e)
      else (lock\<lparr>is_lock_acquired := True\<rparr>, Return FL_OK))"

text \<open>The rest of \<^verbatim>\<open>_fair_lock_lock\<close>, after the wait.\<close>

definition fair_lock_resume :: "fair_lock \<Rightarrow> nat \<Rightarrow> fair_lock \<times> lock_result" where
  "fair_lock_resume lock e =
     (let lock = release_cond_queue_entry lock e
      in if ce_abandoned (fl_heap lock e) then (lock, FL_ABANDONED)
         else (lock\<lparr>waiting_threads := waiting_threads lock - 1, is_lock_acquired := True\<rparr>, FL_OK))"

definition fair_lock_unlock :: "fair_lock \<Rightarrow> fair_lock \<times> nat option" where
  "fair_lock_unlock lock =
     (case dequeue_cond_queue_entry lock of (lock, e) \<Rightarrow> (lock\<lparr>is_lock_acquired := False\<rparr>, e))"

definition fair_lock_block_weak_locks :: "fair_lock \<Rightarrow> (fair_lock \<times> nat list) option" where
  "fair_lock_block_weak_locks lock = abandone_weak_locks (lock\<lparr>block_weak_locks := True\<rparr>)"

definition fair_lock_allow_weak_locks :: "fair_lock \<Rightarrow> fair_lock" where
  "fair_lock_allow_weak_locks lock = lock\<lparr>block_weak_locks := False\<rparr>"

subsection \<open>Linked lists\<close>

fun seg :: "(nat \<Rightarrow> cond_entry) \<Rightarrow> nat option \<Rightarrow> nat list \<Rightarrow> nat option \<Rightarrow> bool" where
  "seg h p [] q \<longleftrightarrow> p = q"
| "seg h p (a # as) q \<longleftrightarrow> p = Some a \<and> seg h (ce_next (h a)) as q"

lemma seg_append: "seg h p (xs @ ys) q \<longleftrightarrow> (\<exists>r. seg h p xs r \<and> seg h r ys q)"
  by (induction xs arbitrary: p) auto

lemma seg_snoc: "seg h p (xs @ [a]) q \<longleftrightarrow> seg h p xs (Some a) \<and> ce_next (h a) = q"
  by (auto simp: seg_append)

lemma seg_cong: "(\<And>a. a \<in> set xs \<Longrightarrow> ce_next (h a) = ce_next (h' a)) \<Longrightarrow> seg h p xs q = seg h' p xs q"
  by (induction xs arbitrary: p) auto

lemma set_next_simps [simp]:
  "ce_weak (set_next a p h b) = ce_weak (h b)" "ce_abandoned (set_next a p h b) = ce_abandoned (h b)"
  "ce_next (set_next a p h b) = (if b = a then p else ce_next (h b))"
  by (simp_all add: set_next_def)

lemma seg_set_next: "a \<notin> set xs \<Longrightarrow> seg (set_next a r h) p xs q = seg h p xs q"
  by (rule seg_cong) auto

definition last_opt :: "'a list \<Rightarrow> 'a option" where
  "last_opt xs = (if xs = [] then None else Some (last xs))"

lemma last_opt_snoc [simp]: "last_opt (xs @ [x]) = Some x" and last_opt_Nil [simp]: "last_opt [] = None"
  by (simp_all add: last_opt_def)

definition hd_opt :: "'a list \<Rightarrow> 'a option" where
  "hd_opt xs = (case xs of [] \<Rightarrow> None | x # _ \<Rightarrow> Some x)"

lemma hd_opt_simps [simp]: "hd_opt [] = None" "hd_opt (x # xs) = Some x"
  by (simp_all add: hd_opt_def)

text \<open>\<open>lock_repr lock xs ps\<close>: the queue holds the entries \<open>xs\<close>, the pool the entries \<open>ps\<close>.\<close>

definition lock_repr :: "fair_lock \<Rightarrow> nat list \<Rightarrow> nat list \<Rightarrow> bool" where
  "lock_repr lock xs ps \<longleftrightarrow> seg (fl_heap lock) (cond_queue_front lock) xs None \<and> cond_queue_rear lock = last_opt xs \<and>
     seg (fl_heap lock) (cond_pool lock) ps None \<and> distinct (xs @ ps) \<and> (\<forall>a\<in>set (xs @ ps). a < fl_brk lock)"

lemma seg_hd: "seg h p xs None \<Longrightarrow> p = hd_opt xs"
  by (cases xs) auto

lemma pool_entry_repr:
  assumes "lock_repr lock xs ps" and "pool_entry alloc lock = Some (lock', e)"
  obtains ps' where "lock_repr lock' xs (e # ps')" "set ps' \<subseteq> set ps" "e \<in> set ps \<or> e = fl_brk lock"
    "fl_brk lock \<le> fl_brk lock'"
    "\<And>a. a < fl_brk lock \<Longrightarrow> fl_heap lock' a = fl_heap lock a" "is_lock_acquired lock' = is_lock_acquired lock"
    "waiting_threads lock' = waiting_threads lock" "block_weak_locks lock' = block_weak_locks lock"
proof (cases "cond_pool lock")
  case None
  then have ps: "ps = []" using assms(1) by (cases ps) (auto simp: lock_repr_def)
  have l: "lock' = lock\<lparr>fl_heap := set_next (fl_brk lock) None (fl_heap lock), fl_brk := fl_brk lock + 1,
      cond_pool := Some (fl_brk lock)\<rparr>" "e = fl_brk lock"
    using assms(2) None by (auto simp: pool_entry_def split: if_splits)
  have "fl_brk lock \<notin> set xs" using assms(1) by (auto simp: lock_repr_def)
  then have "lock_repr lock' xs [e]"
    using assms(1) ps by (auto simp: lock_repr_def l seg_set_next)
  then show thesis by (rule that) (auto simp: l set_next_def)
next
  case (Some a)
  then obtain ps' where ps: "ps = a # ps'" using assms(1) by (cases ps) (auto simp: lock_repr_def)
  have "lock' = lock" "e = a" using assms(2) Some by (simp_all add: pool_entry_def)
  then show thesis using that [of ps'] assms(1) by (auto simp: ps)
qed

lemma enqueue_repr:
  assumes "lock_repr lock xs ps" and "enqueue_cond_queue_entry alloc lock weak = Some (lock', e)"
  obtains ps' where "lock_repr lock' (xs @ [e]) ps'" "set ps' \<subseteq> set ps" "e \<in> set ps \<or> e = fl_brk lock"
    "fl_brk lock \<le> fl_brk lock'" "ce_weak (fl_heap lock' e) = weak" "\<not> ce_abandoned (fl_heap lock' e)"
    "\<forall>a. a < fl_brk lock \<and> a \<noteq> e \<longrightarrow> ce_weak (fl_heap lock' a) = ce_weak (fl_heap lock a) \<and>
       ce_abandoned (fl_heap lock' a) = ce_abandoned (fl_heap lock a)"
    "is_lock_acquired lock' = is_lock_acquired lock" "waiting_threads lock' = waiting_threads lock"
    "block_weak_locks lock' = block_weak_locks lock"
proof -
  obtain lock1 where p: "pool_entry alloc lock = Some (lock1, e)"
    using assms(2) by (auto simp: enqueue_cond_queue_entry_def Let_def split: option.splits prod.splits)
  obtain ps' where r: "lock_repr lock1 xs (e # ps')" "set ps' \<subseteq> set ps" "e \<in> set ps \<or> e = fl_brk lock"
    "fl_brk lock \<le> fl_brk lock1"
    and same: "\<And>a. a < fl_brk lock \<Longrightarrow> fl_heap lock1 a = fl_heap lock a" "is_lock_acquired lock1 = is_lock_acquired lock"
    "waiting_threads lock1 = waiting_threads lock" "block_weak_locks lock1 = block_weak_locks lock"
    using pool_entry_repr [OF assms(1) p] by metis
  define h where "h = (fl_heap lock1)(e := (fl_heap lock1 e)\<lparr>ce_weak := weak, ce_abandoned := False\<rparr>)"
  have hn: "ce_next (h a) = ce_next (fl_heap lock1 a)" for a by (simp add: h_def)
  have e: "e \<notin> set xs" "e \<notin> set ps'" "e < fl_brk lock1" using r(1) by (auto simp: lock_repr_def)
  have front: "cond_queue_front lock1 = hd_opt xs" "cond_queue_rear lock1 = last_opt xs"
    and segs: "seg h (hd_opt xs) xs None" "seg h (ce_next (h e)) ps' None" and dist: "distinct (xs @ [e] @ ps')"
    and bnd: "\<forall>a\<in>set (xs @ [e] @ ps'). a < fl_brk lock1"
    using r(1) seg_hd [of "fl_heap lock1" "cond_queue_front lock1" xs] seg_cong [of xs h "fl_heap lock1"]
      seg_cong [of ps' h "fl_heap lock1"] hn
    by (auto simp: lock_repr_def)
  let ?h2 = "case xs of [] \<Rightarrow> h | _ \<Rightarrow> set_next (last xs) (Some e) h"
  have l: "lock' = lock1\<lparr>fl_heap := set_next e None ?h2, cond_queue_front := Some (case xs of [] \<Rightarrow> e | x # _ \<Rightarrow> x),
      cond_queue_rear := Some e, cond_pool := ce_next (h e)\<rparr>"
    using assms(2) p front e(1)
    by (cases xs) (auto simp: enqueue_cond_queue_entry_def Let_def h_def [symmetric] hn last_opt_def split: if_splits)
  have "lock_repr lock' (xs @ [e]) ps'"
  proof (cases xs rule: rev_cases)
    case Nil
    then show ?thesis using segs(2) dist bnd e by (auto simp: l lock_repr_def seg_set_next last_opt_def)
  next
    case (snoc ys y)
    have y: "y \<notin> set ys" "y \<noteq> e" "e \<notin> set ys" "y \<notin> set ps'" using dist e by (auto simp: snoc)
    have "seg h (hd_opt xs) ys (Some y)" using segs(1) by (auto simp: snoc seg_append)
    then show ?thesis using segs(2) dist bnd y e(2)
      by (cases ys) (auto simp: l lock_repr_def snoc seg_append seg_set_next last_opt_def)
  qed
  then show thesis using r e same
    by (intro that) (auto simp: l h_def split: list.split)
qed

lemma dequeue_repr:
  assumes "lock_repr lock xs ps" and "dequeue_cond_queue_entry lock = (lock', e)"
  shows "lock_repr lock' (tl xs) ps" "e = hd_opt xs" "fl_heap lock' = fl_heap lock" "fl_brk lock' = fl_brk lock"
    "is_lock_acquired lock' = is_lock_acquired lock" "waiting_threads lock' = waiting_threads lock"
    "block_weak_locks lock' = block_weak_locks lock"
proof -
  have f: "cond_queue_front lock = hd_opt xs" using assms(1) seg_hd by (auto simp: lock_repr_def)
  show "e = hd_opt xs" "fl_heap lock' = fl_heap lock" "fl_brk lock' = fl_brk lock"
    "is_lock_acquired lock' = is_lock_acquired lock" "waiting_threads lock' = waiting_threads lock"
    "block_weak_locks lock' = block_weak_locks lock"
    using assms(2) f by (cases xs; auto simp: dequeue_cond_queue_entry_def Let_def split: if_splits)+
  show "lock_repr lock' (tl xs) ps"
  proof (cases xs)
    case Nil
    then show ?thesis using assms f by (simp add: dequeue_cond_queue_entry_def)
  next
    case (Cons x ys)
    have "last_opt xs = Some x \<longleftrightarrow> ys = []" using assms(1) by (auto simp: Cons last_opt_def lock_repr_def)
    then show ?thesis using assms f by (auto simp: dequeue_cond_queue_entry_def lock_repr_def Cons last_opt_def)
  qed
qed

lemma release_repr:
  assumes "lock_repr lock xs ps" and "e \<notin> set xs" and "e \<notin> set ps" and "e < fl_brk lock"
  shows "lock_repr (release_cond_queue_entry lock e) xs (e # ps)"
  using assms by (auto simp: lock_repr_def release_cond_queue_entry_def seg_set_next)

lemma destroy_loop_seg: "seg h e ps None \<Longrightarrow> destroy_loop h e freed = Some (freed @ ps)"
proof (induction ps arbitrary: e freed)
  case Nil
  then show ?case by (subst destroy_loop.simps) simp
next
  case (Cons p ps)
  then show ?case by (subst destroy_loop.simps) simp
qed

subsection \<open>Abandoning the weak requests\<close>

definition abandon :: "nat list \<Rightarrow> (nat \<Rightarrow> cond_entry) \<Rightarrow> nat \<Rightarrow> bool" where
  "abandon xs h a \<longleftrightarrow> ce_abandoned (h a) \<or> (a \<in> set xs \<and> ce_weak (h a))"

lemma abandone_loop_spec:
  assumes "ys \<noteq> [] \<Longrightarrow> seg h (hd_opt ys) ys cur"
    and "seg h cur xs None" and "distinct (ys @ xs)" and "\<forall>a\<in>set ys. \<not> ce_weak (h a)"
  shows "\<exists>h'. abandone_loop h cur (hd_opt ys) (last_opt ys) w sigs =
      Some (h', hd_opt (ys @ filter (\<lambda>a. \<not> ce_weak (h a)) xs), last_opt (ys @ filter (\<lambda>a. \<not> ce_weak (h a)) xs),
            w - int (length (filter (\<lambda>a. ce_weak (h a)) xs)), sigs @ filter (\<lambda>a. ce_weak (h a)) xs) \<and>
    seg h' (hd_opt (ys @ filter (\<lambda>a. \<not> ce_weak (h a)) xs)) (ys @ filter (\<lambda>a. \<not> ce_weak (h a)) xs) None \<and>
    (\<forall>a. ce_weak (h' a) = ce_weak (h a) \<and> ce_abandoned (h' a) = abandon xs h a) \<and>
    (\<forall>a. a \<notin> set (ys @ xs) \<longrightarrow> ce_next (h' a) = ce_next (h a))"
  using assms
proof (induction xs arbitrary: h cur ys w sigs)
  case Nil
  then have "cur = None" by simp
  then show ?case using Nil.prems(1)
    by (subst abandone_loop.simps) (cases "ys = []"; auto simp: abandon_def)
next
  case (Cons x xs)
  have cur: "cur = Some x" and rest: "seg h (ce_next (h x)) xs None" using Cons.prems(2) by auto
  show ?case
  proof (cases "ce_weak (h x)")
    case False
    have "seg h (hd_opt (ys @ [x])) (ys @ [x]) (ce_next (h x))"
      using Cons.prems(1) cur by (cases ys) (auto simp: seg_append)
    moreover have ab: "abandon (x # xs) h a = abandon xs h a" for a using False by (auto simp: abandon_def)
    moreover have "(case hd_opt ys of None \<Rightarrow> Some x | Some f \<Rightarrow> Some f) = hd_opt (ys @ [x])" by (cases ys) auto
    ultimately show ?thesis
      using Cons.IH [of "ys @ [x]" h "ce_next (h x)" w sigs] rest Cons.prems(3,4) False
      by (subst abandone_loop.simps) (simp add: cur ab)
  next
    case True
    define h1 where "h1 = (case last_opt ys of None \<Rightarrow> h | Some l \<Rightarrow> set_next l (ce_next (h x)) h)"
    define h2 where "h2 = h1(x := (h1 x)\<lparr>ce_abandoned := True\<rparr>)"
    have wk: "ce_weak (h2 a) = ce_weak (h a)" and ab: "ce_abandoned (h2 a) = (ce_abandoned (h a) \<or> a = x)" for a
      by (auto simp: h2_def h1_def split: option.split)
    have nx: "a \<notin> set ys \<Longrightarrow> ce_next (h2 a) = ce_next (h a)" for a
      by (auto simp: h2_def h1_def last_opt_def split: option.split)
    have nx1: "a \<notin> set ys \<Longrightarrow> ce_next (h1 a) = ce_next (h a)" for a
      by (auto simp: h1_def last_opt_def split: option.split)
    have xy: "x \<notin> set ys" "x \<notin> set xs" "distinct (ys @ xs)" using Cons.prems(3) by auto
    have s1: "seg h2 (hd_opt ys) ys (ce_next (h x))" if "ys \<noteq> []"
    proof (cases ys rule: rev_cases)
      case (snoc zs z)
      have z: "z \<notin> set zs" "z \<noteq> x" "x \<notin> set zs" using Cons.prems(3) by (auto simp: snoc)
      have eq: "h2 = (set_next z (ce_next (h x)) h)(x := (set_next z (ce_next (h x)) h x)\<lparr>ce_abandoned := True\<rparr>)"
        by (simp add: h2_def h1_def snoc)
      have "seg h (hd_opt ys) zs (Some z)" using Cons.prems(1) that by (auto simp: snoc seg_append)
      then have "seg h2 (hd_opt ys) zs (Some z)" using z by (subst seg_cong [of zs h2 h]) (auto simp: eq)
      moreover have "ce_next (h2 z) = ce_next (h x)" using z by (simp add: eq)
      ultimately show ?thesis by (simp add: snoc seg_append)
    qed (use that in simp)
    have s2: "seg h2 (ce_next (h x)) xs None"
      using rest xy by (subst seg_cong [of xs h2 h]) (auto intro!: nx)
    have "\<forall>a\<in>set ys. \<not> ce_weak (h2 a)" using Cons.prems(4) by (simp add: wk)
    note IH = Cons.IH [OF s1 s2 xy(3) this, of "w - 1" "sigs @ [x]"]
    have step: "abandone_loop h cur (hd_opt ys) (last_opt ys) w sigs =
        abandone_loop h2 (ce_next (h x)) (hd_opt ys) (last_opt ys) (w - 1) (sigs @ [x])"
      using True nx1 [OF xy(1)]
      by (subst abandone_loop.simps) (simp add: cur Let_def h1_def [symmetric] h2_def [symmetric])
    show ?thesis using IH unfolding step
      by (auto simp: wk abandon_def ab True nx)
  qed
qed

lemma abandone_weak_locks_spec:
  assumes "lock_repr lock xs ps"
  obtains lock' where "abandone_weak_locks lock = Some (lock', filter (\<lambda>a. ce_weak (fl_heap lock a)) xs)"
    "lock_repr lock' (filter (\<lambda>a. \<not> ce_weak (fl_heap lock a)) xs) ps"
    "waiting_threads lock' = waiting_threads lock - int (length (filter (\<lambda>a. ce_weak (fl_heap lock a)) xs))"
    "\<forall>a. ce_weak (fl_heap lock' a) = ce_weak (fl_heap lock a) \<and>
       ce_abandoned (fl_heap lock' a) = abandon xs (fl_heap lock) a"
    "is_lock_acquired lock' = is_lock_acquired lock" "block_weak_locks lock' = block_weak_locks lock"
    "fl_brk lock' = fl_brk lock"
proof -
  let ?h = "fl_heap lock" and ?s = "filter (\<lambda>a. \<not> ce_weak (fl_heap lock a)) xs"
  have r: "seg ?h (cond_queue_front lock) xs None" "distinct (xs @ ps)" "seg ?h (cond_pool lock) ps None"
    "\<forall>a\<in>set (xs @ ps). a < fl_brk lock" using assms by (simp_all add: lock_repr_def)
  obtain h' where h: "abandone_loop ?h (cond_queue_front lock) None None (waiting_threads lock) [] =
      Some (h', hd_opt ?s, last_opt ?s, waiting_threads lock - int (length (filter (\<lambda>a. ce_weak (?h a)) xs)),
            filter (\<lambda>a. ce_weak (?h a)) xs)" "seg h' (hd_opt ?s) ?s None"
      "\<And>a. ce_weak (h' a) = ce_weak (?h a)" "\<And>a. ce_abandoned (h' a) = abandon xs ?h a"
      "\<And>a. a \<notin> set xs \<Longrightarrow> ce_next (h' a) = ce_next (?h a)"
    using abandone_loop_spec [of "[]" ?h "cond_queue_front lock" xs "waiting_threads lock" "[]"] r by auto
  have "seg h' (cond_pool lock) ps None"
    using r(2,3) by (subst seg_cong [of ps h' ?h]) (auto intro!: h(5))
  moreover define lock' where "lock' = lock\<lparr>fl_heap := h', waiting_threads := waiting_threads lock -
      int (length (filter (\<lambda>a. ce_weak (?h a)) xs)), cond_queue_front := hd_opt ?s, cond_queue_rear := last_opt ?s\<rparr>"
  ultimately have "lock_repr lock' ?s ps" using h(2) r(2,4) by (auto simp: lock_repr_def)
  moreover have "abandone_weak_locks lock = Some (lock', filter (\<lambda>a. ce_weak (?h a)) xs)"
    using h(1) by (simp add: abandone_weak_locks_def lock'_def)
  ultimately show thesis using h(3,4) by (intro that [of lock']) (simp_all add: lock'_def)
qed

subsection \<open>Interleavings\<close>

datatype thread_state = Out | Waiting nat | Holding

record lock_sys =
  sys_lock :: fair_lock
  sys_pc :: "nat \<Rightarrow> thread_state"
  sys_signalled :: "nat set"

text \<open>
  A step of some thread. POSIX allows a wait on a condition variable to return without a signal;
  the argument \<open>spurious\<close> says whether this happens.
\<close>

inductive lock_step :: "bool \<Rightarrow> lock_sys \<Rightarrow> lock_sys \<Rightarrow> bool" for spurious where
  acquire: "sys_pc s t = Out \<Longrightarrow> fair_lock_enter alloc (sys_lock s) weak = (lock', Return FL_OK) \<Longrightarrow>
    lock_step spurious s (s\<lparr>sys_lock := lock', sys_pc := (sys_pc s)(t := Holding)\<rparr>)"
| reject: "sys_pc s t = Out \<Longrightarrow> fair_lock_enter alloc (sys_lock s) weak = (lock', Return r) \<Longrightarrow> r \<noteq> FL_OK \<Longrightarrow>
    lock_step spurious s (s\<lparr>sys_lock := lock'\<rparr>)"
| wait: "sys_pc s t = Out \<Longrightarrow> fair_lock_enter alloc (sys_lock s) weak = (lock', Wait e) \<Longrightarrow>
    lock_step spurious s (s\<lparr>sys_lock := lock', sys_pc := (sys_pc s)(t := Waiting e), sys_signalled := sys_signalled s - {e}\<rparr>)"
| resume: "sys_pc s t = Waiting e \<Longrightarrow> e \<in> sys_signalled s \<or> spurious \<Longrightarrow> fair_lock_resume (sys_lock s) e = (lock', r) \<Longrightarrow>
    lock_step spurious s (s\<lparr>sys_lock := lock', sys_pc := (sys_pc s)(t := if r = FL_OK then Holding else Out),
      sys_signalled := sys_signalled s - {e}\<rparr>)"
| unlock: "sys_pc s t = Holding \<Longrightarrow> fair_lock_unlock (sys_lock s) = (lock', e) \<Longrightarrow>
    lock_step spurious s (s\<lparr>sys_lock := lock', sys_pc := (sys_pc s)(t := Out),
      sys_signalled := sys_signalled s \<union> set_option e\<rparr>)"
| block_weak: "fair_lock_block_weak_locks (sys_lock s) = Some (lock', sigs) \<Longrightarrow>
    lock_step spurious s (s\<lparr>sys_lock := lock', sys_signalled := sys_signalled s \<union> set sigs\<rparr>)"
| allow_weak: "lock_step spurious s (s\<lparr>sys_lock := fair_lock_allow_weak_locks (sys_lock s)\<rparr>)"

definition lock_start :: "(nat \<Rightarrow> cond_entry) \<Rightarrow> lock_sys" where
  "lock_start h = \<lparr>sys_lock = initial_lock h, sys_pc = (\<lambda>_. Out), sys_signalled = {}\<rparr>"

definition lock_reachable :: "bool \<Rightarrow> lock_sys \<Rightarrow> bool" where
  "lock_reachable spurious s \<longleftrightarrow> (\<exists>h. (lock_step spurious)\<^sup>*\<^sup>* (lock_start h) s)"

subsection \<open>Invariant\<close>

text \<open>
  \<open>xs\<close> are the entries in the queue and \<open>ps\<close> those in the pool; \<open>g\<close> is the entry whose thread has
  been given the lock but has not run yet.
\<close>

definition lock_inv :: "nat list \<Rightarrow> nat list \<Rightarrow> nat option \<Rightarrow> lock_sys \<Rightarrow> bool" where
  "lock_inv xs ps g s \<longleftrightarrow> lock_repr (sys_lock s) xs ps \<and>
     (\<forall>t t' a. sys_pc s t = Waiting a \<and> sys_pc s t' = Waiting a \<longrightarrow> t = t') \<and>
     (\<forall>a\<in>set xs. (\<exists>t. sys_pc s t = Waiting a) \<and> a \<notin> sys_signalled s \<and> \<not> ce_abandoned (fl_heap (sys_lock s) a)) \<and>
     (\<forall>t a. sys_pc s t = Waiting a \<longrightarrow> a \<notin> set ps \<and> a < fl_brk (sys_lock s) \<and> (a \<in> set xs \<or> a \<in> sys_signalled s)) \<and>
     (\<forall>a\<in>sys_signalled s. \<exists>t. sys_pc s t = Waiting a) \<and>
     {a \<in> sys_signalled s. \<not> ce_abandoned (fl_heap (sys_lock s) a)} = set_option g \<and>
     waiting_threads (sys_lock s) = int (length xs) + of_bool (g \<noteq> None) \<and>
     (g \<noteq> None \<longrightarrow> \<not> is_lock_acquired (sys_lock s)) \<and>
     (is_lock_acquired (sys_lock s) \<longleftrightarrow> (\<exists>t. sys_pc s t = Holding)) \<and>
     (\<forall>t t'. sys_pc s t = Holding \<and> sys_pc s t' = Holding \<longrightarrow> t = t') \<and>
     (xs \<noteq> [] \<longrightarrow> is_lock_acquired (sys_lock s) \<or> g \<noteq> None)"

lemma lock_invD:
  assumes "lock_inv xs ps g s"
  shows "lock_repr (sys_lock s) xs ps"
    "\<And>t t' a. sys_pc s t = Waiting a \<Longrightarrow> sys_pc s t' = Waiting a \<Longrightarrow> t = t'"
    "\<And>a. a \<in> set xs \<Longrightarrow> \<exists>t. sys_pc s t = Waiting a"
    "\<And>a. a \<in> set xs \<Longrightarrow> a \<notin> sys_signalled s \<and> \<not> ce_abandoned (fl_heap (sys_lock s) a)"
    "\<And>t a. sys_pc s t = Waiting a \<Longrightarrow> a \<notin> set ps \<and> a < fl_brk (sys_lock s)"
    "\<And>t a. sys_pc s t = Waiting a \<Longrightarrow> a \<in> set xs \<or> a \<in> sys_signalled s"
    "\<And>a. a \<in> sys_signalled s \<Longrightarrow> \<exists>t. sys_pc s t = Waiting a"
    "{a \<in> sys_signalled s. \<not> ce_abandoned (fl_heap (sys_lock s) a)} = set_option g"
    "waiting_threads (sys_lock s) = int (length xs) + of_bool (g \<noteq> None)"
    "g \<noteq> None \<Longrightarrow> \<not> is_lock_acquired (sys_lock s)"
    "is_lock_acquired (sys_lock s) \<longleftrightarrow> (\<exists>t. sys_pc s t = Holding)"
    "\<And>t t'. sys_pc s t = Holding \<Longrightarrow> sys_pc s t' = Holding \<Longrightarrow> t = t'"
    "xs \<noteq> [] \<Longrightarrow> is_lock_acquired (sys_lock s) \<or> g \<noteq> None"
  using assms unfolding lock_inv_def by blast+

lemma lock_invI:
  assumes "lock_repr (sys_lock s) xs ps"
    "\<And>t t' a. sys_pc s t = Waiting a \<Longrightarrow> sys_pc s t' = Waiting a \<Longrightarrow> t = t'"
    "\<And>a. a \<in> set xs \<Longrightarrow> \<exists>t. sys_pc s t = Waiting a"
    "\<And>a. a \<in> set xs \<Longrightarrow> a \<notin> sys_signalled s \<and> \<not> ce_abandoned (fl_heap (sys_lock s) a)"
    "\<And>t a. sys_pc s t = Waiting a \<Longrightarrow> a \<notin> set ps \<and> a < fl_brk (sys_lock s)"
    "\<And>t a. sys_pc s t = Waiting a \<Longrightarrow> a \<in> set xs \<or> a \<in> sys_signalled s"
    "\<And>a. a \<in> sys_signalled s \<Longrightarrow> \<exists>t. sys_pc s t = Waiting a"
    "{a \<in> sys_signalled s. \<not> ce_abandoned (fl_heap (sys_lock s) a)} = set_option g"
    "waiting_threads (sys_lock s) = int (length xs) + of_bool (g \<noteq> None)"
    "g \<noteq> None \<Longrightarrow> \<not> is_lock_acquired (sys_lock s)"
    "is_lock_acquired (sys_lock s) \<longleftrightarrow> (\<exists>t. sys_pc s t = Holding)"
    "\<And>t t'. sys_pc s t = Holding \<Longrightarrow> sys_pc s t' = Holding \<Longrightarrow> t = t'"
    "xs \<noteq> [] \<Longrightarrow> is_lock_acquired (sys_lock s) \<or> g \<noteq> None"
  shows "lock_inv xs ps g s"
  using assms unfolding lock_inv_def by blast

lemma ex_upd: "\<exists>t'. f t' = b \<Longrightarrow> f t \<noteq> b \<Longrightarrow> \<exists>t'. t' \<noteq> t \<and> (t' \<noteq> t \<longrightarrow> f t' = b)"
  by metis

lemma lock_inv_start: "lock_inv [] [] None (lock_start h)"
  by (simp add: lock_inv_def lock_start_def initial_lock_def lock_repr_def)

lemma lock_inv_acquire:
  assumes "lock_inv xs ps g s" and "sys_pc s t = Out"
    and "fair_lock_enter alloc (sys_lock s) weak = (lock', Return FL_OK)"
  shows "lock_inv [] ps None (s\<lparr>sys_lock := lock', sys_pc := (sys_pc s)(t := Holding)\<rparr>)"
proof -
  have a: "\<not> is_lock_acquired (sys_lock s)" "\<not> waiting_threads (sys_lock s) > 0" "lock' = sys_lock s\<lparr>is_lock_acquired := True\<rparr>"
    using assms(3) by (auto simp: fair_lock_enter_def split: if_splits option.splits)
  then have "xs = []" "g = None" using assms(1) by (auto simp: lock_inv_def split: if_splits)
  note d = lock_invD [OF assms(1), unfolded \<open>xs = []\<close> \<open>g = None\<close>]
  show ?thesis
    by (rule lock_invI) (use d a assms(2) in \<open>auto simp: lock_repr_def intro: ex_upd split: if_splits\<close>)
qed

lemma fair_lock_enter_reject:
  "fair_lock_enter alloc lock weak = (lock', Return r) \<Longrightarrow> r \<noteq> FL_OK \<Longrightarrow> lock' = lock"
  by (auto simp: fair_lock_enter_def split: if_splits option.splits)

lemma lock_inv_wait:
  assumes "lock_inv xs ps g s" and "sys_pc s t = Out"
    and "fair_lock_enter alloc (sys_lock s) weak = (lock', Wait e)"
  obtains ps' where "lock_inv (xs @ [e]) ps' g
    (s\<lparr>sys_lock := lock', sys_pc := (sys_pc s)(t := Waiting e), sys_signalled := sys_signalled s - {e}\<rparr>)"
proof -
  let ?l = "sys_lock s" and ?l1 = "sys_lock s\<lparr>waiting_threads := waiting_threads (sys_lock s) + 1\<rparr>"
  have a: "is_lock_acquired ?l \<or> waiting_threads ?l > 0" "enqueue_cond_queue_entry alloc ?l1 weak = Some (lock', e)"
    using assms(3) by (auto simp: fair_lock_enter_def split: if_splits option.splits)
  have r: "lock_repr ?l1 xs ps" using assms(1) by (simp add: lock_inv_def lock_repr_def)
  obtain ps' where p0: "lock_repr lock' (xs @ [e]) ps'" "set ps' \<subseteq> set ps" "e \<in> set ps \<or> e = fl_brk ?l1"
      "fl_brk ?l1 \<le> fl_brk lock'" "ce_weak (fl_heap lock' e) = weak" "\<not> ce_abandoned (fl_heap lock' e)"
      "\<forall>a. a < fl_brk ?l1 \<and> a \<noteq> e \<longrightarrow> ce_weak (fl_heap lock' a) = ce_weak (fl_heap ?l1 a) \<and>
         ce_abandoned (fl_heap lock' a) = ce_abandoned (fl_heap ?l1 a)"
      "is_lock_acquired lock' = is_lock_acquired ?l1" "waiting_threads lock' = waiting_threads ?l1"
      "block_weak_locks lock' = block_weak_locks ?l1"
    using enqueue_repr [OF r a(2)] .
  then have p: "lock_repr lock' (xs @ [e]) ps'" "set ps' \<subseteq> set ps" "e \<in> set ps \<or> e = fl_brk ?l"
      "fl_brk ?l \<le> fl_brk lock'" "\<not> ce_abandoned (fl_heap lock' e)"
      and ab: "\<And>a. a < fl_brk ?l \<Longrightarrow> a \<noteq> e \<Longrightarrow> ce_abandoned (fl_heap lock' a) = ce_abandoned (fl_heap ?l a)"
      and same: "is_lock_acquired lock' = is_lock_acquired ?l" "waiting_threads lock' = waiting_threads ?l + 1"
    by simp_all
  note d = lock_invD [OF assms(1)]
  have e: "sys_pc s t' \<noteq> Waiting e" for t' using d(5) p(3) by blast
  then have es: "e \<notin> sys_signalled s" using d(7) by blast
  have brk: "a < fl_brk ?l \<and> a \<noteq> e" if "a \<in> set xs \<or> a \<in> sys_signalled s" for a
    using d(3,5,7) e that by metis
  have eps: "e \<notin> set ps'" "e < fl_brk lock'" using p(1) by (auto simp: lock_repr_def)
  have "{a \<in> sys_signalled s. \<not> ce_abandoned (fl_heap lock' a)} = {a \<in> sys_signalled s. \<not> ce_abandoned (fl_heap ?l a)}"
    using brk ab by blast
  then have g: "{a \<in> sys_signalled s - {e}. \<not> ce_abandoned (fl_heap lock' a)} = set_option g"
    using d(8) es by auto
  have ne: "is_lock_acquired ?l \<or> g \<noteq> None" using a(1) d(9,13) by (auto split: if_splits)
  have xsab: "\<not> ce_abandoned (fl_heap lock' a)" if "a \<in> set xs" for a using brk ab d(4) that by blast
  have ex: "\<exists>t'. t' \<noteq> t \<and> (t' \<noteq> t \<longrightarrow> sys_pc s t' = Waiting a)" if "\<exists>t'. sys_pc s t' = Waiting a" for a
    using that assms(2) by (intro ex_upd) auto
  have pc: "((sys_pc s)(t := Waiting e)) t' = Waiting a \<Longrightarrow> (t' = t \<and> a = e) \<or> (t' \<noteq> t \<and> a \<noteq> e \<and> sys_pc s t' = Waiting a)" for t' a
    using e by (auto split: if_splits)
  let ?s = "s\<lparr>sys_lock := lock', sys_pc := (sys_pc s)(t := Waiting e), sys_signalled := sys_signalled s - {e}\<rparr>"
  have "lock_inv (xs @ [e]) ps' g ?s"
  proof (rule lock_invI)
    show "t1 = t2" if "sys_pc ?s t1 = Waiting a" "sys_pc ?s t2 = Waiting a" for t1 t2 a
      using pc [of t1 a] pc [of t2 a] that d(2) by simp blast
    show "\<exists>t. sys_pc ?s t = Waiting a" if "a \<in> set (xs @ [e])" for a
      using that d(3) ex by auto
    show "a \<notin> sys_signalled ?s \<and> \<not> ce_abandoned (fl_heap (sys_lock ?s) a)" if "a \<in> set (xs @ [e])" for a
      using that d(4) xsab p(5) by auto
    show "a \<notin> set ps' \<and> a < fl_brk (sys_lock ?s)" if "sys_pc ?s t1 = Waiting a" for t1 a
      using pc [of t1 a] that d(5) eps p(2,4) by auto (meson less_le_trans subsetD)+
    show "a \<in> set (xs @ [e]) \<or> a \<in> sys_signalled ?s" if "sys_pc ?s t1 = Waiting a" for t1 a
      using pc [of t1 a] that d(6) by auto
    show "\<exists>t. sys_pc ?s t = Waiting a" if "a \<in> sys_signalled ?s" for a
      using that d(7) ex by simp
    show "is_lock_acquired (sys_lock ?s) \<longleftrightarrow> (\<exists>t. sys_pc ?s t = Holding)"
      using d(11) assms(2) same(1) by simp (metis thread_state.distinct(3))
    show "t1 = t2" if "sys_pc ?s t1 = Holding" "sys_pc ?s t2 = Holding" for t1 t2
      using that d(12) by (auto split: if_splits)
  qed (use p(1) g d(9,10) same ne in simp_all)
  then show thesis by (rule that)
qed

lemma lock_inv_resume:
  assumes "lock_inv xs ps g s" and "sys_pc s t = Waiting e" and "e \<in> sys_signalled s"
    and "fair_lock_resume (sys_lock s) e = (lock', r)"
  shows "lock_inv xs (e # ps) (if r = FL_OK then None else g)
    (s\<lparr>sys_lock := lock', sys_pc := (sys_pc s)(t := if r = FL_OK then Holding else Out),
       sys_signalled := sys_signalled s - {e}\<rparr>)"
proof -
  let ?l = "sys_lock s" and ?l1 = "release_cond_queue_entry (sys_lock s) e"
  have e: "e \<notin> set xs" "e \<notin> set ps" "e < fl_brk ?l" using lock_invD(4,5) [OF assms(1)] assms(2,3) by blast+
  have r: "lock_repr ?l1 xs (e # ps)" using release_repr [OF _ e] assms(1) by (simp add: lock_inv_def)
  have same: "ce_abandoned (fl_heap ?l1 a) = ce_abandoned (fl_heap ?l a)" "is_lock_acquired ?l1 = is_lock_acquired ?l"
      "waiting_threads ?l1 = waiting_threads ?l" "fl_brk ?l1 = fl_brk ?l" for a
    by (simp_all add: release_cond_queue_entry_def)
  note d = lock_invD [OF assms(1)]
  let ?x = "if r = FL_OK then Holding else Out"
  let ?s = "s\<lparr>sys_lock := lock', sys_pc := (sys_pc s)(t := ?x), sys_signalled := sys_signalled s - {e}\<rparr>"
  have pc: "sys_pc ?s t' = Waiting a \<Longrightarrow> t' \<noteq> t \<and> a \<noteq> e \<and> sys_pc s t' = Waiting a" for t' a
    using d(2) [OF assms(2)] by (auto split: if_splits)
  have ex: "\<exists>t'. sys_pc ?s t' = Waiting a" if a: "a \<noteq> e" "\<exists>t'. sys_pc s t' = Waiting a" for a
  proof -
    obtain t' where "sys_pc s t' = Waiting a" using a(2) by blast
    moreover from this have "t' \<noteq> t" using a(1) assms(2) by auto
    ultimately have "sys_pc ?s t' = Waiting a" by simp
    then show ?thesis by (rule exI)
  qed
  have l: "lock' = (if ce_abandoned (fl_heap ?l e) then ?l1
      else ?l1\<lparr>waiting_threads := waiting_threads ?l - 1, is_lock_acquired := True\<rparr>)"
    "r = FL_OK \<longleftrightarrow> \<not> ce_abandoned (fl_heap ?l e)"
    using assms(4) by (auto simp: fair_lock_resume_def same Let_def split: if_splits)
  have h: "fl_heap lock' = fl_heap ?l1" "fl_brk lock' = fl_brk ?l" by (simp_all add: l(1) same)
  have g: "\<not> ce_abandoned (fl_heap ?l e) \<Longrightarrow> g = Some e" "ce_abandoned (fl_heap ?l e) \<Longrightarrow> g \<noteq> Some e"
  proof -
    have "e \<in> set_option g \<longleftrightarrow> \<not> ce_abandoned (fl_heap ?l e)" using assms(3) by (simp flip: d(8))
    then show "\<not> ce_abandoned (fl_heap ?l e) \<Longrightarrow> g = Some e" "ce_abandoned (fl_heap ?l e) \<Longrightarrow> g \<noteq> Some e"
      by (cases g; simp)+
  qed
  have hold: "\<not> ce_abandoned (fl_heap ?l e) \<Longrightarrow> sys_pc s t' \<noteq> Holding" for t' using g(1) d(10,11) by auto
  show ?thesis
  proof (rule lock_invI)
    show "lock_repr (sys_lock ?s) xs (e # ps)" using r by (simp add: l(1) lock_repr_def)
    show "t1 = t2" if "sys_pc ?s t1 = Waiting a" "sys_pc ?s t2 = Waiting a" for t1 t2 a
      using pc [OF that(1)] pc [OF that(2)] d(2) by blast
    show "\<exists>t. sys_pc ?s t = Waiting a" if "a \<in> set xs" for a
      using that e(1) by (intro ex d(3)) auto
    show "a \<notin> sys_signalled ?s \<and> \<not> ce_abandoned (fl_heap (sys_lock ?s) a)" if "a \<in> set xs" for a
      using that d(4) by (simp add: h same)
    show "a \<notin> set (e # ps) \<and> a < fl_brk (sys_lock ?s)" if "sys_pc ?s t1 = Waiting a" for t1 a
      using pc [OF that] d(5) by (auto simp: h)
    show "a \<in> set xs \<or> a \<in> sys_signalled ?s" if "sys_pc ?s t1 = Waiting a" for t1 a
      using pc [OF that] d(6) by auto
    show "\<exists>t. sys_pc ?s t = Waiting a" if "a \<in> sys_signalled ?s" for a
      using that by (intro ex d(7)) auto
    show "{a \<in> sys_signalled ?s. \<not> ce_abandoned (fl_heap (sys_lock ?s) a)} = set_option (if r = FL_OK then None else g)"
    proof -
      have "{a \<in> sys_signalled s - {e}. \<not> ce_abandoned (fl_heap ?l a)} = set_option g - {e}"
        by (simp flip: d(8)) blast
      then show ?thesis using g l(2) by (cases g) (simp_all add: h same, auto)
    qed
    show "waiting_threads (sys_lock ?s) = int (length xs) + of_bool ((if r = FL_OK then None else g) \<noteq> None)"
      using d(9) g(1) l by (auto simp: same)
    show "\<not> is_lock_acquired (sys_lock ?s)" if "(if r = FL_OK then None else g) \<noteq> None"
      using that d(10) l by (auto simp: same split: if_splits)
    show "is_lock_acquired (sys_lock ?s) \<longleftrightarrow> (\<exists>t. sys_pc ?s t = Holding)"
    proof (cases "r = FL_OK")
      case True
      then show ?thesis using l by auto
    next
      case False
      then have "(\<exists>t. sys_pc ?s t = Holding) \<longleftrightarrow> (\<exists>t. sys_pc s t = Holding)"
        using assms(2) by simp (metis thread_state.distinct(5))
      then show ?thesis using d(11) False l same by simp
    qed
    show "t1 = t2" if "sys_pc ?s t1 = Holding" "sys_pc ?s t2 = Holding" for t1 t2
      using that d(12) hold l(2) by (auto split: if_splits)
    show "is_lock_acquired (sys_lock ?s) \<or> (if r = FL_OK then None else g) \<noteq> None" if "xs \<noteq> []"
      using that d(13) l by (auto simp: same)
  qed
qed

lemma lock_inv_unlock:
  assumes "lock_inv xs ps g s" and "sys_pc s t = Holding" and "fair_lock_unlock (sys_lock s) = (lock', e)"
  shows "lock_inv (tl xs) ps (hd_opt xs)
    (s\<lparr>sys_lock := lock', sys_pc := (sys_pc s)(t := Out), sys_signalled := sys_signalled s \<union> set_option e\<rparr>)"
proof -
  let ?l = "sys_lock s"
  obtain l1 where l1: "dequeue_cond_queue_entry ?l = (l1, e)" "lock' = l1\<lparr>is_lock_acquired := False\<rparr>"
    using assms(3) by (auto simp: fair_lock_unlock_def split: prod.splits)
  have r: "lock_repr ?l xs ps" using assms(1) by (simp add: lock_inv_def)
  note d = dequeue_repr [OF r l1(1)]
  have r': "lock_repr lock' (tl xs) ps" using d(1) by (simp add: l1(2) lock_repr_def)
  have g: "g = None" using assms(1,2) by (auto simp: lock_inv_def)
  have h: "fl_heap lock' = fl_heap ?l" "fl_brk lock' = fl_brk ?l" "waiting_threads lock' = waiting_threads ?l"
    using d by (simp_all add: l1(2))
  have nh: "\<forall>t'. ((sys_pc s)(t := Out)) t' \<noteq> Holding" using assms(1,2) by (auto simp: lock_inv_def)
  note i = lock_invD [OF assms(1)]
  let ?s = "s\<lparr>sys_lock := lock', sys_pc := (sys_pc s)(t := Out), sys_signalled := sys_signalled s \<union> set_option e\<rparr>"
  have ex: "\<exists>t'. sys_pc ?s t' = Waiting a" if a: "\<exists>t'. sys_pc s t' = Waiting a" for a
  proof -
    obtain t' where "sys_pc s t' = Waiting a" using a by blast
    moreover from this have "t' \<noteq> t" using assms(2) by auto
    ultimately have "sys_pc ?s t' = Waiting a" by simp
    then show ?thesis by (rule exI)
  qed
  have pc: "sys_pc ?s t' = Waiting a \<Longrightarrow> sys_pc s t' = Waiting a" for t' a by (simp split: if_splits)
  have hd: "set xs = set_option (hd_opt xs) \<union> set (tl xs)" by (cases xs) auto
  have hdt: "x \<notin> set (tl xs)" if "hd_opt xs = Some x" for x
    using r that by (cases xs) (auto simp: lock_repr_def)
  have none: "{a \<in> sys_signalled s. \<not> ce_abandoned (fl_heap ?l a)} = {}" using i(8) g by simp
  show ?thesis
  proof (rule lock_invI)
    show "lock_repr (sys_lock ?s) (tl xs) ps" using r' by simp
    show "t1 = t2" if "sys_pc ?s t1 = Waiting a" "sys_pc ?s t2 = Waiting a" for t1 t2 a
      using pc [OF that(1)] pc [OF that(2)] by (rule i(2))
    show "\<exists>t. sys_pc ?s t = Waiting a" if "a \<in> set (tl xs)" for a
      using that hd by (intro ex i(3)) simp
    show "a \<notin> sys_signalled ?s \<and> \<not> ce_abandoned (fl_heap (sys_lock ?s) a)" if "a \<in> set (tl xs)" for a
      using that i(4) hd hdt d(2) by (auto simp: h)
    show "a \<notin> set ps \<and> a < fl_brk (sys_lock ?s)" if "sys_pc ?s t1 = Waiting a" for t1 a
      using i(5) [OF pc [OF that]] by (simp add: h)
    show "a \<in> set (tl xs) \<or> a \<in> sys_signalled ?s" if "sys_pc ?s t1 = Waiting a" for t1 a
      using i(6) [OF pc [OF that]] hd d(2) by auto
    show "\<exists>t. sys_pc ?s t = Waiting a" if "a \<in> sys_signalled ?s" for a
      using that i(3,7) hd d(2) by (intro ex) auto
    show "{a \<in> sys_signalled ?s. \<not> ce_abandoned (fl_heap (sys_lock ?s) a)} = set_option (hd_opt xs)"
      using none i(4) hd d(2) by (auto simp: h)
    show "waiting_threads (sys_lock ?s) = int (length (tl xs)) + of_bool (hd_opt xs \<noteq> None)"
      using i(9) g h(3) by (cases xs) auto
    show "\<not> is_lock_acquired (sys_lock ?s)" if "hd_opt xs \<noteq> None" by (simp add: l1(2))
    show "is_lock_acquired (sys_lock ?s) \<longleftrightarrow> (\<exists>t. sys_pc ?s t = Holding)" using nh by (simp add: l1(2))
    show "t1 = t2" if "sys_pc ?s t1 = Holding" "sys_pc ?s t2 = Holding" for t1 t2 using that nh by simp
    show "is_lock_acquired (sys_lock ?s) \<or> hd_opt xs \<noteq> None" if "tl xs \<noteq> []" using that by (cases xs) auto
  qed
qed

lemma lock_inv_block:
  assumes "lock_inv xs ps g s" and "fair_lock_block_weak_locks (sys_lock s) = Some (lock', sigs)"
  shows "lock_inv (filter (\<lambda>a. \<not> ce_weak (fl_heap (sys_lock s) a)) xs) ps g
    (s\<lparr>sys_lock := lock', sys_signalled := sys_signalled s \<union> set sigs\<rparr>)"
proof -
  let ?l = "sys_lock s" and ?w = "\<lambda>a. ce_weak (fl_heap (sys_lock s) a)"
  let ?m = "sys_lock s\<lparr>block_weak_locks := True\<rparr>"
  have "lock_repr (?l\<lparr>block_weak_locks := True\<rparr>) xs ps" using assms(1) by (simp add: lock_inv_def lock_repr_def)
  from abandone_weak_locks_spec [OF this] obtain l1
    where "abandone_weak_locks ?m = Some (l1, filter (\<lambda>a. ce_weak (fl_heap ?m a)) xs)"
      "lock_repr l1 (filter (\<lambda>a. \<not> ce_weak (fl_heap ?m a)) xs) ps"
      "waiting_threads l1 = waiting_threads ?m - int (length (filter (\<lambda>a. ce_weak (fl_heap ?m a)) xs))"
      "\<forall>a. ce_weak (fl_heap l1 a) = ce_weak (fl_heap ?m a) \<and> ce_abandoned (fl_heap l1 a) = abandon xs (fl_heap ?m) a"
      "is_lock_acquired l1 = is_lock_acquired ?m" "block_weak_locks l1 = block_weak_locks ?m" "fl_brk l1 = fl_brk ?m" .
  with assms(2) have b: "sigs = filter ?w xs" "lock_repr lock' (filter (\<lambda>a. \<not> ?w a) xs) ps"
      "waiting_threads lock' = waiting_threads ?l - int (length (filter ?w xs))"
      "\<And>a. ce_abandoned (fl_heap lock' a) = abandon xs (fl_heap ?l) a" "is_lock_acquired lock' = is_lock_acquired ?l"
      "fl_brk lock' = fl_brk ?l"
    by (simp_all add: fair_lock_block_weak_locks_def)
  have "length xs = length (filter ?w xs) + length (filter (\<lambda>a. \<not> ?w a) xs)"
    using sum_length_filter_compl [of ?w xs] by simp
  then have w: "waiting_threads lock' = int (length (filter (\<lambda>a. \<not> ?w a) xs)) + of_bool (g \<noteq> None)"
    using assms(1) by (simp add: b(3) lock_inv_def)
  have "{a \<in> sys_signalled s \<union> set sigs. \<not> ce_abandoned (fl_heap lock' a)} =
      {a \<in> sys_signalled s. \<not> ce_abandoned (fl_heap ?l a)}"
    using assms(1) by (auto simp: b abandon_def lock_inv_def)
  then have gr: "{a \<in> sys_signalled s \<union> set sigs. \<not> ce_abandoned (fl_heap lock' a)} = set_option g"
    using assms(1) by (simp add: lock_inv_def)
  note i = lock_invD [OF assms(1)]
  let ?s = "s\<lparr>sys_lock := lock', sys_signalled := sys_signalled s \<union> set sigs\<rparr>"
  show ?thesis
  proof (rule lock_invI)
    show "lock_repr (sys_lock ?s) (filter (\<lambda>a. \<not> ?w a) xs) ps" using b(2) by simp
    show "t1 = t2" if "sys_pc ?s t1 = Waiting a" "sys_pc ?s t2 = Waiting a" for t1 t2 a using that i(2) by simp
    show "\<exists>t. sys_pc ?s t = Waiting a" if "a \<in> set (filter (\<lambda>a. \<not> ?w a) xs)" for a using that i(3) by simp
    show "a \<notin> sys_signalled ?s \<and> \<not> ce_abandoned (fl_heap (sys_lock ?s) a)" if "a \<in> set (filter (\<lambda>a. \<not> ?w a) xs)" for a
      using that i(4) by (simp add: b abandon_def)
    show "a \<notin> set ps \<and> a < fl_brk (sys_lock ?s)" if "sys_pc ?s t1 = Waiting a" for t1 a using that i(5) by (simp add: b)
    show "a \<in> set (filter (\<lambda>a. \<not> ?w a) xs) \<or> a \<in> sys_signalled ?s" if "sys_pc ?s t1 = Waiting a" for t1 a
      using that i(6) by (auto simp: b)
    show "\<exists>t. sys_pc ?s t = Waiting a" if "a \<in> sys_signalled ?s" for a using that i(3,7) by (auto simp: b)
    show "{a \<in> sys_signalled ?s. \<not> ce_abandoned (fl_heap (sys_lock ?s) a)} = set_option g" using gr by simp
    show "waiting_threads (sys_lock ?s) = int (length (filter (\<lambda>a. \<not> ?w a) xs)) + of_bool (g \<noteq> None)" using w by simp
    show "\<not> is_lock_acquired (sys_lock ?s)" if "g \<noteq> None" using that i(10) by (simp add: b)
    show "is_lock_acquired (sys_lock ?s) \<longleftrightarrow> (\<exists>t. sys_pc ?s t = Holding)" using i(11) by (simp add: b)
    show "t1 = t2" if "sys_pc ?s t1 = Holding" "sys_pc ?s t2 = Holding" for t1 t2 using that i(12) by simp
    show "is_lock_acquired (sys_lock ?s) \<or> g \<noteq> None" if "filter (\<lambda>a. \<not> ?w a) xs \<noteq> []"
    proof -
      have "xs \<noteq> []" using that by auto
      then show ?thesis using i(13) by (simp add: b)
    qed
  qed
qed

lemma lock_inv_step:
  assumes "lock_step False s s'" and "lock_inv xs ps g s"
  shows "\<exists>xs ps g. lock_inv xs ps g s'"
  using assms
proof cases
  case allow_weak
  then have "lock_inv xs ps g s'"
    by (intro lock_invI) (use lock_invD [OF assms(2)] in \<open>simp_all add: fair_lock_allow_weak_locks_def lock_repr_def\<close>)
  then show ?thesis by blast
next
  case (reject t alloc weak lock' r)
  then have "s' = s" using fair_lock_enter_reject [OF reject(3,4)] by simp
  then show ?thesis using assms(2) by blast
qed (use lock_inv_acquire lock_inv_wait lock_inv_resume lock_inv_unlock lock_inv_block assms(2) in \<open>metis+\<close>)

lemma lock_inv_reachable: "lock_reachable False s \<Longrightarrow> \<exists>xs ps g. lock_inv xs ps g s"
proof -
  assume "lock_reachable False s"
  then obtain h where "(lock_step False)\<^sup>*\<^sup>* (lock_start h) s" by (auto simp: lock_reachable_def)
  then show ?thesis
  proof induction
    case base
    show ?case using lock_inv_start by blast
  next
    case (step s s')
    then show ?case using lock_inv_step by blast
  qed
qed

subsection \<open>Properties\<close>


abbreviation entry0 :: cond_entry where
  "entry0 \<equiv> \<lparr>ce_weak = False, ce_abandoned = False, ce_next = None\<rparr>"

text \<open>The state after thread 0 has taken the lock and thread 1 waits for it.\<close>

definition contended :: lock_sys where
  "contended =
     \<lparr>sys_lock = \<lparr>fl_heap = (\<lambda>_. entry0), fl_brk = 1, cond_queue_front = Some 0, cond_queue_rear = Some 0,
        cond_pool = None, is_lock_acquired = True, waiting_threads = 1, block_weak_locks = False\<rparr>,
      sys_pc = (\<lambda>_. Out)(0 := Holding, 1 := Waiting 0), sys_signalled = {}\<rparr>"

lemma lock_reachable_start: "lock_reachable spurious (lock_start h)"
  by (auto simp: lock_reachable_def)

lemma lock_reachable_step: "lock_reachable spurious s \<Longrightarrow> lock_step spurious s s' \<Longrightarrow> lock_reachable spurious s'"
  unfolding lock_reachable_def by (meson rtranclp.rtrancl_into_rtrancl)

lemma contended_reachable: "lock_reachable spurious contended"
proof -
  define s1 where "s1 = lock_start (\<lambda>_. entry0)\<lparr>sys_lock := (initial_lock (\<lambda>_. entry0))\<lparr>is_lock_acquired := True\<rparr>,
    sys_pc := (\<lambda>_. Out)(0 := Holding)\<rparr>"
  have "lock_step spurious (lock_start (\<lambda>_. entry0)) s1"
    using lock_step.acquire [of "lock_start (\<lambda>_. entry0)" 0 True False "(initial_lock (\<lambda>_. entry0))\<lparr>is_lock_acquired := True\<rparr>"]
    by (simp add: s1_def lock_start_def fair_lock_enter_def initial_lock_def)
  then have s1: "lock_reachable spurious s1" using lock_reachable_start lock_reachable_step by blast
  have e: "fair_lock_enter True (sys_lock s1) False = (sys_lock contended, Wait 0)"
    by (simp add: s1_def contended_def fair_lock_enter_def initial_lock_def enqueue_cond_queue_entry_def
        pool_entry_def set_next_def fun_upd_idem)
  have "lock_step spurious s1 contended"
    using lock_step.wait [OF _ e, of 1] by (simp add: s1_def contended_def lock_start_def)
  then show ?thesis using s1 lock_reachable_step by blast
qed


text \<open>
  C23. The wait in \<^verbatim>\<open>_fair_lock_lock\<close> is not repeated when the condition
  variable returns without a signal, which POSIX permits. One such wake-up suffices for two threads to
  hold the lock at the same time.
\<close>

theorem spurious_wakeup_breaks_exclusion:
  "\<exists>s. lock_reachable True s \<and> sys_pc s 0 = Holding \<and> sys_pc s 1 = Holding"
proof -
  obtain lock' where r: "fair_lock_resume (sys_lock contended) 0 = (lock', FL_OK)"
    by (simp add: contended_def fair_lock_resume_def release_cond_queue_entry_def set_next_def)
  have "sys_pc contended 1 = Waiting 0" by (simp add: contended_def)
  from lock_step.resume [OF this _ r, of True] have "lock_step True contended
      (contended\<lparr>sys_lock := lock', sys_pc := (sys_pc contended)(1 := Holding), sys_signalled := {}\<rparr>)"
    by (simp add: contended_def)
  then show ?thesis
    using lock_reachable_step [OF contended_reachable] by (fastforce simp: contended_def)
qed

text \<open>
  C22. The pointer structure implements a first-in first-out queue with removal of weak
  requests. If the linked list represents the waiting entries \<open>xs\<close> and the pool \<open>ps\<close>, then a new
  request goes to the end, \<open>fair_lock_unlock\<close> takes the entry at the front, blocking weak requests
  always terminates, signals exactly the weak entries and leaves the strong ones in their order,
  and \<open>fair_lock_destroy\<close> frees exactly the entries of the pool.
\<close>

theorem fair_lock_queue_refines:
  assumes "lock_repr lock xs ps"
  shows "(enqueue_cond_queue_entry alloc lock weak = Some (lock1, e) \<longrightarrow> (\<exists>ps'. lock_repr lock1 (xs @ [e]) ps')) \<and>
    (\<exists>lock2. fair_lock_unlock lock = (lock2, hd_opt xs) \<and> lock_repr lock2 (tl xs) ps) \<and>
    (\<exists>lock3. fair_lock_block_weak_locks lock = Some (lock3, filter (\<lambda>a. ce_weak (fl_heap lock a)) xs) \<and>
       lock_repr lock3 (filter (\<lambda>a. \<not> ce_weak (fl_heap lock a)) xs) ps) \<and>
    fair_lock_destroy lock = Some ps"
proof (intro conjI impI)
  show "\<exists>ps'. lock_repr lock1 (xs @ [e]) ps'" if "enqueue_cond_queue_entry alloc lock weak = Some (lock1, e)"
    by (rule enqueue_repr [OF assms that]) blast
  obtain l e' where l: "dequeue_cond_queue_entry lock = (l, e')" by fastforce
  have "lock_repr (l\<lparr>is_lock_acquired := False\<rparr>) (tl xs) ps" using dequeue_repr(1) [OF assms l] by (simp add: lock_repr_def)
  then show "\<exists>lock2. fair_lock_unlock lock = (lock2, hd_opt xs) \<and> lock_repr lock2 (tl xs) ps"
    using dequeue_repr(2) [OF assms l] l by (simp add: fair_lock_unlock_def)
  let ?m = "lock\<lparr>block_weak_locks := True\<rparr>"
  have "lock_repr ?m xs ps" using assms by (simp add: lock_repr_def)
  then have "\<exists>lock3. abandone_weak_locks ?m = Some (lock3, filter (\<lambda>a. ce_weak (fl_heap ?m a)) xs) \<and>
      lock_repr lock3 (filter (\<lambda>a. \<not> ce_weak (fl_heap ?m a)) xs) ps"
    by (rule abandone_weak_locks_spec) blast
  then show "\<exists>lock3. fair_lock_block_weak_locks lock = Some (lock3, filter (\<lambda>a. ce_weak (fl_heap lock a)) xs) \<and>
      lock_repr lock3 (filter (\<lambda>a. \<not> ce_weak (fl_heap lock a)) xs) ps"
    by (simp add: fair_lock_block_weak_locks_def)
  show "fair_lock_destroy lock = Some ps"
    using assms destroy_loop_seg [of "fl_heap lock" "cond_pool lock" ps "[]"]
    by (simp add: lock_repr_def fair_lock_destroy_def)
qed

theorem fair_lock_queue_refines_witness:
  "\<exists>lock2. fair_lock_unlock (sys_lock contended) = (lock2, Some 0) \<and> lock_repr lock2 [] []"
proof -
  have "lock_repr (sys_lock contended) [0] []" by (simp add: lock_repr_def contended_def last_opt_def)
  from fair_lock_queue_refines [OF this] show ?thesis by simp
qed

end
