(* ===== verification/BlockingQueue.thy ===== *)
theory BlockingQueue
  imports Prelude
begin

text \<open>
  The blocking queue of \<^verbatim>\<open>src/blocking_queue.h\<close>, which connects the stages of the receiver: a circular
  buffer of fixed or growing capacity, guarded by one lock for adding, one for getting, a mutex and
  a condition variable.

  The locale \<open>fifo_buffer\<close> is the contract of the buffer: an abstraction to the list of stored
  elements and the laws of adding and removing; its lemmas hold for every such buffer, and the
  interpretation \<open>ring\<close> shows that the circular buffer is one. Indices are \<^verbatim>\<open>unsigned int\<close>, natural
  numbers with the wrap-around written out.

  The critical sections of the main mutex are the functions \<open>add_section\<close>, \<open>add_resume\<close>, \<open>get_section\<close>
  and \<open>get_resume\<close>; \<open>bq_step\<close> interleaves them for any number of threads. The two fair locks appear
  by their contract: at most one owner each, requests may be refused.
\<close>

subsection \<open>Data\<close>

datatype bq_result = BQ_OK | BQ_ERROR | BQ_FULL | BQ_EMPTY | BQ_CLOSED

record 'a blocking_queue =
  bq_queue :: "'a list"
  queue_capacity :: nat
  queue_size :: nat
  queue_front :: nat
  queue_rear :: nat
  is_boundless :: bool
  active_callers_count :: int
  bq_closed :: bool
  get_lock_are_weak_locks_blocked :: bool
  add_lock_are_weak_locks_blocked :: bool

definition uint_wrap :: "nat \<Rightarrow> nat" where
  "uint_wrap n = n mod 2 ^ 32"

subsection \<open>Initialisation and destruction\<close>

text \<open>
  The resources in the order of their acquisition. Whether acquiring one succeeds is an argument.
  The result is the list of resources that are released again on the failure path, and the queue.
\<close>

datatype bq_resource = Main_Mutex | Active_Callers_Mutex | Close_Mutex | Main_Cond | Destroy_Cond
  | Get_Lock | Add_Lock | Queue_Array

definition initial_queue :: "nat \<Rightarrow> 'a \<Rightarrow> 'a blocking_queue" where
  "initial_queue capacity junk =
     (let cap = (if capacity \<le> 0 then 1 else capacity)
      in \<lparr>bq_queue = replicate cap junk, queue_capacity = cap, queue_size = 0, queue_front = 0,
          queue_rear = cap - 1, is_boundless = (capacity \<le> 0), active_callers_count = 0, bq_closed = False,
          get_lock_are_weak_locks_blocked = False, add_lock_are_weak_locks_blocked = False\<rparr>)"

definition blocking_queue_init ::
  "(bq_resource \<Rightarrow> bool) \<Rightarrow> nat \<Rightarrow> 'a \<Rightarrow> bq_resource list + 'a blocking_queue" where
  "blocking_queue_init ok capacity junk =
     (if \<not> ok Main_Mutex then Inl []
      else if \<not> ok Active_Callers_Mutex then Inl [Main_Mutex]
      else if \<not> ok Close_Mutex then Inl [Main_Mutex, Active_Callers_Mutex]
      else if \<not> ok Main_Cond then Inl [Main_Mutex, Active_Callers_Mutex, Close_Mutex]
      else if \<not> ok Destroy_Cond then Inl [Main_Mutex, Active_Callers_Mutex, Close_Mutex, Main_Cond]
      else if \<not> ok Get_Lock then Inl [Main_Mutex, Active_Callers_Mutex, Close_Mutex, Main_Cond, Destroy_Cond]
      else if \<not> ok Add_Lock then Inl [Main_Mutex, Active_Callers_Mutex, Close_Mutex, Main_Cond, Destroy_Cond, Get_Lock]
      else if \<not> ok Queue_Array then Inl [Main_Mutex, Active_Callers_Mutex, Close_Mutex, Main_Cond, Destroy_Cond, Get_Lock, Add_Lock]
      else Inr (initial_queue capacity junk))"

text \<open>What \<open>blocking_queue_destroy\<close> releases, after closing the queue.\<close>

definition blocking_queue_destroy :: "bq_resource list" where
  "blocking_queue_destroy = [Queue_Array, Get_Lock, Add_Lock, Main_Mutex, Close_Mutex]"

subsection \<open>The circular buffer\<close>

definition bq_enqueue :: "'a \<Rightarrow> 'a blocking_queue \<Rightarrow> 'a blocking_queue" where
  "bq_enqueue x bq =
     (let rear = uint_wrap (queue_rear bq + 1) mod queue_capacity bq
      in bq\<lparr>queue_rear := rear, bq_queue := (bq_queue bq)[rear := x], queue_size := uint_wrap (queue_size bq + 1)\<rparr>)"

definition bq_dequeue :: "'a blocking_queue \<Rightarrow> 'a \<times> 'a blocking_queue" where
  "bq_dequeue bq =
     (bq_queue bq ! queue_front bq,
      bq\<lparr>queue_front := uint_wrap (queue_front bq + 1) mod queue_capacity bq, queue_size := queue_size bq - 1\<rparr>)"

definition grow_queue :: "bool \<Rightarrow> 'a \<Rightarrow> 'a blocking_queue \<Rightarrow> 'a blocking_queue option" where
  "grow_queue alloc junk bq =
     (let new_capacity = uint_wrap (queue_capacity bq * 2)
      in if \<not> alloc then None
         else
           let copied = (if queue_rear bq \<ge> queue_front bq then take (queue_size bq) (drop (queue_front bq) (bq_queue bq))
                         else take (queue_capacity bq - queue_front bq) (drop (queue_front bq) (bq_queue bq)) @
                              take (queue_rear bq + 1) (bq_queue bq))
           in Some (bq\<lparr>bq_queue := copied @ replicate (new_capacity - length copied) junk,
                       queue_capacity := new_capacity, queue_front := 0, queue_rear := queue_size bq - 1\<rparr>))"

subsection \<open>Buffers by contract\<close>

locale fifo_buffer =
  fixes ok :: "'s \<Rightarrow> bool" and items :: "'s \<Rightarrow> 'a list" and room :: "'s \<Rightarrow> nat"
    and enq :: "'a \<Rightarrow> 's \<Rightarrow> 's" and deq :: "'s \<Rightarrow> 'a \<times> 's"
  assumes items_room: "ok s \<Longrightarrow> length (items s) \<le> room s"
    and enq_ok: "ok s \<Longrightarrow> length (items s) < room s \<Longrightarrow> ok (enq x s) \<and> items (enq x s) = items s @ [x] \<and> room (enq x s) = room s"
    and deq_ok: "ok s \<Longrightarrow> items s = y # ys \<Longrightarrow> ok (snd (deq s)) \<and> fst (deq s) = y \<and> items (snd (deq s)) = ys \<and> room (snd (deq s)) = room s"
begin

text \<open>A run of operations: adding an element, or removing one.\<close>

fun run :: "'a option list \<Rightarrow> 's \<Rightarrow> 'a list \<Rightarrow> ('s \<times> 'a list) option" where
  "run [] s out = Some (s, out)"
| "run (Some x # es) s out = (if length (items s) < room s then run es (enq x s) out else None)"
| "run (None # es) s out = (if items s = [] then None else case deq s of (y, s') \<Rightarrow> run es s' (out @ [y]))"

lemma run_fifo:
  assumes "run es s out = Some (s', out')" and "ok s"
  shows "ok s' \<and> out @ items s @ concat (map (case_option [] (\<lambda>x. [x])) es) = out' @ items s' \<and> room s' = room s"
  using assms
proof (induction es s out rule: run.induct)
  case (2 x es s out)
  then show ?case using enq_ok [of s x] by (auto split: if_splits)
next
  case (3 es s out)
  then obtain y ys where i: "items s = y # ys" by (cases "items s") auto
  with deq_ok [OF "3.prems"(2) i] 3 show ?case by (cases "deq s") auto
qed simp

end

definition ring_wf :: "'a blocking_queue \<Rightarrow> bool" where
  "ring_wf bq \<longleftrightarrow> 0 < queue_capacity bq \<and> queue_capacity bq < 2 ^ 32 \<and> length (bq_queue bq) = queue_capacity bq \<and>
     queue_size bq \<le> queue_capacity bq \<and> queue_front bq < queue_capacity bq \<and>
     queue_rear bq = (queue_front bq + queue_size bq + queue_capacity bq - 1) mod queue_capacity bq"

definition contents :: "'a blocking_queue \<Rightarrow> 'a list" where
  "contents bq = map (\<lambda>i. bq_queue bq ! ((queue_front bq + i) mod queue_capacity bq)) [0..<queue_size bq]"

lemma length_contents [simp]: "length (contents bq) = queue_size bq"
  by (simp add: contents_def)

lemma contents_nth: "i < queue_size bq \<Longrightarrow> contents bq ! i = bq_queue bq ! ((queue_front bq + i) mod queue_capacity bq)"
  by (simp add: contents_def)

lemma mod_add_inj_le:
  assumes "i < c" and "j \<le> i" and "(f + i) mod c = (f + j) mod (c :: nat)"
  shows "i = j"
proof -
  have "c dvd f + i - (f + j)" using assms by (subst mod_eq_dvd_iff_nat [symmetric]) auto
  then have "c dvd i - j" by simp
  with assms(1,2) show ?thesis by (cases "i = j") (auto dest: dvd_imp_le)
qed

lemma mod_add_inj:
  assumes "i < c" and "j < c" and "(f + i) mod c = (f + j) mod (c :: nat)"
  shows "i = j"
  using assms mod_add_inj_le [of i c j f] mod_add_inj_le [of j c i f] by linarith

lemma ring_wfD:
  assumes "ring_wf bq"
  shows "0 < queue_capacity bq" and "queue_capacity bq < 2 ^ 32" and "length (bq_queue bq) = queue_capacity bq"
    and "queue_size bq \<le> queue_capacity bq" and "queue_front bq < queue_capacity bq"
    and "queue_rear bq = (queue_front bq + queue_size bq + queue_capacity bq - 1) mod queue_capacity bq"
  using assms by (auto simp: ring_wf_def)

lemma uint_wrap_id: "n < 2 ^ 32 \<Longrightarrow> uint_wrap n = n"
  by (simp add: uint_wrap_def)

lemma uint_wrap_Suc_mod:
  assumes "a < c" and "c < 2 ^ 32"
  shows "uint_wrap (a + 1) mod c = (a + 1) mod c"
  using assms by (subst uint_wrap_id) auto

lemma ring_next_rear:
  assumes "ring_wf bq"
  shows "uint_wrap (queue_rear bq + 1) mod queue_capacity bq = (queue_front bq + queue_size bq) mod queue_capacity bq"
proof -
  note w = ring_wfD [OF assms]
  have "uint_wrap (queue_rear bq + 1) mod queue_capacity bq =
      ((queue_front bq + queue_size bq + queue_capacity bq - 1) mod queue_capacity bq + 1) mod queue_capacity bq"
    using w by (subst uint_wrap_Suc_mod) auto
  also have "\<dots> = (queue_front bq + queue_size bq + queue_capacity bq - 1 + 1) mod queue_capacity bq"
    by (rule mod_add_left_eq)
  also have "queue_front bq + queue_size bq + queue_capacity bq - 1 + 1 = queue_front bq + queue_size bq + queue_capacity bq"
    using w(1) by simp
  finally show ?thesis by simp
qed

lemma enqueue_fields:
  assumes "ring_wf bq" and "queue_size bq < queue_capacity bq"
  shows "bq_enqueue x bq = bq\<lparr>queue_rear := (queue_front bq + queue_size bq) mod queue_capacity bq,
      bq_queue := (bq_queue bq)[(queue_front bq + queue_size bq) mod queue_capacity bq := x],
      queue_size := queue_size bq + 1\<rparr>"
proof -
  have "uint_wrap (queue_size bq + 1) = queue_size bq + 1"
    using assms(2) ring_wfD [OF assms(1)] by (intro uint_wrap_id) simp
  then show ?thesis using ring_next_rear [OF assms(1)] by (simp add: bq_enqueue_def Let_def)
qed

lemma enqueue_wf:
  assumes "ring_wf bq" and "queue_size bq < queue_capacity bq"
  shows "ring_wf (bq_enqueue x bq)"
proof -
  have "queue_front bq + (queue_size bq + 1) + queue_capacity bq - 1 = queue_front bq + queue_size bq + queue_capacity bq"
    by simp
  then show ?thesis using assms ring_wfD [OF assms(1)]
    by (simp add: ring_wf_def enqueue_fields [OF assms])
qed

lemma enqueue_contents:
  assumes "ring_wf bq" and "queue_size bq < queue_capacity bq"
  shows "contents (bq_enqueue x bq) = contents bq @ [x]"
proof (rule nth_equalityI)
  fix i assume "i < length (contents (bq_enqueue x bq))"
  then have i: "i < queue_size bq + 1" by (simp add: enqueue_fields [OF assms])
  note w = ring_wfD [OF assms(1)]
  let ?c = "queue_capacity bq" and ?f = "queue_front bq"
  have "(?f + i) mod ?c = (?f + queue_size bq) mod ?c \<Longrightarrow> i = queue_size bq"
    using i assms(2) by (intro mod_add_inj [of i ?c "queue_size bq" ?f]) auto
  then show "contents (bq_enqueue x bq) ! i = (contents bq @ [x]) ! i"
    using i w by (cases "i = queue_size bq")
      (auto simp: contents_def enqueue_fields [OF assms] nth_append nth_list_update simp del: upt_Suc)
qed (simp add: enqueue_fields [OF assms])

lemma dequeue_wf:
  assumes "ring_wf bq" and "0 < queue_size bq"
  shows "ring_wf (snd (bq_dequeue bq))"
proof -
  note w = ring_wfD [OF assms(1)]
  let ?c = "queue_capacity bq" and ?f = "queue_front bq" and ?s = "queue_size bq"
  have "((?f + 1) mod ?c + (?s - 1) + ?c - 1) mod ?c = ((?f + 1) mod ?c + (?s + ?c - 2)) mod ?c"
    using assms(2) w by (intro arg_cong2 [where f = "(mod)"]) auto
  also have "\<dots> = (?f + 1 + (?s + ?c - 2)) mod ?c" by (rule mod_add_left_eq)
  also have "?f + 1 + (?s + ?c - 2) = ?f + ?s + ?c - 1" using assms(2) w(1) by linarith
  finally have "queue_rear bq = ((?f + 1) mod ?c + (?s - 1) + ?c - 1) mod ?c" using w(6) by simp
  moreover have "uint_wrap (?f + 1) mod ?c = (?f + 1) mod ?c" by (rule uint_wrap_Suc_mod [OF w(5,2)])
  ultimately show ?thesis using w by (simp add: ring_wf_def bq_dequeue_def)
qed

lemma dequeue_contents:
  assumes "ring_wf bq" and "0 < queue_size bq"
  shows "fst (bq_dequeue bq) # contents (snd (bq_dequeue bq)) = contents bq"
proof -
  note w = ring_wfD [OF assms(1)]
  obtain n where n: "queue_size bq = Suc n" using assms(2) by (cases "queue_size bq") auto
  have u: "uint_wrap (queue_front bq + 1) mod queue_capacity bq = (queue_front bq + 1) mod queue_capacity bq"
    by (rule uint_wrap_Suc_mod [OF w(5,2)])
  have "((queue_front bq + 1) mod queue_capacity bq + i) mod queue_capacity bq = (queue_front bq + Suc i) mod queue_capacity bq" for i
    by (simp add: mod_add_left_eq)
  then show ?thesis using w(5) u unfolding contents_def n
    by (simp add: bq_dequeue_def n upt_conv_Cons map_Suc_upt [symmetric] del: upt_Suc)
qed

lemma contents_full:
  assumes "ring_wf bq" and "queue_size bq = queue_capacity bq"
  shows "contents bq = rotate (queue_front bq) (bq_queue bq)"
  using ring_wfD [OF assms(1)] assms(2)
  by (intro nth_equalityI) (auto simp: contents_def nth_rotate ac_simps)

lemma grow_copied:
  assumes "ring_wf bq" and "queue_size bq = queue_capacity bq"
  shows "(if queue_rear bq \<ge> queue_front bq then take (queue_size bq) (drop (queue_front bq) (bq_queue bq))
          else take (queue_capacity bq - queue_front bq) (drop (queue_front bq) (bq_queue bq)) @ take (queue_rear bq + 1) (bq_queue bq))
         = contents bq"
proof -
  note w = ring_wfD [OF assms(1)]
  have r: "queue_rear bq = (queue_front bq + queue_capacity bq - 1) mod queue_capacity bq"
  proof -
    have "queue_front bq + queue_size bq + queue_capacity bq - 1 = queue_front bq + queue_capacity bq - 1 + queue_capacity bq"
      using w(1) assms(2) by simp
    then show ?thesis using w(6) by simp
  qed
  show ?thesis
  proof (cases "queue_front bq = 0")
    case True
    then show ?thesis using w assms r by (simp add: contents_full)
  next
    case False
    then have "queue_front bq + queue_capacity bq - 1 = queue_front bq - 1 + queue_capacity bq" by simp
    then have "queue_rear bq = (queue_front bq - 1 + queue_capacity bq) mod queue_capacity bq" by (simp only: r)
    then have "queue_rear bq = queue_front bq - 1" using w(5) by simp
    with False have "\<not> queue_front bq \<le> queue_rear bq" and "queue_rear bq + 1 = queue_front bq" by linarith+
    then show ?thesis using w(3,5) assms by (simp add: contents_full rotate_drop_take)
  qed
qed

lemma grow_spec:
  assumes "ring_wf bq" and "queue_size bq = queue_capacity bq" and "queue_capacity bq < 2 ^ 31"
  obtains bq' where "grow_queue True junk bq = Some bq'" and "ring_wf bq'" and "contents bq' = contents bq"
    and "queue_capacity bq' = 2 * queue_capacity bq" and "queue_size bq' = queue_size bq"
proof -
  note w = ring_wfD [OF assms(1)]
  let ?c = "queue_capacity bq"
  let ?b = "bq\<lparr>bq_queue := contents bq @ replicate (2 * ?c - ?c) junk,
      queue_capacity := 2 * ?c, queue_front := 0, queue_rear := ?c - 1\<rparr>"
  have cap: "uint_wrap (?c * 2) = 2 * ?c" using assms(3) by (subst uint_wrap_id) auto
  have "grow_queue True junk bq = Some ?b"
    using assms(2) by (simp add: grow_queue_def cap grow_copied [OF assms(1,2)] Let_def)
  moreover have "?c + 2 * ?c - 1 = ?c - 1 + 2 * ?c" using w(1) by simp
  then have "(?c + 2 * ?c - 1) mod (2 * ?c) = ?c - 1" using w(1) by (simp only: mod_add_self2) simp
  then have "ring_wf ?b" using w assms by (simp add: ring_wf_def)
  moreover have "contents ?b = contents bq"
  proof (rule nth_equalityI)
    fix i assume "i < length (contents ?b)"
    then have "i < ?c" using assms(2) by simp
    then show "contents ?b ! i = contents bq ! i"
      using assms(2) by (subst contents_nth) (simp_all add: nth_append)
  qed simp
  ultimately show thesis using assms(2) by (intro that [of ?b]) simp_all
qed

interpretation ring: fifo_buffer ring_wf contents queue_capacity bq_enqueue bq_dequeue
proof (standard, goal_cases)
  case (1 s)
  then show ?case by (simp add: ring_wf_def)
next
  case (2 s x)
  then show ?case by (simp add: enqueue_wf enqueue_contents) (simp add: bq_enqueue_def Let_def)
next
  case (3 s y ys)
  then have pos: "0 < queue_size s" by (metis length_contents length_greater_0_conv list.distinct(1))
  have "queue_capacity (snd (bq_dequeue s)) = queue_capacity s" by (simp add: bq_dequeue_def)
  with dequeue_wf [OF 3(1) pos] dequeue_contents [OF 3(1) pos] 3(2) show ?case by simp
qed

subsection \<open>Adding and getting\<close>

datatype bq_outcome = Returned bq_result | Blocked

definition increase_active_callers_count :: "'a blocking_queue \<Rightarrow> 'a blocking_queue" where
  "increase_active_callers_count bq = bq\<lparr>active_callers_count := active_callers_count bq + 1\<rparr>"

definition decrease_active_callers_count :: "'a blocking_queue \<Rightarrow> 'a blocking_queue" where
  "decrease_active_callers_count bq = bq\<lparr>active_callers_count := active_callers_count bq - 1\<rparr>"

text \<open>
  What a call of \<open>blocking_queue_add_internal\<close> does between taking and releasing the main mutex: until
  it returns or waits, and from its wake-up on. A result \<open>BQ_OK\<close> is accompanied by a signal of the
  condition variable.
\<close>

definition add_finish :: "'a \<Rightarrow> 'a blocking_queue \<Rightarrow> 'a blocking_queue" where
  "add_finish x bq = bq_enqueue x (if get_lock_are_weak_locks_blocked bq then bq\<lparr>get_lock_are_weak_locks_blocked := False\<rparr> else bq)"

definition add_section :: "bool \<Rightarrow> bool \<Rightarrow> 'a \<Rightarrow> 'a \<Rightarrow> 'a blocking_queue \<Rightarrow> bq_outcome \<times> 'a blocking_queue" where
  "add_section async alloc junk x bq =
     (if bq_closed bq then (Returned BQ_CLOSED, bq)
      else if queue_size bq = queue_capacity bq
      then if is_boundless bq
           then case grow_queue alloc junk bq of
                  None \<Rightarrow> (Returned BQ_ERROR, bq)
                | Some bq' \<Rightarrow> (Returned BQ_OK, add_finish x bq')
           else let bq' = (if \<not> add_lock_are_weak_locks_blocked bq then bq\<lparr>add_lock_are_weak_locks_blocked := True\<rparr> else bq)
                in if async then (Returned BQ_FULL, bq') else (Blocked, bq')
      else (Returned BQ_OK, add_finish x bq))"

definition add_resume :: "'a \<Rightarrow> 'a blocking_queue \<Rightarrow> bq_outcome \<times> 'a blocking_queue" where
  "add_resume x bq = (if bq_closed bq then (Returned BQ_CLOSED, bq) else (Returned BQ_OK, add_finish x bq))"

text \<open>The same for \<open>blocking_queue_get_internal\<close>; the element is returned with the result.\<close>

definition get_finish :: "'a blocking_queue \<Rightarrow> 'a \<times> 'a blocking_queue" where
  "get_finish bq = bq_dequeue (if add_lock_are_weak_locks_blocked bq then bq\<lparr>add_lock_are_weak_locks_blocked := False\<rparr> else bq)"

definition get_section :: "bool \<Rightarrow> 'a blocking_queue \<Rightarrow> bq_outcome \<times> 'a list \<times> 'a blocking_queue" where
  "get_section async bq =
     (if bq_closed bq then (Returned BQ_CLOSED, [], bq)
      else if queue_size bq = 0
      then let bq' = (if \<not> get_lock_are_weak_locks_blocked bq then bq\<lparr>get_lock_are_weak_locks_blocked := True\<rparr> else bq)
           in if async then (Returned BQ_EMPTY, [], bq') else (Blocked, [], bq')
      else case get_finish bq of (y, bq') \<Rightarrow> (Returned BQ_OK, [y], bq'))"

definition get_resume :: "'a blocking_queue \<Rightarrow> bq_outcome \<times> 'a list \<times> 'a blocking_queue" where
  "get_resume bq =
     (if bq_closed bq then (Returned BQ_CLOSED, [], bq)
      else case get_finish bq of (y, bq') \<Rightarrow> (Returned BQ_OK, [y], bq'))"

text \<open>
  Closing marks the queue; the loop that follows, which signals the waiting callers until the last one has
  left, is the step \<open>close_signal\<close> below.
\<close>

definition blocking_queue_close :: "'a blocking_queue \<Rightarrow> 'a blocking_queue" where
  "blocking_queue_close bq = (if bq_closed bq then bq else bq\<lparr>bq_closed := True\<rparr>)"

subsection \<open>Threads\<close>

datatype 'a bq_pc = Idle
  | Add_Request bool 'a | Add_Enter bool 'a | Add_Blocked 'a | Add_Leave bq_result
  | Get_Request bool | Get_Enter bool | Get_Blocked | Get_Leave bq_result
  | Leaving bq_result

record 'a bq_sys =
  sy_queue :: "'a blocking_queue"
  sy_pc :: "nat \<Rightarrow> 'a bq_pc"
  sy_add_owner :: "nat option"
  sy_get_owner :: "nat option"
  sy_signalled :: "nat set"
  sy_added :: "'a list"
  sy_taken :: "'a list"

fun adding :: "'a bq_pc \<Rightarrow> bool" where
  "adding (Add_Enter async x) = True"
| "adding (Add_Blocked x) = True"
| "adding (Add_Leave r) = True"
| "adding pc = False"

fun getting :: "'a bq_pc \<Rightarrow> bool" where
  "getting (Get_Enter async) = True"
| "getting Get_Blocked = True"
| "getting (Get_Leave r) = True"
| "getting pc = False"

fun blocked :: "'a bq_pc \<Rightarrow> bool" where
  "blocked (Add_Blocked x) = True"
| "blocked Get_Blocked = True"
| "blocked pc = False"

text \<open>Signalling the condition variable wakes one of the threads that wait and have not been woken.\<close>

definition signals :: "(nat \<Rightarrow> 'a bq_pc) \<Rightarrow> nat set \<Rightarrow> nat set \<Rightarrow> bool" where
  "signals pc woken woken' \<longleftrightarrow>
     (if \<exists>t. blocked (pc t) \<and> t \<notin> woken then \<exists>t. blocked (pc t) \<and> t \<notin> woken \<and> woken' = insert t woken
      else woken' = woken)"

definition after_add :: "nat \<Rightarrow> 'a \<Rightarrow> bq_result \<Rightarrow> 'a blocking_queue \<Rightarrow> nat set \<Rightarrow> 'a bq_sys \<Rightarrow> 'a bq_sys" where
  "after_add t x r q woken s = s\<lparr>sy_queue := q, sy_pc := (sy_pc s)(t := Add_Leave r), sy_signalled := woken,
     sy_added := sy_added s @ (if r = BQ_OK then [x] else [])\<rparr>"

definition after_get :: "nat \<Rightarrow> 'a list \<Rightarrow> bq_result \<Rightarrow> 'a blocking_queue \<Rightarrow> nat set \<Rightarrow> 'a bq_sys \<Rightarrow> 'a bq_sys" where
  "after_get t ys r q woken s = s\<lparr>sy_queue := q, sy_pc := (sy_pc s)(t := Get_Leave r), sy_signalled := woken,
     sy_taken := sy_taken s @ ys\<rparr>"

text \<open>
  The steps of the threads and of \<open>blocking_queue_close\<close>. With \<open>spurious\<close>, a thread may return from
  \<^verbatim>\<open>pthread_cond_wait\<close> without a signal, as POSIX allows. Boundless queues are followed up to a capacity
  below two to the 31st.
\<close>

inductive bq_step :: "bool \<Rightarrow> 'a bq_sys \<Rightarrow> 'a bq_sys \<Rightarrow> bool" for spurious :: bool where
  add_call: "sy_pc s t = Idle \<Longrightarrow>
     bq_step spurious s (s\<lparr>sy_queue := increase_active_callers_count (sy_queue s), sy_pc := (sy_pc s)(t := Add_Request async x)\<rparr>)"
| add_locked: "sy_pc s t = Add_Request async x \<Longrightarrow> sy_add_owner s = None \<Longrightarrow>
     bq_step spurious s (s\<lparr>sy_add_owner := Some t, sy_pc := (sy_pc s)(t := Add_Enter async x)\<rparr>)"
| add_refused: "sy_pc s t = Add_Request async x \<Longrightarrow> r = BQ_ERROR \<or> async \<and> r = BQ_FULL \<Longrightarrow>
     bq_step spurious s (s\<lparr>sy_pc := (sy_pc s)(t := Leaving r)\<rparr>)"
| add_runs: "sy_pc s t = Add_Enter async x \<Longrightarrow> is_boundless (sy_queue s) \<longrightarrow> queue_capacity (sy_queue s) < 2 ^ 31 \<Longrightarrow>
     add_section async alloc junk x (sy_queue s) = (Returned r, q) \<Longrightarrow>
     (if r = BQ_OK then signals ((sy_pc s)(t := Add_Leave r)) (sy_signalled s) woken else woken = sy_signalled s) \<Longrightarrow>
     bq_step spurious s (after_add t x r q woken s)"
| add_blocks: "sy_pc s t = Add_Enter async x \<Longrightarrow> is_boundless (sy_queue s) \<longrightarrow> queue_capacity (sy_queue s) < 2 ^ 31 \<Longrightarrow>
     add_section async alloc junk x (sy_queue s) = (Blocked, q) \<Longrightarrow>
     bq_step spurious s (s\<lparr>sy_queue := q, sy_pc := (sy_pc s)(t := Add_Blocked x)\<rparr>)"
| add_wakes: "sy_pc s t = Add_Blocked x \<Longrightarrow> t \<in> sy_signalled s \<or> spurious \<Longrightarrow>
     add_resume x (sy_queue s) = (Returned r, q) \<Longrightarrow>
     (if r = BQ_OK then signals ((sy_pc s)(t := Add_Leave r)) (sy_signalled s - {t}) woken else woken = sy_signalled s - {t}) \<Longrightarrow>
     bq_step spurious s (after_add t x r q woken s)"
| add_unlock: "sy_pc s t = Add_Leave r \<Longrightarrow>
     bq_step spurious s (s\<lparr>sy_add_owner := None, sy_pc := (sy_pc s)(t := Leaving r)\<rparr>)"
| get_call: "sy_pc s t = Idle \<Longrightarrow>
     bq_step spurious s (s\<lparr>sy_queue := increase_active_callers_count (sy_queue s), sy_pc := (sy_pc s)(t := Get_Request async)\<rparr>)"
| get_locked: "sy_pc s t = Get_Request async \<Longrightarrow> sy_get_owner s = None \<Longrightarrow>
     bq_step spurious s (s\<lparr>sy_get_owner := Some t, sy_pc := (sy_pc s)(t := Get_Enter async)\<rparr>)"
| get_refused: "sy_pc s t = Get_Request async \<Longrightarrow> r = BQ_ERROR \<or> async \<and> r = BQ_EMPTY \<Longrightarrow>
     bq_step spurious s (s\<lparr>sy_pc := (sy_pc s)(t := Leaving r)\<rparr>)"
| get_runs: "sy_pc s t = Get_Enter async \<Longrightarrow> get_section async (sy_queue s) = (Returned r, ys, q) \<Longrightarrow>
     (if r = BQ_OK then signals ((sy_pc s)(t := Get_Leave r)) (sy_signalled s) woken else woken = sy_signalled s) \<Longrightarrow>
     bq_step spurious s (after_get t ys r q woken s)"
| get_blocks: "sy_pc s t = Get_Enter async \<Longrightarrow> get_section async (sy_queue s) = (Blocked, ys, q) \<Longrightarrow>
     bq_step spurious s (s\<lparr>sy_queue := q, sy_pc := (sy_pc s)(t := Get_Blocked)\<rparr>)"
| get_wakes: "sy_pc s t = Get_Blocked \<Longrightarrow> t \<in> sy_signalled s \<or> spurious \<Longrightarrow>
     get_resume (sy_queue s) = (Returned r, ys, q) \<Longrightarrow>
     (if r = BQ_OK then signals ((sy_pc s)(t := Get_Leave r)) (sy_signalled s - {t}) woken else woken = sy_signalled s - {t}) \<Longrightarrow>
     bq_step spurious s (after_get t ys r q woken s)"
| get_unlock: "sy_pc s t = Get_Leave r \<Longrightarrow>
     bq_step spurious s (s\<lparr>sy_get_owner := None, sy_pc := (sy_pc s)(t := Leaving r)\<rparr>)"
| return: "sy_pc s t = Leaving r \<Longrightarrow>
     bq_step spurious s (s\<lparr>sy_queue := decrease_active_callers_count (sy_queue s), sy_pc := (sy_pc s)(t := Idle)\<rparr>)"
| close: "bq_step spurious s (s\<lparr>sy_queue := blocking_queue_close (sy_queue s)\<rparr>)"
| close_signal: "bq_closed (sy_queue s) \<Longrightarrow> active_callers_count (sy_queue s) \<noteq> 0 \<Longrightarrow>
     signals (sy_pc s) (sy_signalled s) woken \<Longrightarrow> bq_step spurious s (s\<lparr>sy_signalled := woken\<rparr>)"

definition bq_start :: "nat \<Rightarrow> 'a \<Rightarrow> 'a bq_sys" where
  "bq_start capacity junk = \<lparr>sy_queue = initial_queue capacity junk, sy_pc = (\<lambda>t. Idle), sy_add_owner = None,
     sy_get_owner = None, sy_signalled = {}, sy_added = [], sy_taken = []\<rparr>"

inductive bq_reachable :: "bool \<Rightarrow> nat \<Rightarrow> 'a \<Rightarrow> 'a bq_sys \<Rightarrow> bool" for spurious capacity junk where
  start: "bq_reachable spurious capacity junk (bq_start capacity junk)"
| step: "bq_reachable spurious capacity junk s \<Longrightarrow> bq_step spurious s s' \<Longrightarrow> bq_reachable spurious capacity junk s'"

subsection \<open>Invariants\<close>

definition owners_inv :: "'a bq_sys \<Rightarrow> bool" where
  "owners_inv s \<longleftrightarrow> (\<forall>t. adding (sy_pc s t) \<longleftrightarrow> sy_add_owner s = Some t) \<and> (\<forall>t. getting (sy_pc s t) \<longleftrightarrow> sy_get_owner s = Some t)"

definition callers_inv :: "'a bq_sys \<Rightarrow> bool" where
  "callers_inv s \<longleftrightarrow> finite {t. sy_pc s t \<noteq> Idle} \<and> active_callers_count (sy_queue s) = int (card {t. sy_pc s t \<noteq> Idle})"

definition signalled_inv :: "'a bq_sys \<Rightarrow> bool" where
  "signalled_inv s \<longleftrightarrow> (\<forall>t \<in> sy_signalled s. blocked (sy_pc s t))"

definition queue_inv :: "'a bq_sys \<Rightarrow> bool" where
  "queue_inv s \<longleftrightarrow> ring_wf (sy_queue s) \<and> sy_added s = sy_taken s @ contents (sy_queue s) \<and>
     (\<forall>t x. sy_pc s t = Add_Blocked x \<longrightarrow> \<not> bq_closed (sy_queue s) \<longrightarrow>
        (t \<in> sy_signalled s \<longleftrightarrow> queue_size (sy_queue s) < queue_capacity (sy_queue s))) \<and>
     (\<forall>t. sy_pc s t = Get_Blocked \<longrightarrow> \<not> bq_closed (sy_queue s) \<longrightarrow>
        (t \<in> sy_signalled s \<longleftrightarrow> 0 < queue_size (sy_queue s)))"

lemma signals_cases:
  assumes "signals pc woken woken'"
  shows "woken' = woken \<and> (\<forall>t. blocked (pc t) \<longrightarrow> t \<in> woken) \<or> (\<exists>t. blocked (pc t) \<and> t \<notin> woken \<and> woken' = insert t woken)"
  using assms by (auto simp: signals_def split: if_splits)

lemma enqueue_keeps [simp]:
  "queue_capacity (bq_enqueue x bq) = queue_capacity bq" "bq_closed (bq_enqueue x bq) = bq_closed bq"
  "is_boundless (bq_enqueue x bq) = is_boundless bq" "active_callers_count (bq_enqueue x bq) = active_callers_count bq"
  by (simp_all add: bq_enqueue_def Let_def)

lemma dequeue_keeps [simp]:
  "queue_capacity (snd (bq_dequeue bq)) = queue_capacity bq" "bq_closed (snd (bq_dequeue bq)) = bq_closed bq"
  "is_boundless (snd (bq_dequeue bq)) = is_boundless bq" "active_callers_count (snd (bq_dequeue bq)) = active_callers_count bq"
  by (simp_all add: bq_dequeue_def)

lemma grow_keeps:
  "grow_queue alloc junk bq = Some bq' \<Longrightarrow> active_callers_count bq' = active_callers_count bq \<and> bq_closed bq' = bq_closed bq \<and>
     is_boundless bq' = is_boundless bq"
  by (auto simp: grow_queue_def Let_def split: if_splits)

lemma close_keeps [simp]:
  "bq_closed (blocking_queue_close bq)" "active_callers_count (blocking_queue_close bq) = active_callers_count bq"
  "is_boundless (blocking_queue_close bq) = is_boundless bq" "queue_capacity (blocking_queue_close bq) = queue_capacity bq"
  "queue_size (blocking_queue_close bq) = queue_size bq"
  by (simp_all add: blocking_queue_close_def)

lemma add_section_active: "add_section async alloc junk x bq = (out, q) \<Longrightarrow> active_callers_count q = active_callers_count bq"
  by (auto simp: add_section_def add_finish_def Let_def split: if_splits option.splits dest!: grow_keeps)

lemma add_resume_active: "add_resume x bq = (out, q) \<Longrightarrow> active_callers_count q = active_callers_count bq"
  by (auto simp: add_resume_def add_finish_def split: if_splits)

lemma get_finish_active: "get_finish bq = (y, q) \<Longrightarrow> active_callers_count q = active_callers_count bq"
  by (auto simp: get_finish_def bq_dequeue_def split: if_splits)

lemma get_section_active: "get_section async bq = (out, ys, q) \<Longrightarrow> active_callers_count q = active_callers_count bq"
  by (auto simp: get_section_def Let_def split: if_splits prod.splits dest!: get_finish_active)

lemma get_resume_active: "get_resume bq = (out, ys, q) \<Longrightarrow> active_callers_count q = active_callers_count bq"
  by (auto simp: get_resume_def split: if_splits prod.splits dest!: get_finish_active)

lemmas sections_active = add_section_active add_resume_active get_section_active get_resume_active

lemma owners_invD:
  assumes "owners_inv s"
  shows "(sy_add_owner s = Some t) = adding (sy_pc s t)" and "(sy_get_owner s = Some t) = getting (sy_pc s t)"
    and "sy_add_owner s = None \<Longrightarrow> \<not> adding (sy_pc s t)" and "sy_get_owner s = None \<Longrightarrow> \<not> getting (sy_pc s t)"
    and "adding (sy_pc s t) \<Longrightarrow> adding (sy_pc s u) \<Longrightarrow> u = t" and "getting (sy_pc s t) \<Longrightarrow> getting (sy_pc s u) \<Longrightarrow> u = t"
  using assms by (auto simp: owners_inv_def)

lemma owners_invI:
  assumes "\<And>t. (sy_add_owner s = Some t) = adding (sy_pc s t)" and "\<And>t. (sy_get_owner s = Some t) = getting (sy_pc s t)"
  shows "owners_inv s"
  using assms by (auto simp: owners_inv_def)

lemma owners_step:
  assumes "bq_step spurious s s'" and "owners_inv s"
  shows "owners_inv s'"
  using assms(1)
proof (cases rule: bq_step.cases)
  case (add_unlock t r)
  with owners_invD [OF assms(2)] owners_invD(5) [OF assms(2), of t] show ?thesis
    by (intro owners_invI) (auto simp: fun_upd_apply)
next
  case (get_unlock t r)
  with owners_invD [OF assms(2)] owners_invD(6) [OF assms(2), of t] show ?thesis
    by (intro owners_invI) (auto simp: fun_upd_apply)
qed (rule owners_invI; auto simp: owners_invD(1-4) [OF assms(2)] after_add_def after_get_def)+

lemma signalled_step:
  assumes "bq_step spurious s s'" and "signalled_inv s"
  shows "signalled_inv s'"
  using assms
  by (cases rule: bq_step.cases)
    (auto simp: signalled_inv_def after_add_def after_get_def split: if_splits dest!: signals_cases)

lemma callers_update:
  assumes "sy_pc s t \<noteq> Idle" and "pc \<noteq> Idle"
  shows "{u. ((sy_pc s)(t := pc)) u \<noteq> Idle} = {u. sy_pc s u \<noteq> Idle}"
  using assms by auto

lemma callers_insert: "pc \<noteq> Idle \<Longrightarrow> {u. ((sy_pc s)(t := pc)) u \<noteq> Idle} = insert t {u. sy_pc s u \<noteq> Idle}"
  by auto

lemma callers_remove: "{u. ((sy_pc s)(t := Idle)) u \<noteq> Idle} = {u. sy_pc s u \<noteq> Idle} - {t}"
  by auto

lemma callers_step:
  assumes "bq_step spurious s s'" and "callers_inv s"
  shows "callers_inv s'"
  using assms
proof (cases rule: bq_step.cases)
  case (return t r)
  then have "t \<in> {u. sy_pc s u \<noteq> Idle}" by simp
  then have "int (card ({u. sy_pc s u \<noteq> Idle} - {t})) = int (card {u. sy_pc s u \<noteq> Idle}) - 1"
    using assms(2) card_gt_0_iff [of "{u. sy_pc s u \<noteq> Idle}"] by (auto simp: callers_inv_def card_Diff_singleton of_nat_diff)
  with return assms(2) show ?thesis by (simp add: callers_inv_def decrease_active_callers_count_def callers_remove del: fun_upd_apply)
qed (simp_all add: callers_inv_def after_add_def after_get_def callers_update callers_insert increase_active_callers_count_def
    sections_active del: fun_upd_apply)

lemma ring_wf_flags [simp]:
  "ring_wf (bq\<lparr>get_lock_are_weak_locks_blocked := b\<rparr>) = ring_wf bq"
  "ring_wf (bq\<lparr>add_lock_are_weak_locks_blocked := b\<rparr>) = ring_wf bq"
  "ring_wf (bq\<lparr>bq_closed := b\<rparr>) = ring_wf bq"
  "ring_wf (blocking_queue_close bq) = ring_wf bq"
  "ring_wf (increase_active_callers_count bq) = ring_wf bq"
  "ring_wf (decrease_active_callers_count bq) = ring_wf bq"
  by (simp_all add: ring_wf_def blocking_queue_close_def increase_active_callers_count_def decrease_active_callers_count_def)

lemma contents_flags [simp]:
  "contents (bq\<lparr>get_lock_are_weak_locks_blocked := b\<rparr>) = contents bq"
  "contents (bq\<lparr>add_lock_are_weak_locks_blocked := b\<rparr>) = contents bq"
  "contents (bq\<lparr>bq_closed := b\<rparr>) = contents bq"
  "contents (blocking_queue_close bq) = contents bq"
  "contents (increase_active_callers_count bq) = contents bq"
  "contents (decrease_active_callers_count bq) = contents bq"
  by (simp_all add: contents_def blocking_queue_close_def increase_active_callers_count_def decrease_active_callers_count_def)

lemma callers_fields [simp]:
  "queue_size (increase_active_callers_count bq) = queue_size bq" "queue_capacity (increase_active_callers_count bq) = queue_capacity bq"
  "bq_closed (increase_active_callers_count bq) = bq_closed bq" "is_boundless (increase_active_callers_count bq) = is_boundless bq"
  "queue_size (decrease_active_callers_count bq) = queue_size bq" "queue_capacity (decrease_active_callers_count bq) = queue_capacity bq"
  "bq_closed (decrease_active_callers_count bq) = bq_closed bq" "is_boundless (decrease_active_callers_count bq) = is_boundless bq"
  by (simp_all add: increase_active_callers_count_def decrease_active_callers_count_def)

text \<open>An operation that leaves the elements alone, and the two that change them.\<close>

definition same_elements :: "'a blocking_queue \<Rightarrow> 'a blocking_queue \<Rightarrow> bool" where
  "same_elements bq q \<longleftrightarrow> ring_wf q \<and> contents q = contents bq \<and> queue_size q = queue_size bq \<and>
     queue_capacity q = queue_capacity bq \<and> bq_closed q = bq_closed bq"

definition added_element :: "'a \<Rightarrow> 'a blocking_queue \<Rightarrow> 'a blocking_queue \<Rightarrow> bool" where
  "added_element x bq q \<longleftrightarrow> ring_wf q \<and> contents q = contents bq @ [x] \<and> 0 < queue_size q \<and> bq_closed q = bq_closed bq"

definition taken_element :: "'a list \<Rightarrow> 'a blocking_queue \<Rightarrow> 'a blocking_queue \<Rightarrow> bool" where
  "taken_element ys bq q \<longleftrightarrow> ring_wf q \<and> contents bq = ys @ contents q \<and> queue_size q < queue_capacity q \<and> bq_closed q = bq_closed bq"

lemma add_finish_spec:
  assumes "ring_wf bq" and "queue_size bq < queue_capacity bq"
  shows "added_element x bq (add_finish x bq)"
proof -
  let ?b = "if get_lock_are_weak_locks_blocked bq then bq\<lparr>get_lock_are_weak_locks_blocked := False\<rparr> else bq"
  have e: "ring_wf ?b" "length (contents ?b) < queue_capacity ?b" "contents ?b = contents bq" "bq_closed ?b = bq_closed bq"
    using assms by simp_all
  have "contents (bq_enqueue x ?b) = contents bq @ [x]" and "ring_wf (bq_enqueue x ?b)"
    using ring.enq_ok [OF e(1,2), of x] e(3) by simp_all
  moreover from this(1) have "0 < length (contents (bq_enqueue x ?b))" by (simp only: length_append list.size)
  moreover have "bq_closed (bq_enqueue x ?b) = bq_closed bq" using e(4) by simp
  ultimately show ?thesis unfolding added_element_def add_finish_def length_contents by blast
qed

lemma get_finish_spec:
  assumes "ring_wf bq" and "0 < queue_size bq" and "get_finish bq = (y, q)"
  shows "taken_element [y] bq q"
proof -
  let ?b = "if add_lock_are_weak_locks_blocked bq then bq\<lparr>add_lock_are_weak_locks_blocked := False\<rparr> else bq"
  have b: "ring_wf ?b" "0 < queue_size ?b" "contents ?b = contents bq" "bq_closed ?b = bq_closed bq"
    using assms by simp_all
  have d: "y = fst (bq_dequeue ?b)" "q = snd (bq_dequeue ?b)" using assms(3) by (simp_all add: get_finish_def)
  have "queue_size q < queue_capacity q" using b(2) ring_wfD(4) [OF b(1)] unfolding d by (simp add: bq_dequeue_def)
  moreover have "bq_closed q = bq_closed bq" using b(4) unfolding d by simp
  ultimately show ?thesis
    using dequeue_wf [OF b(1,2)] dequeue_contents [OF b(1,2)] b(3) d by (simp add: taken_element_def)
qed

lemma add_section_spec:
  assumes "ring_wf bq" and "is_boundless bq \<longrightarrow> queue_capacity bq < 2 ^ 31" and "add_section async alloc junk x bq = (out, q)"
  shows "out = Returned BQ_OK \<and> \<not> bq_closed bq \<and> added_element x bq q \<or>
         out \<noteq> Returned BQ_OK \<and> same_elements bq q \<and> (out = Blocked \<longrightarrow> \<not> bq_closed bq \<and> queue_size bq = queue_capacity bq)"
proof (cases "\<not> bq_closed bq \<and> queue_size bq = queue_capacity bq \<and> is_boundless bq \<and> alloc")
  case True
  then obtain q' where g: "grow_queue True junk bq = Some q'" "ring_wf q'" "contents q' = contents bq"
      "queue_capacity q' = 2 * queue_capacity bq" "queue_size q' = queue_size bq"
    using grow_spec [of bq junk] assms(1,2) by metis
  have "added_element x q' (add_finish x q')"
    using g True ring_wfD(1) [OF assms(1)] by (intro add_finish_spec) simp_all
  then show ?thesis using True g assms(3) grow_keeps [OF g(1)] by (auto simp: add_section_def added_element_def)
next
  case False
  then consider "bq_closed bq" | "\<not> bq_closed bq" "queue_size bq \<noteq> queue_capacity bq"
    | "\<not> bq_closed bq" "queue_size bq = queue_capacity bq" "is_boundless bq \<longrightarrow> \<not> alloc" by auto
  then show ?thesis
  proof cases
    case 2
    then show ?thesis using assms(1,3) ring_wfD(4) [OF assms(1)] add_finish_spec [OF assms(1), of x] by (auto simp: add_section_def)
  qed (use assms(1,3) in \<open>auto simp: add_section_def same_elements_def grow_queue_def Let_def split: if_splits\<close>)
qed

lemma add_resume_spec:
  assumes "ring_wf bq" and "\<not> bq_closed bq \<longrightarrow> queue_size bq < queue_capacity bq" and "add_resume x bq = (out, q)"
  shows "out = Returned BQ_OK \<and> \<not> bq_closed bq \<and> added_element x bq q \<or> out = Returned BQ_CLOSED \<and> same_elements bq q"
  using assms add_finish_spec [OF assms(1), of x] by (auto simp: add_resume_def same_elements_def split: if_splits)

lemma get_section_spec:
  assumes "ring_wf bq" and "get_section async bq = (out, ys, q)"
  shows "out = Returned BQ_OK \<and> \<not> bq_closed bq \<and> taken_element ys bq q \<or>
         out \<noteq> Returned BQ_OK \<and> ys = [] \<and> same_elements bq q \<and> (out = Blocked \<longrightarrow> \<not> bq_closed bq \<and> queue_size bq = 0)"
proof (cases "bq_closed bq \<or> queue_size bq = 0")
  case True
  then show ?thesis using assms by (auto simp: get_section_def same_elements_def Let_def split: if_splits)
next
  case False
  then show ?thesis using assms get_finish_spec [OF assms(1)] by (cases "get_finish bq") (auto simp: get_section_def)
qed

lemma get_resume_spec:
  assumes "ring_wf bq" and "\<not> bq_closed bq \<longrightarrow> 0 < queue_size bq" and "get_resume bq = (out, ys, q)"
  shows "out = Returned BQ_OK \<and> \<not> bq_closed bq \<and> taken_element ys bq q \<or> out = Returned BQ_CLOSED \<and> ys = [] \<and> same_elements bq q"
  using assms get_finish_spec [OF assms(1)]
  by (cases "get_finish bq") (auto simp: get_resume_def same_elements_def split: if_splits)

lemma blocked_cases: "blocked pc \<Longrightarrow> (\<exists>x. pc = Add_Blocked x) \<or> pc = Get_Blocked"
  by (cases pc) auto

lemma queue_invD:
  assumes "queue_inv s"
  shows "ring_wf (sy_queue s)" and "sy_added s = sy_taken s @ contents (sy_queue s)"
    and "sy_pc s t = Add_Blocked x \<Longrightarrow> \<not> bq_closed (sy_queue s) \<Longrightarrow>
        t \<in> sy_signalled s \<longleftrightarrow> queue_size (sy_queue s) < queue_capacity (sy_queue s)"
    and "sy_pc s t = Get_Blocked \<Longrightarrow> \<not> bq_closed (sy_queue s) \<Longrightarrow> t \<in> sy_signalled s \<longleftrightarrow> 0 < queue_size (sy_queue s)"
  using assms by (auto simp: queue_inv_def)

lemma queue_invI:
  assumes "ring_wf (sy_queue s)" and "sy_added s = sy_taken s @ contents (sy_queue s)"
    and "\<And>t x. sy_pc s t = Add_Blocked x \<Longrightarrow> \<not> bq_closed (sy_queue s) \<Longrightarrow>
        t \<in> sy_signalled s \<longleftrightarrow> queue_size (sy_queue s) < queue_capacity (sy_queue s)"
    and "\<And>t. sy_pc s t = Get_Blocked \<Longrightarrow> \<not> bq_closed (sy_queue s) \<Longrightarrow> t \<in> sy_signalled s \<longleftrightarrow> 0 < queue_size (sy_queue s)"
  shows "queue_inv s"
  using assms by (auto simp: queue_inv_def)

lemma signal_reaches:
  assumes "signals pc woken woken'" and "blocked (pc u)" and "\<And>w. blocked (pc w) \<Longrightarrow> w = u"
  shows "u \<in> woken'"
  using signals_cases [OF assms(1)] assms(2,3) by blast

lemma after_add_inv:
  assumes inv: "queue_inv s" "owners_inv s" and t: "adding (sy_pc s t)"
    and q: "added_element x (sy_queue s) q" and sig: "signals ((sy_pc s)(t := Add_Leave BQ_OK)) woken woken'"
  shows "queue_inv (after_add t x BQ_OK q woken' s)"
proof (rule queue_invI)
  let ?pc = "(sy_pc s)(t := Add_Leave BQ_OK)"
  have no_add: "?pc u \<noteq> Add_Blocked y" for u y
    using owners_invD(5) [OF inv(2) t, of u] by (cases "u = t") auto
  show "u \<in> sy_signalled (after_add t x BQ_OK q woken' s) \<longleftrightarrow> 0 < queue_size (sy_queue (after_add t x BQ_OK q woken' s))"
    if "sy_pc (after_add t x BQ_OK q woken' s) u = Get_Blocked" for u
  proof -
    from that have u: "?pc u = Get_Blocked" by (simp add: after_add_def)
    have "u \<in> woken'"
    proof (rule signal_reaches [OF sig])
      show "blocked (?pc u)" using u by simp
      fix w assume "blocked (?pc w)"
      then have "?pc w = Get_Blocked" using blocked_cases no_add by blast
      then show "w = u" using u owners_invD(6) [OF inv(2), of u w] by (auto split: if_splits)
    qed
    then show ?thesis using q by (simp add: after_add_def added_element_def)
  qed
  fix u y assume "sy_pc (after_add t x BQ_OK q woken' s) u = Add_Blocked y"
  with no_add [of u y] show "u \<in> sy_signalled (after_add t x BQ_OK q woken' s) \<longleftrightarrow>
      queue_size (sy_queue (after_add t x BQ_OK q woken' s)) < queue_capacity (sy_queue (after_add t x BQ_OK q woken' s))"
    by (simp add: after_add_def)
qed (use queue_invD(2) [OF inv(1)] q in \<open>simp_all add: after_add_def added_element_def\<close>)

lemma after_get_inv:
  assumes inv: "queue_inv s" "owners_inv s" and t: "getting (sy_pc s t)"
    and q: "taken_element ys (sy_queue s) q" and sig: "signals ((sy_pc s)(t := Get_Leave BQ_OK)) woken woken'"
  shows "queue_inv (after_get t ys BQ_OK q woken' s)"
proof (rule queue_invI)
  let ?pc = "(sy_pc s)(t := Get_Leave BQ_OK)"
  have no_get: "?pc u \<noteq> Get_Blocked" for u
    using owners_invD(6) [OF inv(2) t, of u] by (cases "u = t") auto
  show "u \<in> sy_signalled (after_get t ys BQ_OK q woken' s) \<longleftrightarrow>
      queue_size (sy_queue (after_get t ys BQ_OK q woken' s)) < queue_capacity (sy_queue (after_get t ys BQ_OK q woken' s))"
    if "sy_pc (after_get t ys BQ_OK q woken' s) u = Add_Blocked y" for u y
  proof -
    from that have u: "?pc u = Add_Blocked y" by (simp add: after_get_def)
    have "u \<in> woken'"
    proof (rule signal_reaches [OF sig])
      show "blocked (?pc u)" using u by simp
      fix w assume "blocked (?pc w)"
      then obtain z where "?pc w = Add_Blocked z" using blocked_cases no_get by blast
      then show "w = u" using u owners_invD(5) [OF inv(2), of u w] by (auto split: if_splits)
    qed
    then show ?thesis using q by (simp add: after_get_def taken_element_def)
  qed
  fix u assume "sy_pc (after_get t ys BQ_OK q woken' s) u = Get_Blocked"
  with no_get [of u] show "u \<in> sy_signalled (after_get t ys BQ_OK q woken' s) \<longleftrightarrow>
      0 < queue_size (sy_queue (after_get t ys BQ_OK q woken' s))"
    by (simp add: after_get_def)
qed (use queue_invD(2) [OF inv(1)] q in \<open>simp_all add: after_get_def taken_element_def\<close>)

text \<open>Steps that leave the elements alone: the thread that moves is not left waiting, or waits for a reason.\<close>

lemma quiet_inv:
  assumes inv: "queue_inv s" and q: "same_elements (sy_queue s) q"
    and pc: "sy_pc s' = (sy_pc s)(t := pc)" and s': "sy_queue s' = q" "sy_added s' = sy_added s" "sy_taken s' = sy_taken s"
    and sig: "sy_signalled s' = sy_signalled s \<or> sy_signalled s' = sy_signalled s - {t}"
    and new: "blocked pc \<Longrightarrow> t \<notin> sy_signalled s'"
      "\<And>x. pc = Add_Blocked x \<Longrightarrow> queue_size (sy_queue s) = queue_capacity (sy_queue s)"
      "pc = Get_Blocked \<Longrightarrow> queue_size (sy_queue s) = 0"
  shows "queue_inv s'"
proof (rule queue_invI)
  fix u x assume u: "sy_pc s' u = Add_Blocked x" "\<not> bq_closed (sy_queue s')"
  show "u \<in> sy_signalled s' \<longleftrightarrow> queue_size (sy_queue s') < queue_capacity (sy_queue s')"
  proof (cases "u = t")
    case True
    with u pc have "pc = Add_Blocked x" by simp
    with new True s'(1) q show ?thesis by (simp add: same_elements_def)
  next
    case False
    then have "sy_pc s u = Add_Blocked x" and "u \<in> sy_signalled s' \<longleftrightarrow> u \<in> sy_signalled s" using u(1) pc sig by auto
    moreover have "\<not> bq_closed (sy_queue s)" using u(2) s'(1) q by (simp add: same_elements_def)
    ultimately show ?thesis using queue_invD(3) [OF inv, of u x] s'(1) q by (simp add: same_elements_def)
  qed
next
  fix u assume u: "sy_pc s' u = Get_Blocked" "\<not> bq_closed (sy_queue s')"
  show "u \<in> sy_signalled s' \<longleftrightarrow> 0 < queue_size (sy_queue s')"
  proof (cases "u = t")
    case True
    with u pc have "pc = Get_Blocked" by simp
    with new True s'(1) q show ?thesis by (simp add: same_elements_def)
  next
    case False
    then have "sy_pc s u = Get_Blocked" and "u \<in> sy_signalled s' \<longleftrightarrow> u \<in> sy_signalled s" using u(1) pc sig by auto
    moreover have "\<not> bq_closed (sy_queue s)" using u(2) s'(1) q by (simp add: same_elements_def)
    ultimately show ?thesis using queue_invD(4) [OF inv, of u] s'(1) q by (simp add: same_elements_def)
  qed
qed (use queue_invD(2) [OF inv] q s' in \<open>simp_all add: same_elements_def\<close>)

lemma unsignalled: "signalled_inv s \<Longrightarrow> \<not> blocked (sy_pc s t) \<Longrightarrow> t \<notin> sy_signalled s"
  by (auto simp: signalled_inv_def)

lemma queue_step:
  assumes step: "bq_step False s s'" and inv: "queue_inv s" "owners_inv s" "signalled_inv s"
  shows "queue_inv s'"
  using step
proof (cases rule: bq_step.cases)
  case (add_runs t async x alloc junk r q woken)
  from add_section_spec [OF queue_invD(1) [OF inv(1)] add_runs(3,4)] show ?thesis
  proof (elim disjE conjE)
    assume "Returned r = Returned BQ_OK" "added_element x (sy_queue s) q"
    with add_runs show ?thesis using after_add_inv [OF inv(1,2), of t x q] by simp
  next
    assume "Returned r \<noteq> Returned BQ_OK" "same_elements (sy_queue s) q"
    with add_runs show ?thesis by (intro quiet_inv [OF inv(1), where t = t and pc = "Add_Leave r"]) (simp_all add: after_add_def)
  qed
next
  case (add_blocks t async x alloc junk q)
  from add_section_spec [OF queue_invD(1) [OF inv(1)] add_blocks(3,4)]
  have "same_elements (sy_queue s) q" "queue_size (sy_queue s) = queue_capacity (sy_queue s)" by auto
  with add_blocks unsignalled [OF inv(3), of t] show ?thesis
    by (intro quiet_inv [OF inv(1), where t = t and pc = "Add_Blocked x"]) simp_all
next
  case (add_wakes t x r q woken)
  then have "\<not> bq_closed (sy_queue s) \<longrightarrow> queue_size (sy_queue s) < queue_capacity (sy_queue s)"
    using queue_invD(3) [OF inv(1)] by blast
  from add_resume_spec [OF queue_invD(1) [OF inv(1)] this add_wakes(4)] show ?thesis
  proof (elim disjE conjE)
    assume "Returned r = Returned BQ_OK" "added_element x (sy_queue s) q"
    with add_wakes show ?thesis using after_add_inv [OF inv(1,2), of t x q] by simp
  next
    assume "Returned r = Returned BQ_CLOSED" "same_elements (sy_queue s) q"
    with add_wakes show ?thesis by (intro quiet_inv [OF inv(1), where t = t and pc = "Add_Leave r"]) (simp_all add: after_add_def)
  qed
next
  case (get_runs t async r ys q woken)
  from get_section_spec [OF queue_invD(1) [OF inv(1)] get_runs(3)] show ?thesis
  proof (elim disjE conjE)
    assume "Returned r = Returned BQ_OK" "taken_element ys (sy_queue s) q"
    with get_runs show ?thesis using after_get_inv [OF inv(1,2), of t ys q] by simp
  next
    assume "Returned r \<noteq> Returned BQ_OK" "ys = []" "same_elements (sy_queue s) q"
    with get_runs show ?thesis by (intro quiet_inv [OF inv(1), where t = t and pc = "Get_Leave r"]) (simp_all add: after_get_def)
  qed
next
  case (get_blocks t async ys q)
  from get_section_spec [OF queue_invD(1) [OF inv(1)] get_blocks(3)]
  have "same_elements (sy_queue s) q" "queue_size (sy_queue s) = 0" by auto
  with get_blocks unsignalled [OF inv(3), of t] show ?thesis
    by (intro quiet_inv [OF inv(1), where t = t and pc = Get_Blocked]) simp_all
next
  case (get_wakes t r ys q woken)
  then have "\<not> bq_closed (sy_queue s) \<longrightarrow> 0 < queue_size (sy_queue s)"
    using queue_invD(4) [OF inv(1)] by blast
  from get_resume_spec [OF queue_invD(1) [OF inv(1)] this get_wakes(4)] show ?thesis
  proof (elim disjE conjE)
    assume "Returned r = Returned BQ_OK" "taken_element ys (sy_queue s) q"
    with get_wakes show ?thesis using after_get_inv [OF inv(1,2), of t ys q] by simp
  next
    assume "Returned r = Returned BQ_CLOSED" "ys = []" "same_elements (sy_queue s) q"
    with get_wakes show ?thesis by (intro quiet_inv [OF inv(1), where t = t and pc = "Get_Leave r"]) (simp_all add: after_get_def)
  qed
next
  case close
  then show ?thesis using inv(1) by (auto simp: queue_inv_def)
next
  case (close_signal woken)
  then show ?thesis using inv(1) by (auto simp: queue_inv_def)
qed (use inv(1) in \<open>auto simp: queue_inv_def split: if_splits\<close>)

lemma bq_invariants:
  assumes "bq_reachable False capacity junk s" and "capacity < 2 ^ 32"
  shows "queue_inv s \<and> owners_inv s \<and> signalled_inv s \<and> callers_inv s"
  using assms(1)
proof induction
  case start
  then show ?case using assms(2)
    by (auto simp: bq_start_def initial_queue_def queue_inv_def owners_inv_def signalled_inv_def callers_inv_def ring_wf_def contents_def Let_def)
next
  case (step s s')
  then show ?case using queue_step [OF step(2)] owners_step [OF step(2)] signalled_step [OF step(2)] callers_step [OF step(2)] by blast
qed

subsection \<open>Draining a closed queue\<close>

fun pc_weight :: "bool \<Rightarrow> 'a bq_pc \<Rightarrow> nat" where
  "pc_weight woken Idle = 0"
| "pc_weight woken (Leaving r) = 1"
| "pc_weight woken (Add_Leave r) = 2"
| "pc_weight woken (Get_Leave r) = 2"
| "pc_weight woken (Add_Enter async x) = 3"
| "pc_weight woken (Get_Enter async) = 3"
| "pc_weight woken (Add_Blocked x) = (if woken then 3 else 4)"
| "pc_weight woken Get_Blocked = (if woken then 3 else 4)"
| "pc_weight woken (Add_Request async x) = 5"
| "pc_weight woken (Get_Request async) = 5"

definition sys_weight :: "'a bq_sys \<Rightarrow> nat" where
  "sys_weight s = (\<Sum>t | sy_pc s t \<noteq> Idle. pc_weight (t \<in> sy_signalled s) (sy_pc s t))"

lemma sys_weight_decreases:
  assumes "finite {t. sy_pc s t \<noteq> Idle}" and "sy_pc s t \<noteq> Idle"
    and "\<And>u. u \<noteq> t \<Longrightarrow> sy_pc s' u = sy_pc s u" and "\<And>u. u \<noteq> t \<Longrightarrow> u \<in> sy_signalled s' \<longleftrightarrow> u \<in> sy_signalled s"
    and "pc_weight (t \<in> sy_signalled s') (sy_pc s' t) < pc_weight (t \<in> sy_signalled s) (sy_pc s t)"
  shows "sys_weight s' < sys_weight s"
proof -
  let ?A = "{t. sy_pc s t \<noteq> Idle}" and ?w = "\<lambda>s u. pc_weight (u \<in> sy_signalled s) (sy_pc s u)"
  have "sys_weight s' = (\<Sum>u \<in> ?A. ?w s' u)"
    unfolding sys_weight_def
  proof (rule sum.mono_neutral_left [OF assms(1)])
    show "{u. sy_pc s' u \<noteq> Idle} \<subseteq> ?A" using assms(2,3) by (metis (mono_tags, lifting) mem_Collect_eq subsetI)
  qed simp
  also have "\<dots> < (\<Sum>u \<in> ?A. ?w s u)"
  proof (rule sum_strict_mono_ex1 [OF assms(1)])
    show "\<forall>u \<in> ?A. ?w s' u \<le> ?w s u"
    proof
      fix u show "?w s' u \<le> ?w s u" using assms(3-5) by (cases "u = t") simp_all
    qed
    show "\<exists>u \<in> ?A. ?w s' u < ?w s u" using assms(2,5) by blast
  qed
  finally show ?thesis by (simp add: sys_weight_def)
qed

text \<open>One step of a thread that is inside a call and not asking for a lock.\<close>

lemma closed_inside_step:
  assumes fin: "finite {t. sy_pc s t \<noteq> Idle}" and closed: "bq_closed (sy_queue s)" "active_callers_count (sy_queue s) \<noteq> 0"
    and t: "sy_pc s t \<noteq> Idle" "\<And>async x. sy_pc s t \<noteq> Add_Request async x" "\<And>async. sy_pc s t \<noteq> Get_Request async"
    and cap: "is_boundless (sy_queue s) \<longrightarrow> queue_capacity (sy_queue s) < 2 ^ 31"
  shows "\<exists>s'. bq_step False s s' \<and> sys_weight s' < sys_weight s"
proof (cases "blocked (sy_pc s t) \<and> t \<notin> sy_signalled s")
  case True
  then have "signals (sy_pc s) (sy_signalled s) (insert t (sy_signalled s))" by (auto simp: signals_def)
  with closed have "bq_step False s (s\<lparr>sy_signalled := insert t (sy_signalled s)\<rparr>)" by (intro bq_step.close_signal)
  moreover have "sys_weight (s\<lparr>sy_signalled := insert t (sy_signalled s)\<rparr>) < sys_weight s"
    using True by (intro sys_weight_decreases [OF fin t(1)]) (auto dest!: blocked_cases)
  ultimately show ?thesis by blast
next
  case False
  note dec = sys_weight_decreases [OF fin t(1)]
  show ?thesis
  proof (cases "sy_pc s t")
    case (Add_Enter async x)
    have "bq_step False s (after_add t x BQ_CLOSED (sy_queue s) (sy_signalled s) s)"
      using closed cap by (intro bq_step.add_runs [OF Add_Enter]) (simp_all add: add_section_def)
    moreover have "sys_weight (after_add t x BQ_CLOSED (sy_queue s) (sy_signalled s) s) < sys_weight s" by (rule dec) (use Add_Enter in \<open>simp_all add: after_add_def\<close>)
    ultimately show ?thesis by blast
  next
    case (Add_Blocked x)
    have "bq_step False s (after_add t x BQ_CLOSED (sy_queue s) (sy_signalled s - {t}) s)"
      using closed False Add_Blocked by (intro bq_step.add_wakes [OF Add_Blocked]) (simp_all add: add_resume_def)
    moreover have "sys_weight (after_add t x BQ_CLOSED (sy_queue s) (sy_signalled s - {t}) s) < sys_weight s" by (rule dec) (use Add_Blocked False in \<open>simp_all add: after_add_def\<close>)
    ultimately show ?thesis by blast
  next
    case (Add_Leave r)
    then have "sys_weight (s\<lparr>sy_add_owner := None, sy_pc := (sy_pc s)(t := Leaving r)\<rparr>) < sys_weight s" by (intro dec) simp_all
    with bq_step.add_unlock [of s t r False] Add_Leave show ?thesis by blast
  next
    case (Get_Enter async)
    have "bq_step False s (after_get t [] BQ_CLOSED (sy_queue s) (sy_signalled s) s)"
      using closed by (intro bq_step.get_runs [OF Get_Enter]) (simp_all add: get_section_def)
    moreover have "sys_weight (after_get t [] BQ_CLOSED (sy_queue s) (sy_signalled s) s) < sys_weight s" by (rule dec) (use Get_Enter in \<open>simp_all add: after_get_def\<close>)
    ultimately show ?thesis by blast
  next
    case Get_Blocked
    have "bq_step False s (after_get t [] BQ_CLOSED (sy_queue s) (sy_signalled s - {t}) s)"
      using closed False Get_Blocked by (intro bq_step.get_wakes [OF Get_Blocked]) (simp_all add: get_resume_def)
    moreover have "sys_weight (after_get t [] BQ_CLOSED (sy_queue s) (sy_signalled s - {t}) s) < sys_weight s" by (rule dec) (use Get_Blocked False in \<open>simp_all add: after_get_def\<close>)
    ultimately show ?thesis by blast
  next
    case (Get_Leave r)
    then have "sys_weight (s\<lparr>sy_get_owner := None, sy_pc := (sy_pc s)(t := Leaving r)\<rparr>) < sys_weight s" by (intro dec) simp_all
    with bq_step.get_unlock [of s t r False] Get_Leave show ?thesis by blast
  next
    case (Leaving r)
    then have "sys_weight (s\<lparr>sy_queue := decrease_active_callers_count (sy_queue s), sy_pc := (sy_pc s)(t := Idle)\<rparr>) < sys_weight s" by (intro dec) simp_all
    with bq_step.return [of s t r False] Leaving show ?thesis by blast
  qed (use t in auto)
qed

lemma adding_inside: "adding pc \<Longrightarrow> pc \<noteq> Idle \<and> (\<forall>async x. pc \<noteq> Add_Request async x) \<and> (\<forall>async. pc \<noteq> Get_Request async)"
  by (cases pc) auto

lemma getting_inside: "getting pc \<Longrightarrow> pc \<noteq> Idle \<and> (\<forall>async x. pc \<noteq> Add_Request async x) \<and> (\<forall>async. pc \<noteq> Get_Request async)"
  by (cases pc) auto

lemma closed_progress:
  assumes inv: "owners_inv s" "callers_inv s" and closed: "bq_closed (sy_queue s)" and t: "sy_pc s t \<noteq> Idle"
    and cap: "is_boundless (sy_queue s) \<longrightarrow> queue_capacity (sy_queue s) < 2 ^ 31"
  shows "\<exists>s'. bq_step False s s' \<and> sys_weight s' < sys_weight s"
proof -
  have fin: "finite {t. sy_pc s t \<noteq> Idle}" and act: "active_callers_count (sy_queue s) \<noteq> 0"
    using inv(2) t by (auto simp: callers_inv_def)
  note inside = closed_inside_step [OF fin closed act _ _ _ cap]
  show ?thesis
  proof (cases "\<exists>u. sy_pc s u \<noteq> Idle \<and> (\<forall>async x. sy_pc s u \<noteq> Add_Request async x) \<and> (\<forall>async. sy_pc s u \<noteq> Get_Request async)")
    case True
    then show ?thesis using inside by blast
  next
    case False
    then have free: "sy_add_owner s = None" "sy_get_owner s = None"
      using owners_invD(1,2) [OF inv(1)] adding_inside getting_inside by (metis not_None_eq)+
    from False t consider async x where "sy_pc s t = Add_Request async x" | async where "sy_pc s t = Get_Request async" by blast
    then show ?thesis
    proof cases
      case 1
      then have "sys_weight (s\<lparr>sy_add_owner := Some t, sy_pc := (sy_pc s)(t := Add_Enter async x)\<rparr>) < sys_weight s"
        by (intro sys_weight_decreases [OF fin t]) simp_all
      with bq_step.add_locked [OF 1 free(1)] show ?thesis by blast
    next
      case 2
      then have "sys_weight (s\<lparr>sy_get_owner := Some t, sy_pc := (sy_pc s)(t := Get_Enter async)\<rparr>) < sys_weight s"
        by (intro sys_weight_decreases [OF fin t]) simp_all
      with bq_step.get_locked [OF 2 free(2)] show ?thesis by blast
    qed
  qed
qed

text \<open>Steps of a closed queue keep it closed and leave its elements alone.\<close>

lemma closed_step:
  assumes "bq_step spurious s s'" and "bq_closed (sy_queue s)"
  shows "bq_closed (sy_queue s') \<and> sy_added s' = sy_added s \<and> sy_taken s' = sy_taken s \<and> contents (sy_queue s') = contents (sy_queue s) \<and>
    is_boundless (sy_queue s') = is_boundless (sy_queue s) \<and> queue_capacity (sy_queue s') = queue_capacity (sy_queue s)"
  using assms
  by (cases rule: bq_step.cases)
    (auto simp: after_add_def after_get_def add_section_def add_resume_def get_section_def get_resume_def)

lemma closed_drains:
  assumes "queue_inv s" "owners_inv s" "signalled_inv s" "callers_inv s" and "bq_closed (sy_queue s)"
    and "is_boundless (sy_queue s) \<longrightarrow> queue_capacity (sy_queue s) < 2 ^ 31"
  shows "\<exists>s'. (bq_step False)\<^sup>*\<^sup>* s s' \<and> (\<forall>t. sy_pc s' t = Idle) \<and> sy_added s' = sy_added s \<and> sy_taken s' = sy_taken s"
  using assms
proof (induction "sys_weight s" arbitrary: s rule: less_induct)
  case less
  show ?case
  proof (cases "\<forall>t. sy_pc s t = Idle")
    case True
    then show ?thesis by blast
  next
    case False
    then obtain s1 where s1: "bq_step False s s1" "sys_weight s1 < sys_weight s"
      using closed_progress less.prems by metis
    note c = closed_step [OF s1(1) less.prems(5)]
    have "\<exists>s'. (bq_step False)\<^sup>*\<^sup>* s1 s' \<and> (\<forall>t. sy_pc s' t = Idle) \<and> sy_added s' = sy_added s1 \<and> sy_taken s' = sy_taken s1"
      using less.hyps [OF s1(2) queue_step owners_step signalled_step callers_step] s1(1) less.prems c by simp
    then show ?thesis using s1(1) c by (metis converse_rtranclp_into_rtranclp)
  qed
qed

subsection \<open>Properties\<close>


text \<open>A run that is used below: thread 0 adds the element 7 to a queue of capacity one.\<close>

lemma one_added:
  obtains s where "bq_reachable spurious 1 0 s" and "sy_pc s = (\<lambda>t. Idle)(0 := Leaving BQ_OK)" and "sy_add_owner s = None"
    and "sy_get_owner s = None" and "sy_signalled s = {}" and "sy_added s = [7]" and "sy_taken s = []"
    and "sy_queue s = \<lparr>bq_queue = [7 :: nat], queue_capacity = 1, queue_size = 1, queue_front = 0, queue_rear = 0, is_boundless = False,
       active_callers_count = 1, bq_closed = False, get_lock_are_weak_locks_blocked = False, add_lock_are_weak_locks_blocked = False\<rparr>"
proof -
  define s0 where "s0 = bq_start 1 (0 :: nat)"
  define s1 where "s1 = s0\<lparr>sy_queue := increase_active_callers_count (sy_queue s0), sy_pc := (sy_pc s0)(0 := Add_Request False 7)\<rparr>"
  define s2 where "s2 = s1\<lparr>sy_add_owner := Some 0, sy_pc := (sy_pc s1)(0 := Add_Enter False 7)\<rparr>"
  define s3 where "s3 = after_add 0 7 BQ_OK (add_finish 7 (sy_queue s2)) {} s2"
  define s4 where "s4 = s3\<lparr>sy_add_owner := None, sy_pc := (sy_pc s3)(0 := Leaving BQ_OK)\<rparr>"
  note d = s0_def s1_def s2_def s3_def s4_def bq_start_def initial_queue_def after_add_def add_finish_def bq_enqueue_def
    increase_active_callers_count_def uint_wrap_def Let_def
  have "bq_reachable spurious 1 0 s0" unfolding s0_def by (rule bq_reachable.start)
  then have "bq_reachable spurious 1 0 s1" unfolding s1_def by (rule bq_reachable.step) (rule bq_step.add_call, simp add: d)
  then have "bq_reachable spurious 1 0 s2" unfolding s2_def by (rule bq_reachable.step) (rule bq_step.add_locked, simp_all add: d)
  then have "bq_reachable spurious 1 0 s3" unfolding s3_def
    by (rule bq_reachable.step) (rule bq_step.add_runs [where async = False and alloc = True and junk = 0], simp_all add: d add_section_def signals_def)
  then have reach: "bq_reachable spurious 1 0 s4" unfolding s4_def by (rule bq_reachable.step) (rule bq_step.add_unlock, simp add: d)
  show thesis by (rule that [OF reach]) (simp_all add: d)
qed


text \<open>
  C25. Closing the queue drains it: from every reachable state of a closed queue the calls in progress
  can all return, whatever they were waiting for, without another element being added or taken, and no
  step of a closed queue adds or takes one. The counter on which \<^verbatim>\<open>blocking_queue_close\<close> waits is zero exactly
  when no call is in progress.
\<close>

theorem blocking_queue_close_drains:
  assumes "bq_reachable False capacity junk s" and "capacity < 2 ^ 32" and "bq_closed (sy_queue s)"
    and "is_boundless (sy_queue s) \<longrightarrow> queue_capacity (sy_queue s) < 2 ^ 31"
  shows "(\<exists>s'. (bq_step False)\<^sup>*\<^sup>* s s' \<and> (\<forall>t. sy_pc s' t = Idle) \<and> sy_added s' = sy_added s \<and> sy_taken s' = sy_taken s) \<and>
    (\<forall>s'. bq_step False s s' \<longrightarrow> sy_added s' = sy_added s \<and> sy_taken s' = sy_taken s \<and> contents (sy_queue s') = contents (sy_queue s)) \<and>
    (active_callers_count (sy_queue s) = 0 \<longleftrightarrow> (\<forall>t. sy_pc s t = Idle))"
proof -
  have inv: "queue_inv s" "owners_inv s" "signalled_inv s" "callers_inv s" using bq_invariants [OF assms(1,2)] by blast+
  show ?thesis using closed_drains [OF inv assms(3,4)] closed_step [OF _ assms(3)] inv(4) by (auto simp: callers_inv_def)
qed

theorem blocking_queue_close_drains_witness:
  "\<exists>s s' :: nat bq_sys. bq_closed (sy_queue s) \<and> sy_pc s 0 = Leaving BQ_OK \<and> (bq_step False)\<^sup>*\<^sup>* s s' \<and> (\<forall>t. sy_pc s' t = Idle) \<and> sy_added s' = [7 :: nat]"
proof -
  obtain s :: "nat bq_sys" where s: "bq_reachable False 1 0 s" "sy_added s = [7]" "sy_pc s = (\<lambda>t. Idle)(0 := Leaving BQ_OK)"
      and q: "sy_queue s = \<lparr>bq_queue = [7 :: nat], queue_capacity = 1, queue_size = 1, queue_front = 0, queue_rear = 0, is_boundless = False,
       active_callers_count = 1, bq_closed = False, get_lock_are_weak_locks_blocked = False, add_lock_are_weak_locks_blocked = False\<rparr>"
    by (rule one_added [of False])
  have "\<not> bq_closed (sy_queue s)" and "\<not> is_boundless (sy_queue s)" using q by simp_all
  note s = s this
  let ?s = "s\<lparr>sy_queue := blocking_queue_close (sy_queue s)\<rparr>"
  have "bq_reachable False 1 0 ?s" by (rule bq_reachable.step [OF s(1)]) (rule bq_step.close)
  from blocking_queue_close_drains [OF this] s obtain s' where
    "(bq_step False)\<^sup>*\<^sup>* ?s s'" "\<forall>t. sy_pc s' t = Idle" "sy_added s' = sy_added ?s" by auto
  then have "bq_closed (sy_queue ?s) \<and> sy_pc ?s 0 = Leaving BQ_OK \<and> (bq_step False)\<^sup>*\<^sup>* ?s s' \<and> (\<forall>t. sy_pc s' t = Idle) \<and> sy_added s' = [7]"
    using s by simp
  then show ?thesis by (intro exI)
qed

text \<open>
  The wait is not in a loop that checks its condition again, so a wake-up without a signal breaks
  the queue: an adder that is woken spuriously writes into a full queue, which then counts more
  elements than it has places, and the oldest element is lost.
\<close>

theorem spurious_wakeup_overflows_queue:
  "\<exists>s. bq_reachable True 1 (0 :: nat) s \<and> queue_capacity (sy_queue s) < queue_size (sy_queue s) \<and>
     sy_added s = [7, 8] \<and> sy_taken s = [] \<and> contents (sy_queue s) = [8, 8]"
proof -
  obtain s4 :: "nat bq_sys" where s4: "bq_reachable True 1 0 s4" and f: "sy_pc s4 = (\<lambda>t. Idle)(0 := Leaving BQ_OK)"
      "sy_add_owner s4 = None" "sy_signalled s4 = {}" "sy_added s4 = [7]" "sy_taken s4 = []"
      "sy_queue s4 = \<lparr>bq_queue = [7 :: nat], queue_capacity = 1, queue_size = 1, queue_front = 0, queue_rear = 0, is_boundless = False,
       active_callers_count = 1, bq_closed = False, get_lock_are_weak_locks_blocked = False, add_lock_are_weak_locks_blocked = False\<rparr>"
    by (rule one_added [of True])
  define s5 where "s5 = s4\<lparr>sy_queue := increase_active_callers_count (sy_queue s4), sy_pc := (sy_pc s4)(1 := Add_Request False 8)\<rparr>"
  define s6 where "s6 = s5\<lparr>sy_add_owner := Some 1, sy_pc := (sy_pc s5)(1 := Add_Enter False 8)\<rparr>"
  define s7 where "s7 = s6\<lparr>sy_queue := (sy_queue s6)\<lparr>add_lock_are_weak_locks_blocked := True\<rparr>, sy_pc := (sy_pc s6)(1 := Add_Blocked 8)\<rparr>"
  define s8 where "s8 = after_add 1 8 BQ_OK (add_finish 8 (sy_queue s7)) {} s7"
  note d = s5_def s6_def s7_def s8_def after_add_def add_finish_def bq_enqueue_def increase_active_callers_count_def
    uint_wrap_def Let_def f
  have "bq_reachable True 1 0 s5" unfolding s5_def by (rule bq_reachable.step [OF s4]) (rule bq_step.add_call, simp add: d)
  then have "bq_reachable True 1 0 s6" unfolding s6_def by (rule bq_reachable.step) (rule bq_step.add_locked, simp_all add: d)
  then have "bq_reachable True 1 0 s7" unfolding s7_def
    by (rule bq_reachable.step) (rule bq_step.add_blocks [where async = False and alloc = True and junk = 0], simp_all add: d add_section_def)
  then have reach: "bq_reachable True 1 0 s8" unfolding s8_def
    by (rule bq_reachable.step) (rule bq_step.add_wakes, simp_all add: d add_resume_def signals_def)
  have "queue_capacity (sy_queue s8) < queue_size (sy_queue s8)" and "sy_added s8 = [7, 8]" and "sy_taken s8 = []"
    and "contents (sy_queue s8) = [8, 8]" by (simp_all add: d contents_def)
  then show ?thesis by (intro exI [where x = s8] conjI reach)
qed

definition acquisition_order :: "bq_resource list" where
  "acquisition_order = [Main_Mutex, Active_Callers_Mutex, Close_Mutex, Main_Cond, Destroy_Cond, Get_Lock, Add_Lock, Queue_Array]"

text \<open>
  C26. A failing initialisation releases exactly the resources it had acquired, in whatever of its eight
  steps it fails; a successful one acquires all of them and yields an empty queue. Destroying a queue,
  however, leaves the mutex of the caller counter and the two condition variables behind.
\<close>

theorem blocking_queue_resources:
  "(case blocking_queue_init ok capacity junk of
      Inl released \<Rightarrow> released = takeWhile ok acquisition_order \<and> \<not> (\<forall>r. ok r)
    | Inr bq \<Rightarrow> (\<forall>r. ok r) \<and> contents bq = [] \<and> 0 < queue_capacity bq \<and> (is_boundless bq \<longleftrightarrow> capacity = 0)) \<and>
   set acquisition_order - set blocking_queue_destroy = {Active_Callers_Mutex, Main_Cond, Destroy_Cond}"
proof -
  have all: "(\<forall>r. ok r) \<longleftrightarrow> ok Main_Mutex \<and> ok Active_Callers_Mutex \<and> ok Close_Mutex \<and> ok Main_Cond \<and> ok Destroy_Cond \<and>
      ok Get_Lock \<and> ok Add_Lock \<and> ok Queue_Array"
    by (metis bq_resource.exhaust)
  show ?thesis unfolding all
    by (auto simp: blocking_queue_init_def acquisition_order_def blocking_queue_destroy_def initial_queue_def contents_def Let_def)
qed

text \<open>The capacity of a boundless queue wraps to zero when it would reach two to the 32nd.\<close>

lemma grow_wraps_to_zero:
  assumes "queue_capacity bq = 2 ^ 31" and "grow_queue True junk bq = Some bq'"
  shows "queue_capacity bq' = 0"
  using assms by (auto simp: grow_queue_def uint_wrap_def Let_def)

end
