(* ===== verification/CLib.thy ===== *)
theory CLib
  imports AcarsText "HOL-Library.List_Lexorder" "HOL-Library.Multiset"
begin

text \<open>
  Routines of the C library that the file readers and the network front ends use: searching and
  copying strings, \<^verbatim>\<open>atoi\<close>, \<^verbatim>\<open>toupper\<close>, reading a text file by \<^verbatim>\<open>fgets\<close>, and \<^verbatim>\<open>bsearch\<close>. Characters
  are compared as \<^verbatim>\<open>unsigned char\<close>, so that \<^verbatim>\<open>strcmp\<close> is the lexicographic order of strings.

  \<^verbatim>\<open>qsort\<close> promises a sorted permutation and nothing about entries with equal keys. The locale
  \<open>sorted_table\<close> is this contract together with the binary search over its result: a lookup
  fails exactly when no entry has the key, and otherwise returns an entry that has it.
\<close>

section \<open>Strings\<close>

text \<open>The text before and after the first (the last) occurrence of a character.\<close>

fun strchr :: "char \<Rightarrow> string \<Rightarrow> (string \<times> string) option" where
  "strchr c [] = None"
| "strchr c (x # xs) =
     (if x = c then Some ([], xs)
      else case strchr c xs of None \<Rightarrow> None | Some (a, b) \<Rightarrow> Some (x # a, b))"

definition strrchr :: "char \<Rightarrow> string \<Rightarrow> (string \<times> string) option" where
  "strrchr c s = map_option (\<lambda>(a, b). (rev b, rev a)) (strchr c (rev s))"

definition strncpy :: "nat \<Rightarrow> string \<Rightarrow> string" where
  "strncpy n s = take n (cstr s)"

definition toupper :: "char \<Rightarrow> char" where
  "toupper c = (if CHR ''a'' \<le> c \<and> c \<le> CHR ''z'' then char_of (of_char c - 32 :: nat) else c)"

definition atoi :: "string \<Rightarrow> int" where
  "atoi s =
     (let s1 = dropWhile is_space s;
          neg = (s1 \<noteq> [] \<and> hd s1 = CHR ''-'');
          s2 = (if s1 \<noteq> [] \<and> (hd s1 = CHR ''-'' \<or> hd s1 = CHR ''+'') then tl s1 else s1);
          n = int (parse_nat (takeWhile is_digit s2))
      in if neg then - n else n)"

text \<open>
  The successive results of \<^verbatim>\<open>fgets(line, size, f)\<close> on a file with the given contents: up to and
  including a line feed, at most \<open>size - 1\<close> characters.
\<close>

function fgets_lines :: "nat \<Rightarrow> string \<Rightarrow> string list" where
  "fgets_lines sz s =
     (if s = [] \<or> sz < 2 then []
      else let n = min (sz - 1) (length (takeWhile (\<lambda>c. c \<noteq> CHR 0x0A) s) + 1)
           in take n s # fgets_lines sz (drop n s))"
  by pat_completeness auto
termination
  by (relation "measure (\<lambda>(sz, s). length s)") (auto simp: min_def)

declare fgets_lines.simps [simp del]

section \<open>Binary search\<close>

text \<open>\<^verbatim>\<open>bsearch\<close> on the interval from \<open>l\<close> to \<open>u\<close>.\<close>

function bsearch_range :: "('e \<Rightarrow> 'k::linorder) \<Rightarrow> 'k \<Rightarrow> 'e list \<Rightarrow> nat \<Rightarrow> nat \<Rightarrow> 'e option" where
  "bsearch_range key k xs l u =
     (if u \<le> l then None
      else let idx = (l + u) div 2
           in if k < key (xs ! idx) then bsearch_range key k xs l idx
              else if key (xs ! idx) < k then bsearch_range key k xs (idx + 1) u
              else Some (xs ! idx))"
  by pat_completeness auto
termination
  by (relation "measure (\<lambda>(key, k, xs, l, u). u - l)") auto

declare bsearch_range.simps [simp del]

definition bsearch :: "('e \<Rightarrow> 'k::linorder) \<Rightarrow> 'k \<Rightarrow> 'e list \<Rightarrow> 'e option" where
  "bsearch key k xs = bsearch_range key k xs 0 (length xs)"

lemma bsearch_range_empty: "u \<le> l \<Longrightarrow> bsearch_range key k xs l u = None"
  by (subst bsearch_range.simps) simp

lemma bsearch_range_step:
  "\<not> u \<le> l \<Longrightarrow> bsearch_range key k xs l u =
     (if k < key (xs ! ((l + u) div 2)) then bsearch_range key k xs l ((l + u) div 2)
      else if key (xs ! ((l + u) div 2)) < k then bsearch_range key k xs ((l + u) div 2 + 1) u
      else Some (xs ! ((l + u) div 2)))"
  by (subst bsearch_range.simps) (simp add: Let_def)

lemma bsearch_range_Some:
  "bsearch_range key k xs l u = Some e \<Longrightarrow> u \<le> length xs \<Longrightarrow> e \<in> set xs \<and> key e = k"
proof (induction key k xs l u rule: bsearch_range.induct)
  case (1 key k xs l u)
  have n: "\<not> u \<le> l" using "1.prems"(1) bsearch_range_empty [of u l key k xs] by auto
  have m: "(l + u) div 2 < length xs" using n "1.prems"(2) by simp
  show ?case
    using "1.IH"(1) [OF n refl] "1.IH"(2) [OF n refl] "1.prems" m nth_mem [OF m]
    unfolding bsearch_range_step [OF n, of key k xs] by (auto split: if_splits)
qed

lemma bsearch_range_None:
  assumes "bsearch_range key k xs l u = None" "u \<le> length xs" "sorted (map key xs)"
  shows "\<forall>i. l \<le> i \<and> i < u \<longrightarrow> key (xs ! i) \<noteq> k"
  using assms
proof (induction key k xs l u rule: bsearch_range.induct)
  case (1 key k xs l u)
  show ?case
  proof (cases "u \<le> l")
    case False
    define m where "m = (l + u) div 2"
    have m: "l \<le> m" "m < u" using False by (auto simp: m_def)
    have le: "key (xs ! i) \<le> key (xs ! j)" if "i \<le> j" "j < length xs" for i j
      using sorted_nth_mono [OF "1.prems"(3), of i j] that by simp
    note step = "1.prems"(1) [unfolded bsearch_range_step [OF False, of key k xs], folded m_def]
    consider (lo) "k < key (xs ! m)" | (hi) "key (xs ! m) < k" using step by fastforce
    then show ?thesis
    proof cases
      case lo
      then have "\<forall>i. l \<le> i \<and> i < m \<longrightarrow> key (xs ! i) \<noteq> k"
        using "1.IH"(1) [OF False refl, folded m_def] step "1.prems" m by simp
      moreover have "key (xs ! i) \<noteq> k" if "m \<le> i" "i < u" for i
        using lo le [of m i] that "1.prems"(2) by auto
      ultimately show ?thesis by (metis not_le)
    next
      case hi
      then have n: "\<not> k < key (xs ! m)" by simp
      have "\<forall>i. m + 1 \<le> i \<and> i < u \<longrightarrow> key (xs ! i) \<noteq> k"
        using "1.IH"(2) [OF False refl, folded m_def, OF n hi] step n hi "1.prems" by simp
      moreover have "key (xs ! i) \<noteq> k" if "i \<le> m" for i
        using hi le [of i m] that m "1.prems"(2) by auto
      ultimately show ?thesis by (metis Suc_eq_plus1 not_less_eq_eq)
    qed
  qed auto
qed

locale sorted_table =
  fixes key :: "'e \<Rightarrow> 'k::linorder" and qsort :: "'e list \<Rightarrow> 'e list"
  assumes qsort_sorted: "sorted (map key (qsort xs))"
    and qsort_permutes: "mset (qsort xs) = mset xs"
begin

lemma qsort_set [simp]: "set (qsort xs) = set xs"
  using qsort_permutes [of xs] by (metis set_mset_mset)

lemma qsort_length [simp]: "length (qsort xs) = length xs"
  using qsort_permutes [of xs] by (metis size_mset)

lemma lookup_Some: "bsearch key k (qsort xs) = Some e \<Longrightarrow> e \<in> set xs \<and> key e = k"
  unfolding bsearch_def using bsearch_range_Some [of key k "qsort xs" 0 "length (qsort xs)" e] by simp

lemma lookup_None: "bsearch key k (qsort xs) = None \<longleftrightarrow> (\<forall>e \<in> set xs. key e \<noteq> k)"
proof
  assume "bsearch key k (qsort xs) = None"
  then have "\<forall>i < length (qsort xs). key (qsort xs ! i) \<noteq> k"
    using bsearch_range_None [of key k "qsort xs" 0 "length (qsort xs)"] qsort_sorted [of xs]
    by (simp add: bsearch_def)
  then show "\<forall>e \<in> set xs. key e \<noteq> k" by (metis in_set_conv_nth qsort_set)
next
  assume "\<forall>e \<in> set xs. key e \<noteq> k"
  then show "bsearch key k (qsort xs) = None"
    using lookup_Some [of k xs] by (cases "bsearch key k (qsort xs)") auto
qed

lemma lookup_unique:
  assumes "e \<in> set xs" "\<forall>e' \<in> set xs. key e' = key e \<longrightarrow> e' = e"
  shows "bsearch key (key e) (qsort xs) = Some e"
proof (cases "bsearch key (key e) (qsort xs)")
  case None
  then show ?thesis using assms(1) lookup_None [of "key e" xs] by blast
next
  case (Some e')
  then have "e' \<in> set xs" "key e' = key e" using lookup_Some by blast+
  then show ?thesis using Some assms(2) by blast
qed

end

text \<open>A stable sort is one such \<^verbatim>\<open>qsort\<close>.\<close>

lemma sort_key_table: "sorted_table key (sort_key key)"
  by unfold_locales simp_all

section \<open>Facts about the string routines\<close>

lemma strchr_Some: "strchr c s = Some (a, b) \<longleftrightarrow> s = a @ c # b \<and> c \<notin> set a"
proof (induction s arbitrary: a)
  case (Cons x xs)
  show ?case
  proof (cases a)
    case Nil
    then show ?thesis by (cases "strchr c xs") auto
  next
    case (Cons y ys)
    then show ?thesis using Cons.IH [of ys] by (cases "strchr c xs") auto
  qed
qed simp

lemma strchr_None: "strchr c s = None \<longleftrightarrow> c \<notin> set s"
  by (induction s) (auto split: option.splits)

lemma strchr_append: "c \<notin> set a \<Longrightarrow> strchr c (a @ c # b) = Some (a, b)"
  by (simp add: strchr_Some)

lemma strrchr_Some: "strrchr c s = Some (a, b) \<longleftrightarrow> s = a @ c # b \<and> c \<notin> set b"
proof -
  have "strrchr c s = Some (a, b) \<longleftrightarrow> strchr c (rev s) = Some (rev b, rev a)"
    by (auto simp: strrchr_def)
  also have "\<dots> \<longleftrightarrow> rev s = rev (a @ c # b) \<and> c \<notin> set b" by (simp add: strchr_Some)
  finally show ?thesis by (simp only: rev_is_rev_conv)
qed

lemma strrchr_None: "strrchr c s = None \<longleftrightarrow> c \<notin> set s"
  by (simp add: strrchr_def strchr_None)

lemma set_map_filter: "set (List.map_filter f xs) = {y. \<exists>x \<in> set xs. f x = Some y}"
  by (induction xs) (auto simp: List.map_filter_def)

lemma cstr_id: "CHR 0x00 \<notin> set s \<Longrightarrow> cstr s = s"
  by (auto simp: cstr_def takeWhile_eq_all_conv)

lemma strncpy_id: "CHR 0x00 \<notin> set s \<Longrightarrow> length s \<le> n \<Longrightarrow> strncpy n s = s"
  by (simp add: strncpy_def cstr_id)

lemma digit_not_space: "is_digit c \<Longrightarrow> \<not> is_space c \<and> c \<noteq> CHR ''-'' \<and> c \<noteq> CHR ''+''"
  by (auto simp: is_digit_of_char is_space_def)

lemma atoi_dec_nat: "atoi (dec_nat n) = int n"
proof -
  obtain c cs where d: "dec_nat n = c # cs" using dec_nat_nonempty [of n] by (cases "dec_nat n") auto
  have c: "\<not> is_space c" "c \<noteq> CHR ''-''" "c \<noteq> CHR ''+''" using dec_nat_digits [of c n] digit_not_space [of c] d by simp_all
  have "takeWhile is_digit (dec_nat n) = dec_nat n" using dec_nat_digits [of _ n] by (simp only: takeWhile_eq_all_conv) blast
  then have "parse_nat (takeWhile is_digit (c # cs)) = n" using parse_dec_nat [of n] by (simp only: d)
  then show ?thesis using c by (simp add: atoi_def d Let_def)
qed

lemma strrchr_port: "strrchr CHR '':'' (h @ CHR '':'' # dec_nat n) = Some (h, dec_nat n)"
  using dec_nat_digits [of "CHR '':''" n] by (auto simp: strrchr_Some is_digit_def)

lemma fgets_lines_line:
  assumes "CHR 0x0A \<notin> set l" "length l + 1 < sz"
  shows "fgets_lines sz (l @ CHR 0x0A # s) = (l @ [CHR 0x0A]) # fgets_lines sz s"
proof -
  have "takeWhile (\<lambda>c. c \<noteq> CHR 0x0A) (l @ CHR 0x0A # s) = l"
    using assms(1) by (subst takeWhile_append2) auto
  then show ?thesis using assms(2) by (subst fgets_lines.simps) (simp add: Let_def min_absorb2)
qed

lemma fgets_lines_text:
  assumes "\<forall>l \<in> set ls. CHR 0x0A \<notin> set l \<and> length l + 1 < sz"
  shows "fgets_lines sz (concat (map (\<lambda>l. l @ [CHR 0x0A]) ls)) = map (\<lambda>l. l @ [CHR 0x0A]) ls"
  using assms by (induction ls) (simp_all add: fgets_lines.simps [of sz "[]"] fgets_lines_line)

lemma fgets_lines_bounded: "l \<in> set (fgets_lines sz s) \<Longrightarrow> 0 < length l \<and> length l < sz"
proof (induction sz s rule: fgets_lines.induct)
  case (1 sz s)
  show ?case
  proof (cases "s = [] \<or> sz < 2")
    case True
    then show ?thesis using "1.prems" by (subst (asm) fgets_lines.simps) auto
  next
    case False
    then show ?thesis
      using "1.prems" "1.IH" [OF False refl] by (subst (asm) fgets_lines.simps) (auto simp: Let_def)
  qed
qed

end
