(* ===== verification/Vita49.thy ===== *)
theory Vita49
  imports CLib
begin

text \<open>
  The VITA 49 network input of \<^verbatim>\<open>src/vita49.c\<close>: sample packets and context packets arrive as UDP datagrams, optionally in a
  link-layer wrapper, and become the sample buffers of \<^verbatim>\<open>src/sdr.h\<close>. The receive buffer is a list of bytes, of which only
  the first \<open>len\<close> belong to the datagram; the rest is left from earlier ones. The settings that the program keeps in
  global variables, and the counters of the thread, are one record. Whether an allocation succeeds is an argument, and so
  are the results of the socket calls. Fixed-point values become exact reals, and the messages to the error stream are
  left out.
\<close>

unbundle bit_operations_syntax

section \<open>Data\<close>

datatype iq_format = FMT_CI8 | FMT_CI16 | FMT_CF32

definition SAMPLE_FMT_INT8 :: int where "SAMPLE_FMT_INT8 = 0"
definition SAMPLE_FMT_FLOAT :: int where "SAMPLE_FMT_FLOAT = 1"

text \<open>The samples of a buffer: bytes, or the bit patterns of single-precision numbers.\<close>

datatype sample_data = Bytes "u8 list" | Floats "u32 list"

record sample_buf =
  sb_num :: nat
  sb_format :: int
  sb_hw_timestamp_ns :: u64
  sb_samples :: sample_data

record vita49_state =
  v_samp_rate :: real
  v_center_freq :: real
  v_iq_format :: iq_format
  samp_rate_explicit :: bool
  center_freq_explicit :: bool
  iq_format_explicit :: bool
  vita49_ctx_ready :: bool
  ctx_logged :: bool
  last_count :: u32
  have_count :: bool
  total_pkts :: u64
  skipped_pkts :: u64
  gap_pkts :: u64

section \<open>Words in network byte order\<close>

definition be16 :: "u8 list \<Rightarrow> nat \<Rightarrow> u16" where
  "be16 buf off = push_bit 8 (ucast (buf ! off)) OR ucast (buf ! (off + 1))"

definition be32 :: "u8 list \<Rightarrow> nat \<Rightarrow> u32" where
  "be32 buf off =
     push_bit 24 (ucast (buf ! off)) OR push_bit 16 (ucast (buf ! (off + 1))) OR
     push_bit 8 (ucast (buf ! (off + 2))) OR ucast (buf ! (off + 3))"

definition read_be64 :: "u8 list \<Rightarrow> nat \<Rightarrow> u64" where
  "read_be64 buf off = push_bit 32 (ucast (be32 buf off)) OR ucast (be32 buf (off + 4))"

definition VRL_MAGIC :: u32 where "VRL_MAGIC = 0x56524C50"

text \<open>Offset of the packet behind the wrapper, and the length without the wrapper's trailer.\<close>

definition vrl_strip :: "u8 list \<Rightarrow> nat \<Rightarrow> nat \<times> nat" where
  "vrl_strip pkt pkt_len = (if pkt_len \<ge> 12 \<and> be32 pkt 0 = VRL_MAGIC then (8, pkt_len - 4) else (0, pkt_len))"

section \<open>Context packets\<close>

definition CIF_RF_REF_FREQ :: u32 where "CIF_RF_REF_FREQ = push_bit 27 1"
definition CIF_SAMPLE_RATE :: u32 where "CIF_SAMPLE_RATE = push_bit 21 1"
definition CIF_DATA_FORMAT :: u32 where "CIF_DATA_FORMAT = push_bit 15 1"

definition cif_fields :: "(u32 \<times> nat) list" where
  "cif_fields =
     [(push_bit 31 1, 1), (push_bit 30 1, 1), (push_bit 29 1, 2), (push_bit 28 1, 2), (CIF_RF_REF_FREQ, 2),
      (push_bit 26 1, 2), (push_bit 25 1, 2), (push_bit 24 1, 1), (push_bit 23 1, 1), (push_bit 22 1, 1),
      (CIF_SAMPLE_RATE, 2), (push_bit 20 1, 2), (push_bit 19 1, 1), (push_bit 18 1, 1), (push_bit 17 1, 2),
      (push_bit 16 1, 1), (CIF_DATA_FORMAT, 2)]"

definition vrt_parse_data_format :: "u32 \<Rightarrow> iq_format option" where
  "vrt_parse_data_format fmt_word1 =
     (let real_cpx = drop_bit 29 fmt_word1 AND 3;
          dif = drop_bit 24 fmt_word1 AND 0x1F;
          data_bits = (fmt_word1 AND 0x1F) + 1
      in if real_cpx \<noteq> 1 then None
         else if dif = 0
         then if data_bits = 8 then Some FMT_CI8 else if data_bits = 16 then Some FMT_CI16 else None
         else if dif = 14 then Some FMT_CF32 else None)"

record vrt_context =
  ctx_rf :: "real option"
  ctx_sr :: "real option"
  ctx_format :: "iq_format option"

definition fixed_hz :: "u64 \<Rightarrow> real" where
  "fixed_hz val = real_of_int (sint val) / 2 ^ 20"

text \<open>One field of the context: what the loop does with the word offset at which it starts.\<close>

definition ctx_field :: "u8 list \<Rightarrow> nat \<Rightarrow> u32 \<Rightarrow> nat \<Rightarrow> vrt_context \<Rightarrow> vrt_context" where
  "ctx_field buf base b off_w c =
     (if b = CIF_RF_REF_FREQ then c\<lparr>ctx_rf := Some (fixed_hz (read_be64 buf (base + 4 * off_w)))\<rparr>
      else if b = CIF_SAMPLE_RATE then c\<lparr>ctx_sr := Some (fixed_hz (read_be64 buf (base + 4 * off_w)))\<rparr>
      else if b = CIF_DATA_FORMAT then c\<lparr>ctx_format := vrt_parse_data_format (be32 buf (base + 4 * off_w))\<rparr>
      else c)"

text \<open>\<open>None\<close> where the packet is truncated.\<close>

fun ctx_walk :: "u8 list \<Rightarrow> nat \<Rightarrow> nat \<Rightarrow> u32 \<Rightarrow> (u32 \<times> nat) list \<Rightarrow> nat \<Rightarrow> vrt_context \<Rightarrow> vrt_context option" where
  "ctx_walk buf base pkt_size_w cif0 [] off_w c = Some c"
| "ctx_walk buf base pkt_size_w cif0 ((b, words) # fs) off_w c =
     (if cif0 AND b = 0 then ctx_walk buf base pkt_size_w cif0 fs off_w c
      else if off_w + words > pkt_size_w then None
      else ctx_walk buf base pkt_size_w cif0 fs (off_w + words) (ctx_field buf base b off_w c))"

text \<open>The settings after the first useful context; \<open>Inl\<close> where the program exits because of the format.\<close>

datatype vita49_error = Format_Mismatch iq_format iq_format

definition ctx_apply :: "vrt_context \<Rightarrow> vita49_state \<Rightarrow> vita49_error + vita49_state" where
  "ctx_apply c st =
     (let st = st\<lparr>ctx_logged := True\<rparr>;
          st = (case ctx_sr c of Some r \<Rightarrow> if samp_rate_explicit st then st else st\<lparr>v_samp_rate := r\<rparr> | None \<Rightarrow> st);
          st = (case ctx_rf c of Some f \<Rightarrow> if center_freq_explicit st then st else st\<lparr>v_center_freq := f\<rparr> | None \<Rightarrow> st)
      in case ctx_format c of
           None \<Rightarrow> Inr (st\<lparr>vita49_ctx_ready := True\<rparr>)
         | Some f \<Rightarrow>
             if \<not> iq_format_explicit st then Inr (st\<lparr>v_iq_format := f, vita49_ctx_ready := True\<rparr>)
             else if v_iq_format st \<noteq> f then Inl (Format_Mismatch f (v_iq_format st))
             else Inr (st\<lparr>vita49_ctx_ready := True\<rparr>))"

text \<open>Number of words before the context indicators, or before the payload, apart from the stream identifier.\<close>

definition class_words :: "u32 \<Rightarrow> nat" where
  "class_words w0 = (if drop_bit 27 w0 AND 1 \<noteq> 0 then 2 else 0)"

definition time_words :: "u32 \<Rightarrow> nat" where
  "time_words w0 = (if drop_bit 22 w0 AND 3 \<noteq> 0 then 1 else 0) + (if drop_bit 20 w0 AND 3 \<noteq> 0 then 2 else 0)"

definition vrt_handle_context :: "u8 list \<Rightarrow> nat \<Rightarrow> nat \<Rightarrow> vita49_state \<Rightarrow> vita49_error + vita49_state" where
  "vrt_handle_context buf base vrt_len st =
     (if vrt_len < 8 then Inr st
      else let w0 = be32 buf base;
               pkt_size_w = unat (w0 AND 0xFFFF)
           in if pkt_size_w * 4 > vrt_len \<or> pkt_size_w < 2 then Inr st
              else let off_w = 2 + class_words w0 + time_words w0
                   in if off_w \<ge> pkt_size_w then Inr st
                      else let cif0 = be32 buf (base + 4 * off_w)
                           in case ctx_walk buf base pkt_size_w cif0 cif_fields (off_w + 1)
                                     \<lparr>ctx_rf = None, ctx_sr = None, ctx_format = None\<rparr> of
                                None \<Rightarrow> Inr st
                              | Some c \<Rightarrow>
                                  if ctx_rf c = None \<and> ctx_sr c = None \<and> ctx_format c = None then Inr st
                                  else if ctx_logged st then Inr st
                                  else ctx_apply c st)"

section \<open>Sample packets\<close>

definition vrt_parse_header :: "u8 list \<Rightarrow> nat \<Rightarrow> (nat \<times> nat) option" where
  "vrt_parse_header pkt pkt_len =
     (if pkt_len < 4 then None
      else case vrl_strip pkt pkt_len of (vrl_off, pkt_len) \<Rightarrow>
        let w0 = be32 pkt vrl_off;
            pkt_type = drop_bit 28 w0 AND 0xF;
            trailer = drop_bit 26 w0 AND 1;
            pkt_size_w = unat (w0 AND 0xFFFF)
        in if pkt_type \<noteq> 0 \<and> pkt_type \<noteq> 1 then None
           else let vrt_len = pkt_len - vrl_off; pkt_size_bytes = pkt_size_w * 4
                in if pkt_size_bytes > vrt_len \<or> pkt_size_bytes < 4 then None
                   else let hdr_words = 1 + (if pkt_type = 1 then 1 else 0) + class_words w0 + time_words w0;
                            trailer_words = (if trailer \<noteq> 0 then 1 else 0)
                        in if hdr_words + trailer_words \<ge> pkt_size_w then None
                           else Some (vrl_off + hdr_words * 4, (pkt_size_w - hdr_words - trailer_words) * 4))"

text \<open>The \<^verbatim>\<open>switch\<close> on the format; \<open>None\<close> where there is no whole sample or no memory.\<close>

definition vrt_samples :: "bool \<Rightarrow> iq_format \<Rightarrow> u8 list \<Rightarrow> nat \<Rightarrow> nat \<Rightarrow> sample_buf option" where
  "vrt_samples alloc fmt buf off payload_bytes =
     (let buffer = (\<lambda>n f d. if n = 0 \<or> \<not> alloc then None
                             else Some \<lparr>sb_num = n, sb_format = f, sb_hw_timestamp_ns = 0, sb_samples = d\<rparr>)
      in case fmt of
           FMT_CF32 \<Rightarrow>
             let n = payload_bytes div 8
             in buffer n SAMPLE_FMT_FLOAT (Floats (map (\<lambda>i. be32 buf (off + 4 * i)) [0..<n * 2]))
         | FMT_CI16 \<Rightarrow>
             let n = payload_bytes div 4
             in buffer n SAMPLE_FMT_INT8 (Bytes (map (\<lambda>i. ucast (drop_bit 8 (be16 buf (off + 2 * i)))) [0..<n * 2]))
         | FMT_CI8 \<Rightarrow>
             let n = payload_bytes div 2
             in buffer n SAMPLE_FMT_INT8 (Bytes (map (\<lambda>i. buf ! (off + i)) [0..<n * 2])))"

definition count_packet :: "u32 \<Rightarrow> vita49_state \<Rightarrow> vita49_state" where
  "count_packet cnt st =
     (let st = (if have_count st \<and> cnt \<noteq> (last_count st + 1) AND 0xF then st\<lparr>gap_pkts := gap_pkts st + 1\<rparr> else st)
      in st\<lparr>last_count := cnt, have_count := True, total_pkts := total_pkts st + 1\<rparr>)"

text \<open>One datagram: the body of the receive loop behind \<^verbatim>\<open>recvfrom\<close>, with the buffer that goes to \<^verbatim>\<open>push_samples\<close>.\<close>

definition vita49_packet ::
    "bool \<Rightarrow> u8 list \<Rightarrow> nat \<Rightarrow> vita49_state \<Rightarrow> vita49_error + vita49_state \<times> sample_buf option" where
  "vita49_packet alloc buf len st =
     (case vrl_strip buf len of (ctx_off, ctx_len) \<Rightarrow>
        if ctx_len > ctx_off + 4 \<and> drop_bit 28 (be32 buf ctx_off) AND 0xF \<in> {4, 5}
        then map_sum id (\<lambda>st. (st, None)) (vrt_handle_context buf ctx_off (ctx_len - ctx_off) st)
        else case vrt_parse_header buf len of
               None \<Rightarrow> Inr (st\<lparr>skipped_pkts := skipped_pkts st + 1\<rparr>, None)
             | Some (payload_off, payload_bytes) \<Rightarrow>
                 let vrt_off = (if be32 buf 0 = VRL_MAGIC then 8 else 0);
                     cnt = drop_bit 16 (be32 buf vrt_off) AND 0xF
                 in Inr (count_packet cnt st, vrt_samples alloc (v_iq_format st) buf payload_off payload_bytes))"

section \<open>The thread\<close>

definition VITA49_DEFAULT_PORT :: int where "VITA49_DEFAULT_PORT = 4991"

text \<open>Address and port to bind to; \<open>None\<close> for an invalid port.\<close>

definition vita49_bind :: "string option \<Rightarrow> (string \<times> int) option" where
  "vita49_bind endpoint =
     (case endpoint of
        None \<Rightarrow> Some (''0.0.0.0'', VITA49_DEFAULT_PORT)
      | Some ep \<Rightarrow>
          let (bind_addr, port) = (case strrchr CHR '':'' ep of
                Some (host, p) \<Rightarrow> (host, atoi p)
              | None \<Rightarrow> (''0.0.0.0'', atoi ep))
          in if port \<le> 0 \<or> port > 65535 then None else Some (bind_addr, port))"

text \<open>
  What one call of \<^verbatim>\<open>recvfrom\<close> gives: a datagram of the given length, with the contents of the buffer after it, and
  whether memory for its samples is available; an interruption or time-out; or an error.
\<close>

datatype recv = Datagram "u8 list" nat bool | Recv_Again | Recv_Error

fun vita49_loop :: "recv list \<Rightarrow> vita49_state \<Rightarrow> sample_buf list \<Rightarrow> vita49_error + vita49_state \<times> sample_buf list" where
  "vita49_loop [] st out = Inr (st, out)"
| "vita49_loop (Recv_Error # rs) st out = Inr (st, out)"
| "vita49_loop (Recv_Again # rs) st out = vita49_loop rs st out"
| "vita49_loop (Datagram buf len alloc # rs) st out =
     (case vita49_packet alloc buf len st of
        Inl e \<Rightarrow> Inl e
      | Inr (st, sb) \<Rightarrow> vita49_loop rs st (out @ (case sb of None \<Rightarrow> [] | Some b \<Rightarrow> [b])))"

section \<open>No read leaves the datagram\<close>

lemma take_agree_nth: "take n xs = take n ys \<Longrightarrow> i < n \<Longrightarrow> xs ! i = ys ! i"
  by (metis nth_take)

lemma be32_agree: "take n xs = take n ys \<Longrightarrow> i + 4 \<le> n \<Longrightarrow> be32 xs i = be32 ys i"
  using take_agree_nth [of n xs ys i] take_agree_nth [of n xs ys "i + 1"] take_agree_nth [of n xs ys "i + 2"]
    take_agree_nth [of n xs ys "i + 3"] by (simp add: be32_def)

lemma be16_agree: "take n xs = take n ys \<Longrightarrow> i + 2 \<le> n \<Longrightarrow> be16 xs i = be16 ys i"
  using take_agree_nth [of n xs ys i] take_agree_nth [of n xs ys "i + 1"] by (simp add: be16_def)

lemma be64_agree: "take n xs = take n ys \<Longrightarrow> i + 8 \<le> n \<Longrightarrow> read_be64 xs i = read_be64 ys i"
  by (simp add: read_be64_def be32_agree [of n xs ys])

lemma vrl_strip_bounds: "vrl_strip pkt n = (off, m) \<Longrightarrow> off \<le> m \<and> m \<le> n \<and> (off = 0 \<and> m = n \<or> off = 8 \<and> m + 4 = n)"
  by (auto simp: vrl_strip_def split: if_splits)

lemma vrl_strip_agree: "take n xs = take n ys \<Longrightarrow> vrl_strip xs n = vrl_strip ys n"
  by (cases "12 \<le> n") (simp_all add: vrl_strip_def be32_agree [of n xs ys])

lemma cif_fields_words: "(b, w) \<in> set cif_fields \<Longrightarrow> 1 \<le> w \<and> (b \<in> {CIF_RF_REF_FREQ, CIF_SAMPLE_RATE} \<longrightarrow> w = 2)"
  by (auto simp: cif_fields_def CIF_RF_REF_FREQ_def CIF_SAMPLE_RATE_def CIF_DATA_FORMAT_def)

lemma ctx_walk_agree:
  assumes "take n xs = take n ys" "base + 4 * sz \<le> n" "set fs \<subseteq> set cif_fields"
  shows "ctx_walk xs base sz cif0 fs off c = ctx_walk ys base sz cif0 fs off c"
  using assms(3)
proof (induction fs arbitrary: off c)
  case (Cons f fs)
  obtain b w where f: "f = (b, w)" by (cases f)
  have w: "1 \<le> w" "b \<in> {CIF_RF_REF_FREQ, CIF_SAMPLE_RATE} \<longrightarrow> w = 2"
    using Cons.prems cif_fields_words [of b w] by (auto simp: f)
  have "ctx_field xs base b off c = ctx_field ys base b off c" if "off + w \<le> sz"
    using that assms(1,2) w be64_agree [OF assms(1), of "base + 4 * off"] be32_agree [OF assms(1), of "base + 4 * off"]
    by (auto simp: ctx_field_def)
  then show ?case using Cons by (simp add: f)
qed simp

lemma vrt_handle_context_agree:
  assumes "take n xs = take n ys" "base + len \<le> n"
  shows "vrt_handle_context xs base len st = vrt_handle_context ys base len st"
proof (cases "len < 8")
  case False
  then have w0: "be32 xs base = be32 ys base" using be32_agree [OF assms(1), of base] assms(2) by simp
  define sz where "sz = unat (be32 ys base AND 0xFFFF)"
  define off where "off = 2 + class_words (be32 ys base) + time_words (be32 ys base)"
  show ?thesis
  proof (cases "sz * 4 > len \<or> off \<ge> sz")
    case True
    then show ?thesis by (auto simp: vrt_handle_context_def w0 Let_def sz_def off_def)
  next
    case ok: False
    then have "be32 xs (base + 4 * off) = be32 ys (base + 4 * off)"
      using be32_agree [OF assms(1), of "base + 4 * off"] assms(2) by simp
    moreover have "ctx_walk xs base sz cif0 cif_fields (off + 1) c = ctx_walk ys base sz cif0 cif_fields (off + 1) c" for cif0 c
      using ctx_walk_agree [OF assms(1), of base sz cif_fields] ok assms(2) by simp
    ultimately show ?thesis
      unfolding vrt_handle_context_def Let_def w0 sz_def [symmetric] off_def [symmetric] by simp
  qed
qed (simp add: vrt_handle_context_def)

lemma vrt_parse_header_bounds:
  assumes "vrt_parse_header pkt n = Some (off, bytes)"
  shows "off + bytes \<le> n \<and> 4 \<le> off \<and> 4 \<le> n \<and> 4 dvd bytes \<and> 0 < bytes \<and>
    (be32 pkt 0 = VRL_MAGIC \<longrightarrow> 12 \<le> n)"
proof -
  obtain vo m where v: "vrl_strip pkt n = (vo, m)" by (cases "vrl_strip pkt n")
  have t: "drop_bit 28 VRL_MAGIC AND 0xF = 5" by (simp add: VRL_MAGIC_def)
  have "12 \<le> n" if "be32 pkt 0 = VRL_MAGIC"
  proof (rule ccontr)
    assume "\<not> 12 \<le> n"
    then have "vo = 0" using v by (auto simp: vrl_strip_def)
    then show False using assms v that t by (auto simp: vrt_parse_header_def split: if_splits)
  qed
  moreover have "off + bytes \<le> n \<and> 4 \<le> off \<and> 4 \<le> n \<and> 4 dvd bytes \<and> 0 < bytes"
    using assms vrl_strip_bounds [OF v] v by (auto simp: vrt_parse_header_def Let_def split: if_splits)
  ultimately show ?thesis by blast
qed

lemma vrt_parse_header_agree:
  assumes "take n xs = take n ys"
  shows "vrt_parse_header xs n = vrt_parse_header ys n"
proof (cases "n < 4")
  case False
  obtain vo m where v: "vrl_strip xs n = (vo, m)" by (cases "vrl_strip xs n")
  have "vo + 4 \<le> n" using v False by (auto simp: vrl_strip_def split: if_splits)
  then show ?thesis using v vrl_strip_agree [OF assms] be32_agree [OF assms, of vo] by (simp add: vrt_parse_header_def)
qed (simp add: vrt_parse_header_def)

lemma vrt_samples_agree:
  assumes "take n xs = take n ys" "off + bytes \<le> n"
  shows "vrt_samples alloc fmt xs off bytes = vrt_samples alloc fmt ys off bytes"
proof -
  have "be32 xs (off + 4 * i) = be32 ys (off + 4 * i)" if "i < bytes div 8 * 2" for i
    using be32_agree [OF assms(1)] assms(2) that by simp
  moreover have "be16 xs (off + 2 * i) = be16 ys (off + 2 * i)" if "i < bytes div 4 * 2" for i
    using be16_agree [OF assms(1)] assms(2) that by simp
  moreover have "xs ! (off + i) = ys ! (off + i)" if "i < bytes div 2 * 2" for i
    using take_agree_nth [OF assms(1)] assms(2) that by simp
  ultimately show ?thesis by (cases fmt) (simp_all add: vrt_samples_def Let_def cong: map_cong)
qed

text \<open>
  C34. Whatever a datagram contains, handling it reads nothing but its own bytes: two receive
  buffers that agree on the first \<open>len\<close> bytes give the same settings, the same counters and the same samples, whatever
  earlier datagrams left behind them.
\<close>

theorem vita49_reads_in_bounds:
  assumes "take len buf = take len buf'"
  shows "vita49_packet alloc buf len st = vita49_packet alloc buf' len st"
proof -
  obtain off m where v: "vrl_strip buf len = (off, m)" by (cases "vrl_strip buf len")
  note b = vrl_strip_bounds [OF v] and v' = v [unfolded vrl_strip_agree [OF assms]]
  have ctx: "vrt_handle_context buf off (m - off) st = vrt_handle_context buf' off (m - off) st"
    using vrt_handle_context_agree [OF assms] b by simp
  have w: "off + 4 < m \<Longrightarrow> be32 buf off = be32 buf' off" using be32_agree [OF assms] b by simp
  have "vrt_samples alloc f buf o' n' = vrt_samples alloc f buf' o' n' \<and> be32 buf 0 = be32 buf' 0 \<and>
      (be32 buf' 0 = VRL_MAGIC \<longrightarrow> be32 buf 8 = be32 buf' 8)"
    if "vrt_parse_header buf' len = Some (o', n')" for o' n' f
    using vrt_parse_header_bounds [OF that] vrt_samples_agree [OF assms] be32_agree [OF assms] by simp
  then show ?thesis
    by (auto simp: vita49_packet_def v v' ctx w vrt_parse_header_agree [OF assms] Let_def split: option.split)
qed

section \<open>Sample packets arrive\<close>

text \<open>The sender: words in network byte order, the first header word, and a packet with or without the wrapper.\<close>

definition be_bytes :: "u32 \<Rightarrow> u8 list" where
  "be_bytes w = [ucast (drop_bit 24 w), ucast (drop_bit 16 w), ucast (drop_bit 8 w), ucast w]"

definition tx_word0 :: "u32 \<Rightarrow> bool \<Rightarrow> bool \<Rightarrow> u32 \<Rightarrow> u32 \<Rightarrow> u32 \<Rightarrow> nat \<Rightarrow> u32" where
  "tx_word0 ty cid trailer tsi tsf cnt sz =
     push_bit 28 (ty AND mask 4) OR push_bit 27 (of_bool cid) OR push_bit 26 (of_bool trailer) OR
     push_bit 22 (tsi AND mask 2) OR push_bit 20 (tsf AND mask 2) OR push_bit 16 (cnt AND mask 4) OR
     (of_nat sz AND mask 16)"

definition tx_words :: "u32 list \<Rightarrow> u8 list" where
  "tx_words ws = concat (map be_bytes ws)"

definition vrl_wrap :: "(u32 \<times> u32) option \<Rightarrow> u8 list \<Rightarrow> u8 list" where
  "vrl_wrap vrl pkt = (case vrl of None \<Rightarrow> pkt | Some (hdr, crc) \<Rightarrow> tx_words [VRL_MAGIC, hdr] @ pkt @ be_bytes crc)"

lemma length_be_bytes [simp]: "length (be_bytes w) = 4"
  by (simp add: be_bytes_def)

lemma length_tx_words [simp]: "length (tx_words ws) = 4 * length ws"
  by (induction ws) (simp_all add: tx_words_def)

lemma tx_words_append: "tx_words (xs @ ys) = tx_words xs @ tx_words ys"
  by (simp add: tx_words_def)

lemma word_of_bytes:
  fixes w :: u32
  shows "push_bit 24 (ucast (ucast (drop_bit 24 w) :: u8)) OR push_bit 16 (ucast (ucast (drop_bit 16 w) :: u8)) OR
    push_bit 8 (ucast (ucast (drop_bit 8 w) :: u8)) OR ucast (ucast w :: u8) = w" (is "?lhs = w")
proof (rule bit_word_eqI)
  fix n
  assume n: "n < LENGTH(32)"
  then consider "n < 8" | "8 \<le> n" "n < 16" | "16 \<le> n" "n < 24" | "24 \<le> n" "n < 32" by fastforce
  then show "bit ?lhs n = bit w n" using n by cases (auto simp: bit_simps)
qed

lemma be32_bytes: "be32 (pre @ be_bytes w @ post) (length pre) = w"
  by (simp add: be32_def be_bytes_def nth_append word_of_bytes)

lemma be32_words:
  assumes "i < length ws" "buf = pre @ tx_words ws @ post"
  shows "be32 buf (length pre + 4 * i) = ws ! i"
proof -
  have "ws = take i ws @ ws ! i # drop (Suc i) ws" using assms(1) by (simp add: id_take_nth_drop)
  then have "tx_words ws = tx_words (take i ws) @ be_bytes (ws ! i) @ tx_words (drop (Suc i) ws)"
    by (metis append_Cons append_Nil concat.simps(2) list.simps(9) tx_words_append tx_words_def)
  then have "buf = (pre @ tx_words (take i ws)) @ be_bytes (ws ! i) @ (tx_words (drop (Suc i) ws) @ post)"
    using assms(2) by simp
  moreover have "length (pre @ tx_words (take i ws)) = length pre + 4 * i" using assms(1) by simp
  ultimately show ?thesis by (metis be32_bytes)
qed

lemma byte_words:
  assumes "i < length ws" "j < 4" "buf = pre @ tx_words ws @ post"
  shows "buf ! (length pre + (4 * i + j)) = be_bytes (ws ! i) ! j"
proof -
  have "tx_words ws ! (4 * i + j) = be_bytes (ws ! i) ! j" using assms(1,2)
  proof (induction ws arbitrary: i)
    case (Cons w ws)
    then show ?case by (cases i) (simp_all add: tx_words_def nth_append)
  qed simp
  then show ?thesis using assms by (simp add: nth_append)
qed

lemma mask_numerals: "(0xF :: u32) = mask 4" "(3 :: u32) = mask 2" "(1 :: u32) = mask 1" "(0xFFFF :: u32) = mask 16"
  by (simp_all add: mask_eq_exp_minus_1)

lemma bit_tx_word0:
  assumes "i < 32"
  shows "bit (tx_word0 ty cid trailer tsi tsf cnt sz) i \<longleftrightarrow>
    28 \<le> i \<and> bit ty (i - 28) \<or> i = 27 \<and> cid \<or> i = 26 \<and> trailer \<or> 22 \<le> i \<and> i < 24 \<and> bit tsi (i - 22) \<or>
    20 \<le> i \<and> i < 22 \<and> bit tsf (i - 20) \<or> 16 \<le> i \<and> i < 20 \<and> bit cnt (i - 16) \<or> i < 16 \<and> bit (of_nat sz :: u32) i"
proof -
  have m: "bit (push_bit n (x AND mask k) :: u32) i \<longleftrightarrow> n \<le> i \<and> i < n + k \<and> bit x (i - n)"
    if "n + k \<le> 32" for n k x using assms that by (auto simp: bit_simps)
  have b: "bit (push_bit n (of_bool x) :: u32) i \<longleftrightarrow> i = n \<and> x" if "n < 32" for n x
    using assms that by (auto simp: bit_push_bit_iff bit_of_bool_iff)
  have "bit (of_nat sz AND mask 16 :: u32) i \<longleftrightarrow> i < 16 \<and> bit (of_nat sz :: u32) i"
    by (auto simp: bit_and_iff bit_mask_iff)
  then show ?thesis using assms unfolding tx_word0_def by (simp add: bit_or_iff m b del: push_bit_and)
qed

lemma field_eqI:
  fixes v w :: u32
  assumes "\<And>i. i < k \<Longrightarrow> bit w (n + i) = bit v i" and "n + k \<le> 32"
  shows "drop_bit n w AND mask k = v AND mask k"
  using assms by (intro bit_word_eqI) (auto simp: bit_and_iff bit_mask_iff bit_drop_bit_eq)

lemma tx_word0_fields:
  fixes ty tsi tsf cnt :: u32 and cid trailer :: bool and sz :: nat
  defines "w \<equiv> tx_word0 ty cid trailer tsi tsf cnt sz"
  shows "drop_bit 28 w AND 0xF = ty AND 0xF"
    and "drop_bit 27 w AND 1 = of_bool cid"
    and "drop_bit 26 w AND 1 = of_bool trailer"
    and "drop_bit 22 w AND 3 = tsi AND 3"
    and "drop_bit 20 w AND 3 = tsf AND 3"
    and "drop_bit 16 w AND 0xF = cnt AND 0xF"
    and "w AND 0xFFFF = of_nat sz AND 0xFFFF"
proof -
  show "drop_bit 28 w AND 0xF = ty AND 0xF" "drop_bit 22 w AND 3 = tsi AND 3" "drop_bit 20 w AND 3 = tsf AND 3"
    "drop_bit 16 w AND 0xF = cnt AND 0xF"
    unfolding mask_numerals w_def by (rule field_eqI; simp add: bit_tx_word0)+
  have "drop_bit 27 w AND mask 1 = of_bool cid AND mask 1" "drop_bit 26 w AND mask 1 = of_bool trailer AND mask 1"
    unfolding w_def by (rule field_eqI; simp add: bit_tx_word0)+
  then show "drop_bit 27 w AND 1 = of_bool cid" "drop_bit 26 w AND 1 = of_bool trailer"
    by (auto simp: mask_eq_exp_minus_1)
  show "w AND 0xFFFF = of_nat sz AND 0xFFFF"
    using field_eqI [of 16 w 0 "of_nat sz"] unfolding mask_numerals w_def by (simp add: bit_tx_word0)
qed

record vrt_signal =
  sig_stream :: "u32 option"
  sig_class :: "(u32 \<times> u32) option"
  sig_tsi :: "(u32 \<times> u32) option"
  sig_tsf :: "(u32 \<times> u32 \<times> u32) option"
  sig_trailer :: "u32 option"
  sig_count :: u32
  sig_payload :: "u32 list"

definition opt_words :: "(u32 \<times> u32) option \<Rightarrow> (u32 \<times> u32) option \<Rightarrow> (u32 \<times> u32 \<times> u32) option \<Rightarrow> u32 list" where
  "opt_words cid tsi tsf =
     (case cid of None \<Rightarrow> [] | Some (a, b) \<Rightarrow> [a, b]) @ (case tsi of None \<Rightarrow> [] | Some (_, t) \<Rightarrow> [t]) @
     (case tsf of None \<Rightarrow> [] | Some (_, a, b) \<Rightarrow> [a, b])"

definition ts_code :: "(u32 \<times> 'a) option \<Rightarrow> u32" where
  "ts_code t = (case t of None \<Rightarrow> 0 | Some (c, _) \<Rightarrow> c)"

definition ts_ok :: "(u32 \<times> 'a) option \<Rightarrow> bool" where
  "ts_ok t = (case t of None \<Rightarrow> True | Some (c, _) \<Rightarrow> c \<in> {1, 2, 3})"

definition sig_body :: "vrt_signal \<Rightarrow> u32 list" where
  "sig_body p =
     (case sig_stream p of None \<Rightarrow> [] | Some s \<Rightarrow> [s]) @ opt_words (sig_class p) (sig_tsi p) (sig_tsf p)"

definition sig_words :: "vrt_signal \<Rightarrow> u32 list" where
  "sig_words p =
     (let tl = (case sig_trailer p of None \<Rightarrow> [] | Some t \<Rightarrow> [t]);
          rest = sig_body p @ sig_payload p @ tl
      in tx_word0 (of_bool (sig_stream p \<noteq> None)) (sig_class p \<noteq> None) (sig_trailer p \<noteq> None)
           (ts_code (sig_tsi p)) (ts_code (sig_tsf p)) (sig_count p) (1 + length rest) # rest)"

definition sig_wf :: "vrt_signal \<Rightarrow> bool" where
  "sig_wf p \<longleftrightarrow> ts_ok (sig_tsi p) \<and> ts_ok (sig_tsf p) \<and> sig_count p < 16 \<and> sig_payload p \<noteq> [] \<and>
     length (sig_words p) < 2 ^ 16"

text \<open>The samples in a payload, by format.\<close>

definition payload_samples :: "iq_format \<Rightarrow> u32 list \<Rightarrow> sample_buf option" where
  "payload_samples fmt ws =
     (case fmt of
        FMT_CI8 \<Rightarrow> Some \<lparr>sb_num = 2 * length ws, sb_format = 0, sb_hw_timestamp_ns = 0, sb_samples = Bytes (tx_words ws)\<rparr>
      | FMT_CI16 \<Rightarrow> Some \<lparr>sb_num = length ws, sb_format = 0, sb_hw_timestamp_ns = 0,
           sb_samples = Bytes (concat (map (\<lambda>w. [ucast (drop_bit 24 w), ucast (drop_bit 8 w)]) ws))\<rparr>
      | FMT_CF32 \<Rightarrow>
          if length ws < 2 then None
          else Some \<lparr>sb_num = length ws div 2, sb_format = 1, sb_hw_timestamp_ns = 0,
                 sb_samples = Floats (take (2 * (length ws div 2)) ws)\<rparr>)"

lemma word_and_exp: "n < 2 ^ 16 \<Longrightarrow> unat (of_nat n AND 0xFFFF :: u32) = n"
  unfolding mask_numerals
  by (simp add: take_bit_eq_mask [symmetric] take_bit_of_nat take_bit_nat_eq_self_iff unsigned_of_nat)

lemma class_time_words:
  assumes "ts_ok tsi" "ts_ok tsf"
  shows "class_words (tx_word0 ty (cid \<noteq> None) tr (ts_code tsi) (ts_code tsf) cnt sz) +
      time_words (tx_word0 ty (cid \<noteq> None) tr (ts_code tsi) (ts_code tsf) cnt sz) = length (opt_words cid tsi tsf)"
  using assms
  by (auto simp: class_words_def time_words_def tx_word0_fields opt_words_def ts_code_def ts_ok_def split: option.splits)

lemma sig_words_hd:
  assumes "sig_wf p"
  shows "unat (hd (sig_words p) AND 0xFFFF) = length (sig_words p)"
    and "drop_bit 28 (hd (sig_words p)) AND 0xF = of_bool (sig_stream p \<noteq> None)"
    and "drop_bit 26 (hd (sig_words p)) AND 1 = of_bool (sig_trailer p \<noteq> None)"
    and "drop_bit 16 (hd (sig_words p)) AND 0xF = sig_count p"
    and "class_words (hd (sig_words p)) + time_words (hd (sig_words p)) =
      length (opt_words (sig_class p) (sig_tsi p) (sig_tsf p))"
proof -
  have "sig_count p AND 0xF = sig_count p"
    using assms unfolding mask_numerals(1) by (simp add: sig_wf_def take_bit_eq_mask [symmetric] take_bit_eq_mod word_less_nat_alt word_unat_eq_iff unat_mod)
  then show "drop_bit 16 (hd (sig_words p)) AND 0xF = sig_count p"
    by (simp add: sig_words_def Let_def tx_word0_fields)
  show "unat (hd (sig_words p) AND 0xFFFF) = length (sig_words p)"
    using assms by (simp add: sig_wf_def sig_words_def Let_def tx_word0_fields word_and_exp del: of_nat_Suc of_nat_add)
  show "drop_bit 28 (hd (sig_words p)) AND 0xF = of_bool (sig_stream p \<noteq> None)"
    by (auto simp: sig_words_def Let_def tx_word0_fields)
  show "drop_bit 26 (hd (sig_words p)) AND 1 = of_bool (sig_trailer p \<noteq> None)"
    by (auto simp: sig_words_def Let_def tx_word0_fields)
  show "class_words (hd (sig_words p)) + time_words (hd (sig_words p)) =
      length (opt_words (sig_class p) (sig_tsi p) (sig_tsf p))"
    using assms class_time_words by (simp add: sig_words_def Let_def sig_wf_def)
qed

lemma sig_words_length:
  "length (sig_words p) = 1 + length (sig_body p) + length (sig_payload p) + of_bool (sig_trailer p \<noteq> None)"
  "length (sig_body p) = of_bool (sig_stream p \<noteq> None) + length (opt_words (sig_class p) (sig_tsi p) (sig_tsf p))"
  by (simp_all add: sig_words_def sig_body_def Let_def split: option.split)

lemma vrl_wrap_strip:
  assumes "hd ws \<noteq> VRL_MAGIC" and "ws \<noteq> []" and "buf = vrl_wrap vrl (tx_words ws) @ junk"
    and "len = length (vrl_wrap vrl (tx_words ws))"
  defines "off \<equiv> (if vrl = None then 0 else 8)"
  shows "vrl_strip buf len = (off, off + 4 * length ws)"
    and "i < length ws \<Longrightarrow> be32 buf (off + 4 * i) = ws ! i"
    and "be32 buf 0 = VRL_MAGIC \<longleftrightarrow> vrl \<noteq> None"
    and "off + 4 * length ws \<le> len"
proof -
  have "(\<forall>i < length ws. be32 buf (off + 4 * i) = ws ! i) \<and> (be32 buf 0 = VRL_MAGIC \<longleftrightarrow> vrl \<noteq> None)"
  proof (cases vrl)
    case None
    then have b: "\<forall>i < length ws. be32 buf (4 * i) = ws ! i"
      using be32_words [of _ ws buf "[]" junk] assms(3) by (simp add: vrl_wrap_def)
    then have "be32 buf 0 = hd ws" using assms(2) by (metis hd_conv_nth length_greater_0_conv mult_0_right)
    then show ?thesis using assms(1) b None by (auto simp: off_def)
  next
    case (Some v)
    obtain h c where v: "v = (h, c)" by (cases v)
    have "buf = tx_words [VRL_MAGIC, h] @ tx_words ws @ (be_bytes c @ junk)"
      using Some v assms(3) by (simp add: vrl_wrap_def)
    then have "\<forall>i < length ws. be32 buf (8 + 4 * i) = ws ! i" "be32 buf 0 = VRL_MAGIC"
      using be32_words [of _ ws buf "tx_words [VRL_MAGIC, h]" "be_bytes c @ junk"]
        be32_words [of 0 "[VRL_MAGIC, h]" buf "[]" "tx_words ws @ be_bytes c @ junk"] by simp_all
    then show ?thesis using Some by (simp add: off_def)
  qed
  then show "i < length ws \<Longrightarrow> be32 buf (off + 4 * i) = ws ! i" and m: "be32 buf 0 = VRL_MAGIC \<longleftrightarrow> vrl \<noteq> None"
    by blast+
  show "vrl_strip buf len = (off, off + 4 * length ws)" "off + 4 * length ws \<le> len"
    using m assms(2,4) by (cases ws; auto simp: vrl_strip_def off_def vrl_wrap_def split: option.splits)+
qed

lemma parse_signal:
  assumes "sig_wf p" and "buf = vrl_wrap vrl (tx_words (sig_words p)) @ junk"
    and "len = length (vrl_wrap vrl (tx_words (sig_words p)))"
  defines "off \<equiv> (if vrl = None then 0 else 8)"
  shows "vrl_strip buf len = (off, off + 4 * length (sig_words p))"
    and "be32 buf off = hd (sig_words p)"
    and "be32 buf 0 = VRL_MAGIC \<longleftrightarrow> vrl \<noteq> None"
    and "vrt_parse_header buf len = Some (off + 4 * (1 + length (sig_body p)), 4 * length (sig_payload p))"
proof -
  note h = sig_words_hd [OF assms(1)]
  have ne: "sig_words p \<noteq> []" "sig_payload p \<noteq> []" using assms(1) by (simp_all add: sig_words_def Let_def sig_wf_def)
  have "drop_bit 28 VRL_MAGIC AND 0xF = 5" by (simp add: VRL_MAGIC_def)
  then have t: "hd (sig_words p) \<noteq> VRL_MAGIC" using h(2) by (cases "sig_stream p") auto
  note w = vrl_wrap_strip [OF t ne(1) assms(2,3), folded off_def]
  show v: "vrl_strip buf len = (off, off + 4 * length (sig_words p))" and "be32 buf 0 = VRL_MAGIC \<longleftrightarrow> vrl \<noteq> None"
    using w by auto
  show b: "be32 buf off = hd (sig_words p)" using w(2) [of 0] ne by (simp add: hd_conv_nth)
  have "4 \<le> len" using w(4) ne by (cases "sig_words p") auto
  then show "vrt_parse_header buf len = Some (off + 4 * (1 + length (sig_body p)), 4 * length (sig_payload p))"
    using ne h(5) sig_words_length [of p] by (auto simp: vrt_parse_header_def v b h Let_def)
qed

lemma nth_concat_const:
  assumes "\<And>x. length (f x) = k" "i < length xs" "j < k"
  shows "concat (map f xs) ! (k * i + j) = f (xs ! i) ! j"
  using assms(2)
proof (induction xs arbitrary: i)
  case (Cons x xs)
  then show ?case using assms(1,3) by (cases i) (simp_all add: nth_append)
qed simp

lemma nth_concat_div:
  assumes "\<And>x. length (f x) = k" "n < k * length xs"
  shows "concat (map f xs) ! n = f (xs ! (n div k)) ! (n mod k)"
proof -
  have "0 < k" using assms(2) by (cases k) auto
  then show ?thesis
    using nth_concat_const [of f k "n div k" xs "n mod k", OF assms(1)] assms(2)
    by (simp add: less_mult_imp_div_less mult.commute)
qed

lemma high_byte: "ucast (drop_bit 8 (be16 buf o')) = (buf ! o' :: u8)"
  unfolding be16_def by (rule bit_word_eqI) (auto simp: bit_simps dest: bit_imp_le_length)

lemma samples_of_words:
  assumes "buf = pre @ tx_words ws @ post" "ws \<noteq> []"
  shows "vrt_samples True fmt buf (length pre) (4 * length ws) = payload_samples fmt ws"
proof (cases fmt)
  case FMT_CI8
  have "map (\<lambda>i. buf ! (length pre + i)) [0..<4 * length ws] = tx_words ws"
    by (rule nth_equalityI) (simp_all add: assms(1) nth_append)
  then show ?thesis using FMT_CI8 assms(2) by (simp add: vrt_samples_def payload_samples_def SAMPLE_FMT_INT8_def Let_def)
next
  case FMT_CI16
  define f where "f = (\<lambda>w :: u32. [ucast (drop_bit 24 w), ucast (drop_bit 8 w) :: u8])"
  have f: "length (f w) = 2" for w by (simp add: f_def)
  have "buf ! (length pre + 2 * i) = concat (map f ws) ! i" if "i < 2 * length ws" for i
  proof -
    have d: "2 * i = 4 * (i div 2) + 2 * (i mod 2)" "i div 2 < length ws" "i mod 2 < 2" using that by (presburger, auto)
    have "buf ! (length pre + (4 * (i div 2) + 2 * (i mod 2))) = be_bytes (ws ! (i div 2)) ! (2 * (i mod 2))"
      using byte_words [OF d(2) _ assms(1), of "2 * (i mod 2)"] d(3) by simp
    moreover have "be_bytes w ! (2 * (i mod 2)) = f w ! (i mod 2)" for w
      by (cases "i mod 2 = 0") (auto simp: f_def be_bytes_def)
    ultimately show ?thesis using nth_concat_div [of f 2 i ws, OF f] that d(1) by simp
  qed
  moreover have "length (concat (map f ws)) = 2 * length ws" by (induction ws) (simp_all add: f)
  ultimately have "map (\<lambda>i. buf ! (length pre + 2 * i)) [0..<2 * length ws] = concat (map f ws)"
    by (intro nth_equalityI) simp_all
  then show ?thesis using FMT_CI16 assms(2)
    by (simp add: vrt_samples_def payload_samples_def SAMPLE_FMT_INT8_def Let_def high_byte f_def mult.commute)
next
  case FMT_CF32
  have "map (\<lambda>i. be32 buf (length pre + 4 * i)) [0..<length ws div 2 * 2] = take (2 * (length ws div 2)) ws"
    using be32_words [OF _ assms(1)] by (intro nth_equalityI) (simp_all add: mult.commute)
  moreover have "4 * length ws div 8 = length ws div 2" by simp
  ultimately show ?thesis using FMT_CF32
    by (auto simp: vrt_samples_def payload_samples_def SAMPLE_FMT_FLOAT_def Let_def)
qed

lemma signal_packet:
  assumes "sig_wf p"
  shows "vita49_packet True (vrl_wrap vrl (tx_words (sig_words p)) @ junk) (length (vrl_wrap vrl (tx_words (sig_words p)))) st =
    Inr (count_packet (sig_count p) st, payload_samples (v_iq_format st) (sig_payload p))"
proof -
  define buf where "buf = vrl_wrap vrl (tx_words (sig_words p)) @ junk"
  define off :: nat where "off = (if vrl = None then 0 else 8)"
  note s = parse_signal [OF assms buf_def refl, folded off_def] and h = sig_words_hd [OF assms]
  obtain post where post: "buf = (take (off + 4 * (1 + length (sig_body p))) buf) @ tx_words (sig_payload p) @ post"
    and l: "length (take (off + 4 * (1 + length (sig_body p))) buf) = off + 4 * (1 + length (sig_body p))"
  proof -
    define pre where "pre = (case vrl of None \<Rightarrow> [] | Some (h, c) \<Rightarrow> tx_words [VRL_MAGIC, h]) @
        tx_words (hd (sig_words p) # sig_body p)"
    define rest where "rest = (case sig_trailer p of None \<Rightarrow> [] | Some t \<Rightarrow> be_bytes t) @
        (case vrl of None \<Rightarrow> [] | Some (h, c) \<Rightarrow> be_bytes c) @ junk"
    have "buf = pre @ tx_words (sig_payload p) @ rest"
      by (auto simp: buf_def pre_def rest_def vrl_wrap_def sig_words_def Let_def tx_words_def split: option.split)
    moreover have "length pre = off + 4 * (1 + length (sig_body p))"
      by (auto simp: pre_def off_def split: option.split)
    ultimately show ?thesis using that [of rest] by simp
  qed
  have ne: "sig_payload p \<noteq> []" using assms by (simp add: sig_wf_def)
  have smp: "vrt_samples True f buf (off + 4 * (1 + length (sig_body p))) (4 * length (sig_payload p)) =
      payload_samples f (sig_payload p)" for f
    using samples_of_words [OF post ne] l by simp
  have o: "(if be32 buf 0 = VRL_MAGIC then 8 else 0) = off" by (simp add: s(3) off_def)
  have "vita49_packet True buf (length (vrl_wrap vrl (tx_words (sig_words p)))) st =
      Inr (count_packet (sig_count p) st, payload_samples (v_iq_format st) (sig_payload p))"
    unfolding vita49_packet_def s(1,4) o Let_def prod.case option.case s(2) h(2,4) smp by simp
  then show ?thesis by (simp add: buf_def)
qed

text \<open>Packets that follow each other in the sequence of the four-bit counter.\<close>

fun in_sequence :: "u32 \<Rightarrow> vrt_signal list \<Rightarrow> bool" where
  "in_sequence c [] = True"
| "in_sequence c (p # ps) \<longleftrightarrow> sig_count p = (c + 1) AND 0xF \<and> in_sequence (sig_count p) ps"

text \<open>A packet as it is received: with or without wrapper, into a buffer with some remains behind it.\<close>

definition received :: "vrt_signal \<times> (u32 \<times> u32) option \<times> u8 list \<Rightarrow> recv" where
  "received = (\<lambda>(p, vrl, junk).
     let d = vrl_wrap vrl (tx_words (sig_words p)) in Datagram (d @ junk) (length d) True)"

lemma count_packet_next:
  "have_count st \<longrightarrow> cnt = (last_count st + 1) AND 0xF \<Longrightarrow>
   count_packet cnt st = st\<lparr>last_count := cnt, have_count := True, total_pkts := total_pkts st + 1\<rparr>"
  by (simp add: count_packet_def)

text \<open>
  C33. Well-formed sample packets, each with or without link-layer wrapper, stream identifier,
  class identifier, time stamps and trailer, that follow each other in the packet counter are all delivered: the loop pushes
  the samples of every payload, decoded in the configured format and in order, counts every packet, and reports no gap.
\<close>

theorem vita49_stream_delivered:
  assumes "\<forall>(p, _) \<in> set ps. sig_wf p" and "in_sequence c (map fst ps)" and "have_count st \<longrightarrow> last_count st = c"
  shows "\<exists>st'. vita49_loop (map received ps) st out =
      Inr (st', out @ List.map_filter (\<lambda>(p, _). payload_samples (v_iq_format st) (sig_payload p)) ps) \<and>
    total_pkts st' = total_pkts st + of_nat (length ps) \<and> gap_pkts st' = gap_pkts st \<and> skipped_pkts st' = skipped_pkts st"
  using assms
proof (induction ps arbitrary: c st out)
  case (Cons x ps)
  obtain p vrl junk where x: "x = (p, vrl, junk)" by (cases x)
  define st1 where "st1 = count_packet (sig_count p) st"
  have st1: "st1 = st\<lparr>last_count := sig_count p, have_count := True, total_pkts := total_pkts st + 1\<rparr>"
    using Cons.prems(2,3) by (auto simp: st1_def x intro: count_packet_next)
  define out1 where "out1 = out @ (case payload_samples (v_iq_format st) (sig_payload p) of None \<Rightarrow> [] | Some b \<Rightarrow> [b])"
  have "vita49_loop (map received (x # ps)) st out = vita49_loop (map received ps) st1 out1"
    using signal_packet [of p vrl junk st] Cons.prems(1) by (simp add: x received_def Let_def st1_def out1_def)
  moreover have "v_iq_format st1 = v_iq_format st" by (simp add: st1)
  ultimately show ?case
    using Cons.IH [of "sig_count p" st1 out1] Cons.prems
    by (auto simp: x st1 out1_def List.map_filter_def split: option.splits)
qed (simp add: List.map_filter_def)

section \<open>Context packets are applied\<close>

text \<open>
  The sender's context packet: the fields that the indicator word announces, in the order of the standard, possibly
  followed by fields of the lower indicator bits.
\<close>

definition ctx_body :: "(u32 \<Rightarrow> u32 list) \<Rightarrow> u32 \<Rightarrow> (u32 \<times> nat) list \<Rightarrow> u32 list" where
  "ctx_body f cif0 fs = concat (map (\<lambda>(b, _). if cif0 AND b = 0 then [] else f b) fs)"

record vrt_ctx_packet =
  cp_type :: u32
  cp_stream :: u32
  cp_class :: "(u32 \<times> u32) option"
  cp_tsi :: "(u32 \<times> u32) option"
  cp_tsf :: "(u32 \<times> u32 \<times> u32) option"
  cp_count :: u32
  cp_cif0 :: u32
  cp_fields :: "u32 \<Rightarrow> u32 list"
  cp_extra :: "u32 list"

definition ctx_words :: "vrt_ctx_packet \<Rightarrow> u32 list" where
  "ctx_words p =
     (let rest = [cp_stream p] @ opt_words (cp_class p) (cp_tsi p) (cp_tsf p) @ [cp_cif0 p] @
            ctx_body (cp_fields p) (cp_cif0 p) cif_fields @ cp_extra p
      in tx_word0 (cp_type p) (cp_class p \<noteq> None) False (ts_code (cp_tsi p)) (ts_code (cp_tsf p)) (cp_count p)
           (1 + length rest) # rest)"

definition ctx_wf :: "vrt_ctx_packet \<Rightarrow> bool" where
  "ctx_wf p \<longleftrightarrow> cp_type p \<in> {4, 5} \<and> ts_ok (cp_tsi p) \<and> ts_ok (cp_tsf p) \<and>
     (\<forall>(b, w) \<in> set cif_fields. length (cp_fields p b) = w) \<and> length (ctx_words p) < 2 ^ 16 \<and>
     hd (ctx_words p) \<noteq> VRL_MAGIC"

definition ctx_value :: "vrt_ctx_packet \<Rightarrow> u32 \<Rightarrow> real" where
  "ctx_value p b = fixed_hz (push_bit 32 (ucast (cp_fields p b ! 0)) OR ucast (cp_fields p b ! 1))"

definition ctx_has :: "vrt_ctx_packet \<Rightarrow> u32 \<Rightarrow> bool" where
  "ctx_has p b \<longleftrightarrow> cp_cif0 p AND b \<noteq> 0"

definition ctx_of :: "vrt_ctx_packet \<Rightarrow> vrt_context" where
  "ctx_of p = \<lparr>ctx_rf = (if ctx_has p CIF_RF_REF_FREQ then Some (ctx_value p CIF_RF_REF_FREQ) else None),
     ctx_sr = (if ctx_has p CIF_SAMPLE_RATE then Some (ctx_value p CIF_SAMPLE_RATE) else None),
     ctx_format = (if ctx_has p CIF_DATA_FORMAT then vrt_parse_data_format (cp_fields p CIF_DATA_FORMAT ! 0) else None)\<rparr>"

definition ctx_set :: "vrt_ctx_packet \<Rightarrow> u32 \<times> nat \<Rightarrow> vrt_context \<Rightarrow> vrt_context" where
  "ctx_set p = (\<lambda>(b, _) c.
     if \<not> ctx_has p b then c
     else if b = CIF_RF_REF_FREQ then c\<lparr>ctx_rf := Some (ctx_value p b)\<rparr>
     else if b = CIF_SAMPLE_RATE then c\<lparr>ctx_sr := Some (ctx_value p b)\<rparr>
     else if b = CIF_DATA_FORMAT then c\<lparr>ctx_format := vrt_parse_data_format (cp_fields p b ! 0)\<rparr>
     else c)"

lemma ctx_set_simps:
  "b \<noteq> CIF_RF_REF_FREQ \<Longrightarrow> b \<noteq> CIF_SAMPLE_RATE \<Longrightarrow> b \<noteq> CIF_DATA_FORMAT \<Longrightarrow> ctx_set p (b, w) c = c"
  "ctx_set p (CIF_RF_REF_FREQ, w) c =
     c\<lparr>ctx_rf := (if ctx_has p CIF_RF_REF_FREQ then Some (ctx_value p CIF_RF_REF_FREQ) else ctx_rf c)\<rparr>"
  "ctx_set p (CIF_SAMPLE_RATE, w) c =
     c\<lparr>ctx_sr := (if ctx_has p CIF_SAMPLE_RATE then Some (ctx_value p CIF_SAMPLE_RATE) else ctx_sr c)\<rparr>"
  "ctx_set p (CIF_DATA_FORMAT, w) c =
     c\<lparr>ctx_format := (if ctx_has p CIF_DATA_FORMAT then vrt_parse_data_format (cp_fields p CIF_DATA_FORMAT ! 0) else ctx_format c)\<rparr>"
  by (simp_all add: ctx_set_def CIF_RF_REF_FREQ_def CIF_SAMPLE_RATE_def CIF_DATA_FORMAT_def)

lemmas cif_defs = CIF_RF_REF_FREQ_def CIF_SAMPLE_RATE_def CIF_DATA_FORMAT_def

lemma ctx_set_fields: "fold (ctx_set p) cif_fields \<lparr>ctx_rf = None, ctx_sr = None, ctx_format = None\<rparr> = ctx_of p"
  by (simp add: cif_fields_def ctx_of_def ctx_set_simps [unfolded cif_defs, simplified] cif_defs)

lemma ctx_walk_body:
  assumes w: "\<forall>i < length ws. be32 buf (base + 4 * i) = ws ! i"
  shows "drop off ws = ctx_body (cp_fields p) (cp_cif0 p) fs @ extra \<Longrightarrow> off \<le> length ws \<Longrightarrow>
    \<forall>(b, w) \<in> set fs. length (cp_fields p b) = w \<and> (b, w) \<in> set cif_fields \<Longrightarrow>
    ctx_walk buf base (length ws) (cp_cif0 p) fs off c = Some (fold (ctx_set p) fs c)"
proof (induction fs arbitrary: off c)
  case (Cons x fs)
  obtain b n where x: "x = (b, n)" by (cases x)
  show ?case
  proof (cases "cp_cif0 p AND b = 0")
    case True
    then show ?thesis using Cons by (simp add: x ctx_body_def ctx_set_def ctx_has_def)
  next
    case False
    define v where "v = cp_fields p b"
    have d: "drop off ws = v @ ctx_body (cp_fields p) (cp_cif0 p) fs @ extra" "length v = n"
      using Cons.prems False by (auto simp: x v_def ctx_body_def)
    have n: "off + n \<le> length ws" using arg_cong [OF d(1), of length] d(2) Cons.prems(2) unfolding length_drop length_append by linarith
    have v: "be32 buf (base + 4 * (off + i)) = v ! i" if "i < n" for i
      using w [rule_format, of "off + i"] that n d nth_drop [of off ws i] by (simp add: nth_append)
    have cw: "1 \<le> n \<and> (b \<in> {CIF_RF_REF_FREQ, CIF_SAMPLE_RATE} \<longrightarrow> n = 2)"
      using Cons.prems(3) cif_fields_words [of b n] by (simp add: x)
    have "ctx_field buf base b off c = ctx_set p x c"
      using v [of 0] v [of 1] cw False
      by (auto simp: ctx_field_def ctx_set_def ctx_has_def ctx_value_def read_be64_def x v_def algebra_simps)
    moreover have "drop (off + n) ws = ctx_body (cp_fields p) (cp_cif0 p) fs @ extra"
      using d by (metis add.commute append_eq_conv_conj drop_drop)
    ultimately show ?thesis using Cons.IH [of "off + n" "ctx_set p x c"] Cons.prems(3) n False by (simp add: x)
  qed
qed simp

lemma ctx_words_hd:
  assumes "ctx_wf p"
  shows "drop_bit 28 (hd (ctx_words p)) AND 0xF = cp_type p"
    and "unat (hd (ctx_words p) AND 0xFFFF) = length (ctx_words p)"
    and "class_words (hd (ctx_words p)) + time_words (hd (ctx_words p)) =
      length (opt_words (cp_class p) (cp_tsi p) (cp_tsf p))"
proof -
  show "drop_bit 28 (hd (ctx_words p)) AND 0xF = cp_type p"
    using assms by (auto simp: ctx_words_def Let_def tx_word0_fields ctx_wf_def)
  show "unat (hd (ctx_words p) AND 0xFFFF) = length (ctx_words p)"
    using assms by (simp add: ctx_wf_def ctx_words_def Let_def tx_word0_fields word_and_exp del: of_nat_Suc of_nat_add)
  show "class_words (hd (ctx_words p)) + time_words (hd (ctx_words p)) =
      length (opt_words (cp_class p) (cp_tsi p) (cp_tsf p))"
    using assms class_time_words by (simp add: ctx_words_def Let_def ctx_wf_def)
qed

lemma handle_context:
  assumes wf: "ctx_wf p" and w: "\<forall>i < length (ctx_words p). be32 buf (base + 4 * i) = ctx_words p ! i"
  shows "vrt_handle_context buf base (4 * length (ctx_words p)) st =
    (if ctx_rf (ctx_of p) = None \<and> ctx_sr (ctx_of p) = None \<and> ctx_format (ctx_of p) = None \<or> ctx_logged st then Inr st
     else ctx_apply (ctx_of p) st)"
proof -
  note h = ctx_words_hd [OF wf]
  define n where "n = 2 + length (opt_words (cp_class p) (cp_tsi p) (cp_tsf p))"
  have l: "n + 1 \<le> length (ctx_words p)" by (simp add: ctx_words_def Let_def n_def)
  have w0: "be32 buf base = hd (ctx_words p)" using w [rule_format, of 0] l by (cases "ctx_words p") auto
  have o: "2 + class_words (hd (ctx_words p)) + time_words (hd (ctx_words p)) = n" using h(3) by (simp add: n_def)
  have cif: "be32 buf (base + 4 * n) = cp_cif0 p"
    using w [rule_format, of n] l by (simp add: ctx_words_def Let_def n_def nth_append)
  have f: "\<forall>(b, w) \<in> set cif_fields. length (cp_fields p b) = w \<and> (b, w) \<in> set cif_fields"
    using wf by (auto simp: ctx_wf_def)
  have "drop (n + 1) (ctx_words p) = ctx_body (cp_fields p) (cp_cif0 p) cif_fields @ cp_extra p"
    by (simp add: ctx_words_def Let_def n_def)
  then have walk: "ctx_walk buf base (length (ctx_words p)) (cp_cif0 p) cif_fields (n + 1)
      \<lparr>ctx_rf = None, ctx_sr = None, ctx_format = None\<rparr> = Some (ctx_of p)"
    unfolding ctx_set_fields [symmetric] by (rule ctx_walk_body [OF w _ l f])
  have l2: "\<not> 4 * length (ctx_words p) < 8"
    "\<not> (length (ctx_words p) * 4 > 4 * length (ctx_words p) \<or> length (ctx_words p) < 2)" "\<not> n \<ge> length (ctx_words p)"
    using l by (auto simp: n_def)
  show ?thesis
    unfolding vrt_handle_context_def w0 Let_def h(2) o cif walk option.case if_not_P [OF l2(1)] if_not_P [OF l2(2)] if_not_P [OF l2(3)]
    by simp
qed


section \<open>Settings\<close>

text \<open>The settings and counters at the start, without options on the command line.\<close>

definition vita49_init :: vita49_state where
  "vita49_init = \<lparr>v_samp_rate = 10000000, v_center_freq = 1622000000, v_iq_format = FMT_CI8, samp_rate_explicit = False,
     center_freq_explicit = False, iq_format_explicit = False, vita49_ctx_ready = False, ctx_logged = False,
     last_count = 0, have_count = False, total_pkts = 0, skipped_pkts = 0, gap_pkts = 0\<rparr>"

lemma ctx_apply_settings:
  assumes "ctx_apply c st = Inr st'"
  shows "samp_rate_explicit st' = samp_rate_explicit st" "center_freq_explicit st' = center_freq_explicit st"
    "iq_format_explicit st' = iq_format_explicit st" "ctx_logged st'" "vita49_ctx_ready st'"
    "samp_rate_explicit st \<longrightarrow> v_samp_rate st' = v_samp_rate st"
    "center_freq_explicit st \<longrightarrow> v_center_freq st' = v_center_freq st"
    "iq_format_explicit st \<longrightarrow> v_iq_format st' = v_iq_format st"
  using assms by (auto simp: ctx_apply_def Let_def split: option.splits if_splits)

lemma handle_context_settings:
  "vrt_handle_context buf base len st = Inr st' \<Longrightarrow> st' = st \<or> \<not> ctx_logged st \<and> (\<exists>c. ctx_apply c st = Inr st')"
  by (auto simp: vrt_handle_context_def Let_def split: if_splits option.splits)

lemma count_packet_settings [simp]:
  "v_samp_rate (count_packet n st) = v_samp_rate st" "v_center_freq (count_packet n st) = v_center_freq st"
  "v_iq_format (count_packet n st) = v_iq_format st" "samp_rate_explicit (count_packet n st) = samp_rate_explicit st"
  "center_freq_explicit (count_packet n st) = center_freq_explicit st"
  "iq_format_explicit (count_packet n st) = iq_format_explicit st" "ctx_logged (count_packet n st) = ctx_logged st"
  by (simp_all add: count_packet_def Let_def)

text \<open>What the user has set, and what the first useful context has set, is never changed by a packet.\<close>

definition settings_kept :: "vita49_state \<Rightarrow> vita49_state \<Rightarrow> bool" where
  "settings_kept st st' \<longleftrightarrow>
     samp_rate_explicit st' = samp_rate_explicit st \<and> center_freq_explicit st' = center_freq_explicit st \<and>
     iq_format_explicit st' = iq_format_explicit st \<and> (ctx_logged st \<longrightarrow> ctx_logged st') \<and>
     (samp_rate_explicit st \<or> ctx_logged st \<longrightarrow> v_samp_rate st' = v_samp_rate st) \<and>
     (center_freq_explicit st \<or> ctx_logged st \<longrightarrow> v_center_freq st' = v_center_freq st) \<and>
     (iq_format_explicit st \<or> ctx_logged st \<longrightarrow> v_iq_format st' = v_iq_format st)"

lemma packet_settings:
  assumes "vita49_packet alloc buf len st = Inr (st', sb)"
  shows "settings_kept st st'"
proof (cases "\<exists>base n. vrt_handle_context buf base n st = Inr st'")
  case True
  then obtain base n where "vrt_handle_context buf base n st = Inr st'" by blast
  from handle_context_settings [OF this] show ?thesis
    using ctx_apply_settings by (fastforce simp: settings_kept_def)
next
  case False
  then show ?thesis using assms
    by (auto simp: vita49_packet_def settings_kept_def Let_def map_sum_def split: prod.splits if_splits option.splits sum.splits)
qed

lemma settings_kept_trans: "settings_kept a b \<Longrightarrow> settings_kept b c \<Longrightarrow> settings_kept a c"
  unfolding settings_kept_def by metis

lemma vita49_settings_kept:
  "vita49_loop rs st out = Inr (st', out') \<Longrightarrow> settings_kept st st'"
proof (induction rs st out rule: vita49_loop.induct)
  case (4 buf len alloc rs st out)
  then obtain st1 sb where p: "vita49_packet alloc buf len st = Inr (st1, sb)"
    by (auto split: sum.splits)
  then show ?case using 4 packet_settings [OF p] settings_kept_trans by (auto split: sum.splits)
qed (auto simp: settings_kept_def)

text \<open>
  The data format word: complex samples have the code 1 in bits 30 and 29. A word with the code in bits 31 and 30, where
  the comment in the source puts it, is rejected.
\<close>

lemma data_format_position:
  "vrt_parse_data_format 0x2000000F = Some FMT_CI16" "vrt_parse_data_format 0x4000000F = None"
  by (simp_all add: vrt_parse_data_format_def Let_def)

lemma vita49_bind_address:
  "vita49_bind (Some (h @ CHR '':'' # dec_nat n)) = (if 1 \<le> n \<and> n \<le> 65535 then Some (h, int n) else None)"
  by (auto simp: vita49_bind_def strrchr_port atoi_dec_nat)

section \<open>Instances\<close>

lemma vita49_reads_in_bounds_witness:
  "take 8 [0, 0, 0, 2, 1, 2, 3, 4] = take 8 [0, 0, 0, 2, 1, 2, 3, 4, 0xFF :: u8] \<and>
   vita49_packet True [0, 0, 0, 2, 1, 2, 3, 4] 8 vita49_init = vita49_packet True [0, 0, 0, 2, 1, 2, 3, 4, 0xFF] 8 vita49_init"
  using vita49_reads_in_bounds [of 8 "[0, 0, 0, 2, 1, 2, 3, 4]" "[0, 0, 0, 2, 1, 2, 3, 4, 0xFF]" True vita49_init] by simp

definition demo_signal :: vrt_signal where
  "demo_signal = \<lparr>sig_stream = Some 7, sig_class = None, sig_tsi = Some (1, 1700000000), sig_tsf = None,
     sig_trailer = None, sig_count = 5, sig_payload = [0x01020304, 0x7F80FF00]\<rparr>"

lemma demo_signal_wf: "sig_wf demo_signal"
  by (simp add: sig_wf_def demo_signal_def sig_words_def sig_body_def opt_words_def ts_ok_def Let_def)

lemma vita49_stream_delivered_witness:
  "\<exists>st'. vita49_loop [received (demo_signal, None, []), received (demo_signal\<lparr>sig_count := 6\<rparr>, Some (1, 2), [9])] vita49_init [] =
      Inr (st', List.map_filter (\<lambda>p. payload_samples FMT_CI8 (sig_payload p)) [demo_signal, demo_signal]) \<and>
    total_pkts st' = 2 \<and> gap_pkts st' = 0 \<and> skipped_pkts st' = 0"
proof -
  have "sig_wf (demo_signal\<lparr>sig_count := 6\<rparr>)"
    by (simp add: sig_wf_def demo_signal_def sig_words_def sig_body_def opt_words_def ts_ok_def Let_def)
  then show ?thesis
    using vita49_stream_delivered [of "[(demo_signal, None, []), (demo_signal\<lparr>sig_count := 6\<rparr>, Some (1, 2), [9])]" 4 vita49_init "[]"]
      demo_signal_wf
    by (simp add: vita49_init_def demo_signal_def List.map_filter_def payload_samples_def)
qed

definition demo_context :: vrt_ctx_packet where
  "demo_context = \<lparr>cp_type = 4, cp_stream = 7, cp_class = None, cp_tsi = None, cp_tsf = Some (2, 0, 0), cp_count = 0,
     cp_cif0 = 0x28208000,
     cp_fields = (\<lambda>b. if b = CIF_DATA_FORMAT then [0x2000000F, 0]
       else replicate (case map_of cif_fields b of Some n \<Rightarrow> n | None \<Rightarrow> 0) 0x200), cp_extra = []\<rparr>"

lemma demo_context_wf: "ctx_wf demo_context"
  by (simp add: ctx_wf_def demo_context_def ctx_words_def ctx_body_def opt_words_def ts_ok_def ts_code_def Let_def
      cif_fields_def cif_defs tx_word0_def VRL_MAGIC_def mask_eq_exp_minus_1)


end
