(* ===== verification/WaypointDb.thy ===== *)
theory WaypointDb
  imports CLib
begin

text \<open>
  The waypoint database of \<^verbatim>\<open>src/waypoint_db.c\<close>: a text file of identifiers with coordinates is read into a table, sorted,
  and searched by \<^verbatim>\<open>bsearch\<close>. The database is \<open>None\<close> for the null pointer. The contents of the file, \<^verbatim>\<open>qsort\<close>, and the success of
  allocations are arguments. A coordinate that \<^verbatim>\<open>atof\<close> reads as infinite or as not a number is \<open>None\<close>.
\<close>

record wp_entry =
  wp_ident :: string
  wp_lat :: "real option"
  wp_lon :: "real option"

type_synonym waypoint_db = "wp_entry list option"

definition atof :: "string \<Rightarrow> real option" where
  "atof s = (case strtod s of No_Number \<Rightarrow> Some 0 | Not_Finite \<Rightarrow> None | Number x _ \<Rightarrow> Some x)"

definition strip_eol :: "string \<Rightarrow> string" where
  "strip_eol s = rev (dropWhile (\<lambda>c. c = CHR 0x0A \<or> c = CHR 0x0D) (rev s))"

text \<open>The entry of a line, \<open>None\<close> where the loop continues with the next line.\<close>

definition wp_line :: "string \<Rightarrow> wp_entry option" where
  "wp_line line =
     (case strchr CHR '','' (cstr line) of
        None \<Rightarrow> None
      | Some (ident, rest) \<Rightarrow>
          (case strchr CHR '','' rest of
             None \<Rightarrow> None
           | Some (lat_s, lon_s) \<Rightarrow>
               let lon_s = strip_eol lon_s; idlen = length ident
               in if idlen < 2 \<or> idlen > 5 then None
                  else Some \<lparr>wp_ident = strncpy 5 ident, wp_lat = atof lat_s, wp_lon = atof lon_s\<rparr>))"

fun wp_read :: "(nat \<Rightarrow> bool) \<Rightarrow> nat \<Rightarrow> string list \<Rightarrow> wp_entry list \<Rightarrow> wp_entry list" where
  "wp_read mem capacity [] es = es"
| "wp_read mem capacity (l # ls) es =
     (case wp_line l of
        None \<Rightarrow> wp_read mem capacity ls es
      | Some e \<Rightarrow>
          if length es \<ge> capacity
          then if mem (capacity * 2) then wp_read mem (capacity * 2) ls (es @ [e]) else es
          else wp_read mem capacity ls (es @ [e]))"

definition waypoint_db_destroy :: "waypoint_db \<Rightarrow> waypoint_db" where
  "waypoint_db_destroy wpdb = None"

definition waypoint_db_load ::
    "(wp_entry list \<Rightarrow> wp_entry list) \<Rightarrow> (nat \<Rightarrow> bool) \<Rightarrow> string option \<Rightarrow> waypoint_db \<Rightarrow> waypoint_db \<times> int" where
  "waypoint_db_load qsort mem file wpdb =
     (case file of
        None \<Rightarrow> (wpdb, -1)
      | Some text \<Rightarrow>
          let wpdb = waypoint_db_destroy wpdb
          in if \<not> mem 130000 then (wpdb, -1)
             else let es = wp_read mem 130000 (fgets_lines 256 text) []
                  in (Some (qsort es), int (length es)))"

definition waypoint_db_lookup :: "waypoint_db \<Rightarrow> string option \<Rightarrow> (real option \<times> real option) option" where
  "waypoint_db_lookup wpdb ident =
     (case (wpdb, ident) of
        (Some es, Some s) \<Rightarrow>
          if es = [] \<or> cstr s = [] then None
          else map_option (\<lambda>e. (wp_lat e, wp_lon e)) (bsearch wp_ident (strncpy 5 s) es)
      | _ \<Rightarrow> None)"

section \<open>Correctness\<close>

interpretation wp: sorted_table wp_ident "sort_key wp_ident"
  by (rule sort_key_table)

lemma wp_read_all:
  "wp_read (\<lambda>_. True) capacity ls es = es @ List.map_filter wp_line ls"
  by (induction ls arbitrary: capacity es) (auto simp: List.map_filter_def split: option.splits)

lemma wp_read_prefix:
  "\<exists>n. wp_read mem capacity ls es = es @ List.map_filter wp_line (take n ls)"
proof (induction ls arbitrary: capacity es)
  case (Cons l ls)
  show ?case
  proof (cases "wp_line l")
    case None
    obtain n where "wp_read mem capacity ls es = es @ List.map_filter wp_line (take n ls)" using Cons.IH by blast
    then show ?thesis using None by (intro exI [where x = "Suc n"]) (simp add: List.map_filter_def)
  next
    case (Some e)
    show ?thesis
    proof (cases "length es \<ge> capacity \<and> \<not> mem (capacity * 2)")
      case True
      then show ?thesis using Some by (intro exI [where x = 0]) (simp add: List.map_filter_def)
    next
      case False
      obtain n c where "wp_read mem capacity (l # ls) es = wp_read mem c ls (es @ [e])"
        and "wp_read mem c ls (es @ [e]) = (es @ [e]) @ List.map_filter wp_line (take n ls)"
        using Some False Cons.IH [of "capacity * 2" "es @ [e]"] Cons.IH [of capacity "es @ [e]"]
        by (cases "length es \<ge> capacity") auto
      then show ?thesis using Some by (intro exI [where x = "Suc n"]) (simp add: List.map_filter_def)
    qed
  qed
qed (simp add: List.map_filter_def)

text \<open>
  After a file has been loaded, with any sorting routine that keeps the contract of \<^verbatim>\<open>qsort\<close>, a
  lookup fails exactly when no accepted line has the first five characters of the identifier, and otherwise returns the
  coordinates of such a line; if memory runs out while loading, this holds for the lines read before.
\<close>

theorem waypoint_lookup_correct:
  assumes "sorted_table wp_ident qsort" and "waypoint_db_load qsort mem (Some text) wpdb = (Some db, n)" and "cstr s \<noteq> []"
  shows "\<exists>k. let ls = take k (fgets_lines 256 text) in
    (waypoint_db_lookup (Some db) (Some s) = None \<longleftrightarrow>
       (\<forall>l \<in> set ls. \<forall>e. wp_line l = Some e \<longrightarrow> wp_ident e \<noteq> strncpy 5 s)) \<and>
    (\<forall>p. waypoint_db_lookup (Some db) (Some s) = Some p \<longrightarrow>
       (\<exists>l \<in> set ls. \<exists>e. wp_line l = Some e \<and> wp_ident e = strncpy 5 s \<and> p = (wp_lat e, wp_lon e))) \<and>
    n = int (length (List.map_filter wp_line ls)) \<and> ((\<forall>c. mem c) \<longrightarrow> ls = fgets_lines 256 text)"
proof -
  obtain k where k: "wp_read mem 130000 (fgets_lines 256 text) [] = List.map_filter wp_line (take k (fgets_lines 256 text))"
      and full: "(\<forall>c. mem c) \<longrightarrow> take k (fgets_lines 256 text) = fgets_lines 256 text"
  proof (cases "\<forall>c. mem c")
    case True
    then have "mem = (\<lambda>_. True)" by auto
    then show ?thesis using that [of "length (fgets_lines 256 text)"] wp_read_all [of 130000 _ "[]"] by simp
  next
    case False
    then show ?thesis using that wp_read_prefix [of mem 130000 "fgets_lines 256 text" "[]"] by auto
  qed
  define es where "es = List.map_filter wp_line (take k (fgets_lines 256 text))"
  have db: "db = qsort es" "n = int (length es)"
    using assms(2) k by (auto simp: waypoint_db_load_def waypoint_db_destroy_def es_def Let_def split: if_splits)
  have "waypoint_db_lookup (Some db) (Some s) = map_option (\<lambda>e. (wp_lat e, wp_lon e)) (bsearch wp_ident (strncpy 5 s) (qsort es))"
    using assms(3) db by (auto simp: waypoint_db_lookup_def bsearch_def bsearch_range_empty)
  then show ?thesis
    using sorted_table.lookup_None [OF assms(1), of "strncpy 5 s" es] sorted_table.lookup_Some [OF assms(1), of "strncpy 5 s" es]
      full db(2)
    unfolding Let_def by (intro exI [where x = k]) (fastforce simp: es_def set_map_filter)
qed

text \<open>The coordinates of every fix of a well-formed file with distinct identifiers are found.\<close>

definition wp_text :: "(string \<times> string \<times> string) list \<Rightarrow> string" where
  "wp_text fs = concat (map (\<lambda>l. l @ [CHR 0x0A]) (map (\<lambda>(i, a, b). i @ '','' @ a @ '','' @ b) fs))"

definition wp_field :: "string \<Rightarrow> bool" where
  "wp_field s \<longleftrightarrow> set s \<inter> {CHR '','', CHR 0x0A, CHR 0x0D, CHR 0x00} = {}"

lemma wp_line_text:
  assumes "wp_field i" "wp_field a" "wp_field b" "2 \<le> length i" "length i \<le> 5"
  shows "wp_line (i @ '','' @ a @ '','' @ b @ [CHR 0x0A]) = Some \<lparr>wp_ident = i, wp_lat = atof a, wp_lon = atof b\<rparr>"
proof -
  have nz: "cstr (i @ '','' @ a @ '','' @ b @ [CHR 0x0A]) = i @ CHR '','' # a @ CHR '','' # b @ [CHR 0x0A]"
    using assms(1,2,3) by (simp add: cstr_id wp_field_def)
  have "strip_eol (b @ [CHR 0x0A]) = b"
  proof (cases b rule: rev_cases)
    case (snoc ys y)
    then show ?thesis using assms(3) by (auto simp: strip_eol_def wp_field_def)
  qed (simp add: strip_eol_def)
  moreover have "strncpy 5 i = i" using assms(1,5) by (simp add: strncpy_id wp_field_def)
  ultimately show ?thesis using assms unfolding wp_line_def nz
    by (simp add: strchr_append wp_field_def Let_def)
qed

theorem waypoint_roundtrip:
  assumes "sorted_table wp_ident qsort" "distinct (map fst fs)" "(i, a, b) \<in> set fs"
    and "\<forall>(i, a, b) \<in> set fs. wp_field i \<and> wp_field a \<and> wp_field b \<and> 2 \<le> length i \<and> length i \<le> 5 \<and>
      length i + length a + length b < 253"
  shows "waypoint_db_lookup (fst (waypoint_db_load qsort (\<lambda>_. True) (Some (wp_text fs)) wpdb)) (Some i) = Some (atof a, atof b)"
proof -
  define es where "es = map (\<lambda>(i, a, b). \<lparr>wp_ident = i, wp_lat = atof a, wp_lon = atof b\<rparr>) fs"
  define ls where "ls = map (\<lambda>(i, a, b). i @ '','' @ a @ '','' @ b @ [CHR 0x0A]) fs"
  have "fgets_lines 256 (wp_text fs) = ls"
    unfolding wp_text_def using assms(4)
    by (subst fgets_lines_text) (auto simp: wp_field_def ls_def)
  moreover have "List.map_filter wp_line ls = es"
    using assms(4) unfolding ls_def es_def
    by (induction fs) (auto simp: List.map_filter_def wp_line_text [simplified])
  ultimately have load: "waypoint_db_load qsort (\<lambda>_. True) (Some (wp_text fs)) wpdb = (Some (qsort es), int (length es))"
    by (simp add: waypoint_db_load_def wp_read_all Let_def)
  define e where "e = \<lparr>wp_ident = i, wp_lat = atof a, wp_lon = atof b\<rparr>"
  have e: "e \<in> set es" using assms(3) by (force simp: es_def e_def)
  have u: "\<forall>e' \<in> set es. wp_ident e' = wp_ident e \<longrightarrow> e' = e"
  proof (intro ballI impI)
    fix e'
    assume "e' \<in> set es" "wp_ident e' = wp_ident e"
    then obtain a' b' where "(i, a', b') \<in> set fs" "e' = \<lparr>wp_ident = i, wp_lat = atof a', wp_lon = atof b'\<rparr>"
      by (auto simp: es_def e_def)
    then show "e' = e" using eq_key_imp_eq_value [OF assms(2,3)] by (auto simp: e_def)
  qed
  have "bsearch wp_ident i (qsort es) = Some e"
    using sorted_table.lookup_unique [OF assms(1) e u] by (simp add: e_def)
  moreover have "strncpy 5 i = i" "cstr i \<noteq> []" "qsort es \<noteq> []"
    using assms(3,4) e sorted_table.qsort_length [OF assms(1), of es]
    by (auto simp: strncpy_id cstr_id wp_field_def)
  ultimately show ?thesis by (simp add: load waypoint_db_lookup_def e_def)
qed

text \<open>Any characters are accepted as an identifier, and a longer identifier finds the fix with its first five characters.\<close>

lemma waypoint_any_characters: "wp_line ''a1,10,20'' = Some \<lparr>wp_ident = ''a1'', wp_lat = Some 10, wp_lon = Some 20\<rparr>"
  by (simp add: wp_line_def cstr_def Let_def strncpy_def strip_eol_def atof_def strtod_def strtod_unsigned_def is_space_def
      read_mantissa_def read_exponent_def is_digit_def char_digit_def digits_value_base_def lower_char_def)

lemma waypoint_lookup_correct_witness:
  "\<exists>db. waypoint_db_load (sort_key wp_ident) (\<lambda>_. True) (Some ''ABCDE,10,20'') None = (Some db, 1) \<and>
     waypoint_db_lookup (Some db) (Some ''KLMNO'') = None"
proof -
  have f: "fgets_lines 256 ''ABCDE,10,20'' = [''ABCDE,10,20'']"
    by (simp add: fgets_lines.simps)
  have w: "wp_line ''ABCDE,10,20'' = Some \<lparr>wp_ident = ''ABCDE'', wp_lat = Some 10, wp_lon = Some 20\<rparr>"
    by (simp add: wp_line_def cstr_def Let_def strncpy_def strip_eol_def atof_def strtod_def strtod_unsigned_def is_space_def
      read_mantissa_def read_exponent_def is_digit_def char_digit_def digits_value_base_def lower_char_def)
  define db where "db = [\<lparr>wp_ident = ''ABCDE'', wp_lat = Some 10, wp_lon = Some (20 :: real)\<rparr>]"
  have l: "waypoint_db_load (sort_key wp_ident) (\<lambda>_. True) (Some ''ABCDE,10,20'') None = (Some db, 1)"
    by (simp add: waypoint_db_load_def f w wp_read_all List.map_filter_def Let_def db_def)
  have "waypoint_db_lookup (Some db) (Some ''KLMNO'') = None"
    using waypoint_lookup_correct [OF sort_key_table l, of "''KLMNO''"]
    by (auto simp: f w cstr_def strncpy_def Let_def take_Cons')
  then show ?thesis using l by blast
qed

end
