(* ===== verification/AircraftDb.thy ===== *)
theory AircraftDb
  imports CLib
begin

text \<open>
  The aircraft database of \<^verbatim>\<open>src/aircraft_db.c\<close>: a text file of transponder addresses and registrations is read into a table,
  sorted by normalised registration, and searched by \<^verbatim>\<open>bsearch\<close>. The database is \<open>None\<close> for the null pointer. The contents of the
  file, \<^verbatim>\<open>qsort\<close>, and the success of allocations are arguments. \<^verbatim>\<open>aircraft_db_update\<close>, which runs a download command in a
  shell, is not modelled.
\<close>

record db_entry =
  db_reg :: string
  db_hex :: string

type_synonym aircraft_db = "db_entry list option"

definition normalize_reg :: "string \<Rightarrow> nat \<Rightarrow> string" where
  "normalize_reg src dstlen =
     take (dstlen - 1) (map toupper (filter (\<lambda>c. c \<noteq> CHR ''-'' \<and> c \<noteq> CHR '' '') (dropWhile (\<lambda>c. c = CHR ''.'') (cstr src))))"

definition hex_ok :: "string \<Rightarrow> bool" where
  "hex_ok s \<longleftrightarrow> length s = 6 \<and>
     list_all (\<lambda>c. CHR ''0'' \<le> c \<and> c \<le> CHR ''9'' \<or> CHR ''A'' \<le> c \<and> c \<le> CHR ''F'' \<or> CHR ''a'' \<le> c \<and> c \<le> CHR ''f'') s"

text \<open>Address and registration of a line, \<open>None\<close> where the line is skipped before the table is looked at.\<close>

definition db_fields :: "string \<Rightarrow> (string \<times> string) option" where
  "db_fields line =
     (case strchr CHR '';'' (cstr line) of
        None \<Rightarrow> None
      | Some (hex_field, rest) \<Rightarrow>
          let reg_field = (case strchr CHR '';'' rest of Some (r, _) \<Rightarrow> r | None \<Rightarrow> rest)
          in if \<not> hex_ok hex_field then None
             else if reg_field = [] then None
             else Some (hex_field, reg_field))"

definition db_entry_of :: "string \<times> string \<Rightarrow> db_entry option" where
  "db_entry_of = (\<lambda>(hex_field, reg_field).
     let reg = normalize_reg reg_field 12
     in if reg = [] then None else Some \<lparr>db_reg = reg, db_hex = map toupper hex_field\<rparr>)"

fun db_read :: "(nat \<Rightarrow> bool) \<Rightarrow> nat \<Rightarrow> string list \<Rightarrow> db_entry list \<Rightarrow> db_entry list" where
  "db_read mem capacity [] es = es"
| "db_read mem capacity (l # ls) es =
     (case db_fields l of
        None \<Rightarrow> db_read mem capacity ls es
      | Some f \<Rightarrow>
          if length es \<ge> capacity \<and> \<not> mem (capacity * 2) then es
          else let capacity = (if length es \<ge> capacity then capacity * 2 else capacity)
               in case db_entry_of f of
                    None \<Rightarrow> db_read mem capacity ls es
                  | Some e \<Rightarrow> db_read mem capacity ls (es @ [e]))"

definition aircraft_db_destroy :: "aircraft_db \<Rightarrow> aircraft_db" where
  "aircraft_db_destroy db = None"

definition aircraft_db_load ::
    "(db_entry list \<Rightarrow> db_entry list) \<Rightarrow> (nat \<Rightarrow> bool) \<Rightarrow> string option \<Rightarrow> aircraft_db \<Rightarrow> aircraft_db \<times> int" where
  "aircraft_db_load qsort mem file db =
     (case file of
        None \<Rightarrow> (db, -1)
      | Some text \<Rightarrow>
          let db = aircraft_db_destroy db
          in if \<not> mem 700000 then (db, -1)
             else let es = db_read mem 700000 (fgets_lines 512 text) []
                  in (Some (qsort es), int (length es)))"

definition aircraft_db_lookup :: "aircraft_db \<Rightarrow> string option \<Rightarrow> string option" where
  "aircraft_db_lookup db registration =
     (case (db, registration) of
        (Some es, Some s) \<Rightarrow>
          if es = [] \<or> cstr s = [] then None
          else let norm = normalize_reg s 12
               in if norm = [] then None else map_option db_hex (bsearch db_reg norm es)
      | _ \<Rightarrow> None)"

definition aircraft_db_default_path :: "string option \<Rightarrow> string option" where
  "aircraft_db_default_path home = map_option (\<lambda>h. snprintf 512 (h @ ''/.iridium-sniffer/aircraft.csv'')) home"

section \<open>Correctness\<close>

interpretation reg: sorted_table db_reg "sort_key db_reg"
  by (rule sort_key_table)

definition db_line :: "string \<Rightarrow> db_entry option" where
  "db_line l = Option.bind (db_fields l) db_entry_of"

lemma db_read_all: "db_read (\<lambda>_. True) capacity ls es = es @ List.map_filter db_line ls"
  by (induction ls arbitrary: capacity es) (simp_all add: List.map_filter_def db_line_def Let_def split: option.split)

text \<open>
  C36. After a file has been loaded, with any sorting routine that keeps the contract of \<^verbatim>\<open>qsort\<close>, the
  lookup of a registration fails exactly when no accepted line has the same registration up to leading dots, dashes, blanks
  and case, and otherwise returns the six hexadecimal digits of such a line, in upper case.
\<close>

theorem aircraft_lookup_correct:
  assumes "sorted_table db_reg qsort" and "aircraft_db_load qsort (\<lambda>_. True) (Some text) db0 = (db, n)"
    and "normalize_reg s 12 \<noteq> []"
  shows "(aircraft_db_lookup db (Some s) = None \<longleftrightarrow>
       (\<forall>l \<in> set (fgets_lines 512 text). \<forall>h r. db_fields l = Some (h, r) \<longrightarrow> normalize_reg r 12 \<noteq> normalize_reg s 12)) \<and>
    (\<forall>hex. aircraft_db_lookup db (Some s) = Some hex \<longrightarrow>
       (\<exists>l \<in> set (fgets_lines 512 text). \<exists>h r. db_fields l = Some (h, r) \<and> normalize_reg r 12 = normalize_reg s 12 \<and>
          hex = map toupper h \<and> hex_ok h))"
proof -
  define es where "es = List.map_filter db_line (fgets_lines 512 text)"
  have db: "db = Some (qsort es)"
    using assms(2) by (auto simp: aircraft_db_load_def es_def db_read_all Let_def)
  have s: "cstr s \<noteq> []" using assms(3) by (auto simp: normalize_reg_def)
  have look: "aircraft_db_lookup db (Some s) = map_option db_hex (bsearch db_reg (normalize_reg s 12) (qsort es))"
    using assms(3) s by (auto simp: db aircraft_db_lookup_def bsearch_def bsearch_range_empty Let_def)
  have "db_line l = Some e \<longleftrightarrow> (\<exists>h r. db_fields l = Some (h, r) \<and> normalize_reg r 12 \<noteq> [] \<and>
      e = \<lparr>db_reg = normalize_reg r 12, db_hex = map toupper h\<rparr>)" for l e
    by (cases "db_fields l") (auto simp: db_line_def db_entry_of_def Let_def split: if_splits)
  then have es: "e \<in> set es \<longleftrightarrow> (\<exists>l \<in> set (fgets_lines 512 text). \<exists>h r. db_fields l = Some (h, r) \<and> normalize_reg r 12 \<noteq> [] \<and>
      e = \<lparr>db_reg = normalize_reg r 12, db_hex = map toupper h\<rparr>)" for e
    by (simp add: es_def set_map_filter)
  have ok: "hex_ok h" if "db_fields l = Some (h, r)" for l h r
    using that by (auto simp: db_fields_def Let_def split: option.splits if_splits)
  note n = sorted_table.lookup_None [OF assms(1), of "normalize_reg s 12" es]
    and m = sorted_table.lookup_Some [OF assms(1), of "normalize_reg s 12" es]
  show ?thesis
  proof (intro conjI allI impI)
    show "aircraft_db_lookup db (Some s) = None \<longleftrightarrow>
       (\<forall>l \<in> set (fgets_lines 512 text). \<forall>h r. db_fields l = Some (h, r) \<longrightarrow> normalize_reg r 12 \<noteq> normalize_reg s 12)"
      unfolding look map_option_is_None n
    proof (intro iffI ballI allI impI notI)
      fix l h r
      assume a: "\<forall>e \<in> set es. db_reg e \<noteq> normalize_reg s 12" "l \<in> set (fgets_lines 512 text)" "db_fields l = Some (h, r)"
        "normalize_reg r 12 = normalize_reg s 12"
      then have "\<lparr>db_reg = normalize_reg r 12, db_hex = map toupper h\<rparr> \<in> set es"
        using assms(3) unfolding es by (intro bexI [where x = l] exI [where x = h] exI [where x = r]) simp_all
      then show False using a(1,4) by force
    qed (auto simp: es)
  next
    fix hex
    assume "aircraft_db_lookup db (Some s) = Some hex"
    then obtain e where "e \<in> set es" "db_reg e = normalize_reg s 12" "hex = db_hex e" using m by (auto simp: look)
    then show "\<exists>l \<in> set (fgets_lines 512 text). \<exists>h r. db_fields l = Some (h, r) \<and> normalize_reg r 12 = normalize_reg s 12 \<and>
          hex = map toupper h \<and> hex_ok h"
      using ok by (fastforce simp: es)
  qed
qed

lemma of_char_toupper:
  "(of_char (toupper c) :: nat) = (if 97 \<le> (of_char c :: nat) \<and> of_char c \<le> (122 :: nat) then of_char c - 32 else of_char c)"
  by (auto simp: toupper_def less_eq_char_def of_char_of mod_less)

lemma toupper_idem: "toupper (toupper c) = toupper c"
proof -
  have "(of_char (toupper c) :: nat) < 97 \<or> 122 < (of_char (toupper c) :: nat)" by (auto simp: of_char_toupper)
  then show ?thesis by (auto simp: toupper_def [of "toupper c"] less_eq_char_def)
qed

lemma toupper_zero: "toupper c = CHR 0x00 \<Longrightarrow> c = CHR 0x00"
proof -
  assume "toupper c = CHR 0x00"
  then have "(of_char (toupper c) :: nat) = 0" by simp
  then have "(of_char c :: nat) = of_char (CHR 0x00)" by (auto simp: of_char_toupper split: if_splits)
  then show ?thesis by (simp only: of_char_eq_iff)
qed

lemma normalize_reg_short: "length (normalize_reg s 12) \<le> 11"
  by (simp add: normalize_reg_def)

lemma aircraft_lookup_correct_witness:
  "aircraft_db_lookup (fst (aircraft_db_load (sort_key db_reg) (\<lambda>_. True) (Some ''a98539;n-712tw;B762;'') None)) (Some ''.N712TW'') \<noteq> None"
proof -
  have f: "fgets_lines 512 ''a98539;n-712tw;B762;'' = [''a98539;n-712tw;B762;'']"
    by (simp add: fgets_lines.simps)
  have d: "db_fields ''a98539;n-712tw;B762;'' = Some (''a98539'', ''n-712tw'')"
    by (simp add: db_fields_def cstr_def hex_ok_def)
  have n: "normalize_reg ''n-712tw'' 12 = ''N712TW''" "normalize_reg ''.N712TW'' 12 = ''N712TW''"
    by (simp_all add: normalize_reg_def cstr_def toupper_def char_of_def bit_0)
  obtain db k where l: "aircraft_db_load (sort_key db_reg) (\<lambda>_. True) (Some ''a98539;n-712tw;B762;'') None = (db, k)"
    by (cases "aircraft_db_load (sort_key db_reg) (\<lambda>_. True) (Some ''a98539;n-712tw;B762;'') None")
  show ?thesis
    using aircraft_lookup_correct [OF sort_key_table l, of "''.N712TW''"] by (simp add: l f d n)
qed

end
