(* ===== verification/SbsOutput.thy ===== *)
theory SbsOutput
  imports AircraftDb
begin

text \<open>
  The BaseStation (SBS) output of \<^verbatim>\<open>src/basestation.c\<close>: positions of aircraft are written as lines of comma-separated fields to
  the clients of a TCP server, or to a remote host; ground speed and heading are derived from successive positions of the
  same aircraft.

  The state is the file's global variables. The array of clients is the list of its first \<^verbatim>\<open>n_clients\<close> elements and the table of
  previous positions the list of its first \<^verbatim>\<open>bs_track_count\<close> ones. Each operation holds the lock \<^verbatim>\<open>clients_lock\<close> around its accesses to
  the clients, so it is one step. What \<^verbatim>\<open>write\<close> returns, the clock and the results of the socket calls are arguments; writing to
  and closing a descriptor are events. Numbers are exact, and messages to the error stream are left out.
\<close>

section \<open>Data\<close>

definition BS_MAX_CLIENTS :: nat where "BS_MAX_CLIENTS = 16"
definition BS_TRACK_MAX :: nat where "BS_TRACK_MAX = 64"

record bs_track_t =
  tr_hex :: string
  tr_lat :: real
  tr_lon :: real
  tr_timestamp_ns :: u64

record bs_state =
  bs_track :: "bs_track_t list"
  listen_fd :: int
  clients :: "int list"
  bs_active :: bool
  bs_mode :: int
  bs_remote_host :: "string option"
  bs_remote_port :: int
  bs_client_fd :: int

definition bs_initial :: bs_state where
  "bs_initial = \<lparr>bs_track = [], listen_fd = -1, clients = [], bs_active = False, bs_mode = 0, bs_remote_host = None,
     bs_remote_port = 0, bs_client_fd = -1\<rparr>"

datatype bs_event = Written int string | Closed int

section \<open>Connections\<close>

text \<open>The part of the accept loop behind a successful \<^verbatim>\<open>accept\<close>.\<close>

definition bs_accept :: "int \<Rightarrow> bs_state \<Rightarrow> bs_state \<times> bs_event list" where
  "bs_accept client_fd st =
     (if length (clients st) < BS_MAX_CLIENTS then (st\<lparr>clients := clients st @ [client_fd]\<rparr>, [])
      else (st, [Closed client_fd]))"

text \<open>
  \<^verbatim>\<open>bs_client_connect\<close>: the new descriptor if there is one, whether the name is resolved, and whether the host accepts.
\<close>

definition bs_client_connect :: "int option \<Rightarrow> bool \<Rightarrow> bool \<Rightarrow> int option \<times> bs_event list" where
  "bs_client_connect sock resolved accepted =
     (case sock of
        None \<Rightarrow> (None, [])
      | Some fd \<Rightarrow> if resolved \<and> accepted then (Some fd, []) else (None, [Closed fd]))"

definition bs_set_client :: "int \<Rightarrow> bs_state \<Rightarrow> bs_state" where
  "bs_set_client fd st = st\<lparr>bs_client_fd := fd, clients := [fd]\<rparr>"

text \<open>One round of the reconnection thread.\<close>

definition bs_reconnect :: "int option \<Rightarrow> bool \<Rightarrow> bool \<Rightarrow> bs_state \<Rightarrow> bs_state \<times> bs_event list" where
  "bs_reconnect sock resolved accepted st =
     (if bs_client_fd st < 0
      then case bs_client_connect sock resolved accepted of
             (Some fd, ev) \<Rightarrow> (bs_set_client fd st, ev)
           | (None, ev) \<Rightarrow> (st, ev)
      else (st, []))"

text \<open>Host, if any, and port of an endpoint.\<close>

definition bs_endpoint :: "string option \<Rightarrow> string option \<times> int" where
  "bs_endpoint endpoint =
     (case endpoint of
        None \<Rightarrow> (None, 30003)
      | Some s \<Rightarrow>
          if s = [] then (None, 30003)
          else case strrchr CHR '':'' s of
                 Some (h, p) \<Rightarrow> if h \<noteq> [] then (Some h, atoi p) else (None, atoi p)
               | None \<Rightarrow> (None, atoi s))"

text \<open>The results of the socket calls: \<^verbatim>\<open>socket\<close>, \<^verbatim>\<open>bind\<close>, \<^verbatim>\<open>listen\<close>, and those of \<open>bs_client_connect\<close>.\<close>

record bs_net =
  net_socket :: "int option"
  net_bind :: bool
  net_listen :: bool
  net_resolved :: bool
  net_connected :: bool

definition basestation_init :: "bs_net \<Rightarrow> string option \<Rightarrow> bs_state \<Rightarrow> int \<times> bs_state \<times> bs_event list" where
  "basestation_init net endpoint st =
     (case bs_endpoint endpoint of (host, port) \<Rightarrow>
        if port \<le> 0 \<or> port > 65535 then (-1, st, [])
        else let st = st\<lparr>clients := [], bs_active := True\<rparr>
             in case host of
                  Some h \<Rightarrow>
                    let st = st\<lparr>bs_mode := 1, bs_remote_host := Some h, bs_remote_port := port\<rparr>
                    in (case bs_client_connect (net_socket net) (net_resolved net) (net_connected net) of
                          (Some fd, ev) \<Rightarrow> (0, bs_set_client fd st, ev)
                        | (None, ev) \<Rightarrow> (0, st, ev))
                | None \<Rightarrow>
                    let st = st\<lparr>bs_mode := 0\<rparr>
                    in (case net_socket net of
                          None \<Rightarrow> (-1, st\<lparr>listen_fd := -1\<rparr>, [])
                        | Some fd \<Rightarrow>
                            if net_bind net \<and> net_listen net then (0, st\<lparr>listen_fd := fd\<rparr>, [])
                            else (-1, st\<lparr>listen_fd := -1\<rparr>, [Closed fd])))"

definition basestation_destroy :: "bs_state \<Rightarrow> bs_state \<times> bs_event list" where
  "basestation_destroy st =
     (if \<not> bs_active st then (st, [])
      else let st = st\<lparr>bs_active := False\<rparr>;
               ev1 = (if bs_mode st \<noteq> 1 \<and> listen_fd st \<ge> 0 then [Closed (listen_fd st)] else []);
               st = (if bs_mode st \<noteq> 1 then st\<lparr>listen_fd := (if listen_fd st \<ge> 0 then -1 else listen_fd st)\<rparr> else st);
               ev2 = map Closed (clients st);
               ev3 = (if bs_client_fd st \<ge> 0 then [Closed (bs_client_fd st)] else [])
           in (st\<lparr>clients := [], bs_client_fd := (if bs_client_fd st \<ge> 0 then -1 else bs_client_fd st), bs_remote_host := None\<rparr>,
               ev1 @ ev2 @ ev3))"

section \<open>Speed and heading\<close>

definition atan2 :: "real \<Rightarrow> real \<Rightarrow> real" where
  "atan2 y x =
     (if x > 0 then arctan (y / x)
      else if x < 0 then (if y \<ge> 0 then arctan (y / x) + pi else arctan (y / x) - pi)
      else if y > 0 then pi / 2 else if y < 0 then - (pi / 2) else 0)"

definition fmod :: "real \<Rightarrow> real \<Rightarrow> real" where
  "fmod x y = x - y * (if x / y \<ge> 0 then of_int \<lfloor>x / y\<rfloor> else of_int \<lceil>x / y\<rceil>)"

definition bs_distance_nm :: "real \<Rightarrow> real \<Rightarrow> real \<Rightarrow> real \<Rightarrow> real" where
  "bs_distance_nm lat1 lon1 lat2 lon2 =
     (let d2r = pi / 180; dlat = (lat2 - lat1) * d2r; dlon = (lon2 - lon1) * d2r;
          a = sin (dlat / 2) * sin (dlat / 2) + cos (lat1 * d2r) * cos (lat2 * d2r) * sin (dlon / 2) * sin (dlon / 2)
      in 2 * atan2 (sqrt a) (sqrt (1 - a)) * 3440.065)"

definition bs_bearing :: "real \<Rightarrow> real \<Rightarrow> real \<Rightarrow> real \<Rightarrow> real" where
  "bs_bearing lat1 lon1 lat2 lon2 =
     (let d2r = pi / 180; dlon = (lon2 - lon1) * d2r;
          y = sin dlon * cos (lat2 * d2r);
          x = cos (lat1 * d2r) * sin (lat2 * d2r) - sin (lat1 * d2r) * cos (lat2 * d2r) * cos dlon;
          brg = atan2 y x * 180 / pi
      in fmod (brg + 360) 360)"

fun find_hex :: "string \<Rightarrow> bs_track_t list \<Rightarrow> nat option" where
  "find_hex hex [] = None"
| "find_hex hex (t # ts) = (if tr_hex t = hex then Some 0 else map_option Suc (find_hex hex ts))"

text \<open>The first entry with the least time stamp; \<open>oldest\<close> starts with the largest number.\<close>

definition oldest_track :: "bs_track_t list \<Rightarrow> nat" where
  "oldest_track ts =
     snd (fold (\<lambda>i (oldest, idx). if tr_timestamp_ns (ts ! i) < oldest then (tr_timestamp_ns (ts ! i), i) else (oldest, idx))
       [0..<BS_TRACK_MAX] (- 1, 0))"

definition derived :: "bs_track_t \<Rightarrow> real \<Rightarrow> real \<Rightarrow> u64 \<Rightarrow> (real \<times> real) option" where
  "derived t lat lon ts =
     (let dt_sec = real (unat (ts - tr_timestamp_ns t)) / 10 ^ 9
      in if dt_sec > 10 \<and> dt_sec < 7200
         then let dist = bs_distance_nm (tr_lat t) (tr_lon t) lat lon;
                  speed = dist / (dt_sec / 3600)
              in if speed > 0.5 \<and> speed < 700 then Some (speed, bs_bearing (tr_lat t) (tr_lon t) lat lon) else None
         else None)"

definition bs_derive_track :: "string \<Rightarrow> real \<Rightarrow> real \<Rightarrow> u64 \<Rightarrow> bs_track_t list \<Rightarrow> bs_track_t list \<times> (real \<times> real) option" where
  "bs_derive_track hex lat lon ts track =
     (case find_hex hex track of
        Some idx \<Rightarrow>
          (track[idx := (track ! idx)\<lparr>tr_lat := lat, tr_lon := lon, tr_timestamp_ns := ts\<rparr>], derived (track ! idx) lat lon ts)
      | None \<Rightarrow>
          let e = \<lparr>tr_hex = strncpy 6 hex, tr_lat = lat, tr_lon = lon, tr_timestamp_ns = ts\<rparr>
          in (if length track < BS_TRACK_MAX then track @ [e] else track[oldest_track track := e], None))"

section \<open>Sending a position\<close>

text \<open>Date and time of day as \<^verbatim>\<open>gmtime_r\<close> and \<^verbatim>\<open>strftime\<close> give them, for times since 1970.\<close>

definition sbs_date :: "nat \<Rightarrow> string" where
  "sbs_date sec =
     (case split_year 1970 (sec div 86400) of (y, yd) \<Rightarrow>
      case split_month (month_days y) 1 yd of (m, md) \<Rightarrow>
        dec_nat y @ ''/'' @ two_digits m @ ''/'' @ two_digits (md + 1))"

definition sbs_time :: "nat \<Rightarrow> string" where
  "sbs_time sec =
     two_digits (sec mod 86400 div 3600) @ '':'' @ two_digits (sec mod 3600 div 60) @ '':'' @ two_digits (sec mod 60) @ ''.000''"

definition bs_message ::
    "nat \<Rightarrow> string \<Rightarrow> string option \<Rightarrow> real \<Rightarrow> real \<Rightarrow> int \<Rightarrow> (real \<times> real) option \<Rightarrow> string" where
  "bs_message now hex flight lat lon alt_ft track =
     (let d = sbs_date now; t = sbs_time now;
          f = (case flight of Some s \<Rightarrow> cstr s | None \<Rightarrow> []);
          head = ''MSG,3,1,1,'' @ hex @ '',1,'' @ d @ '','' @ t @ '','' @ d @ '','' @ t @ '','' @ f @ '','';
          tail = fixed 6 lat @ '','' @ fixed 6 lon @ '',,,,,,0'' @ [CHR 0x0D, CHR 0x0A]
      in if alt_ft > -99999
         then (case track of
                 Some (gs, deg) \<Rightarrow> head @ dec_int alt_ft @ '','' @ fixed 0 gs @ '','' @ fixed 0 deg @ '','' @ tail
               | None \<Rightarrow> head @ dec_int alt_ft @ '',,,'' @ tail)
         else (case track of
                 Some (gs, deg) \<Rightarrow> head @ '','' @ fixed 0 gs @ '','' @ fixed 0 deg @ '','' @ tail
               | None \<Rightarrow> head @ '',,,'' @ tail))"

text \<open>What \<^verbatim>\<open>write\<close> returns: a number of bytes, or an error that is or is not a full buffer.\<close>

datatype write_result = Wrote nat | Would_Block | Write_Failed

text \<open>The loop over the clients, from index \<open>i\<close>; it ends at the first connection that is lost.\<close>

function bs_write_loop :: "(int \<Rightarrow> write_result) \<Rightarrow> string \<Rightarrow> nat \<Rightarrow> bs_state \<Rightarrow> bs_state \<times> bs_event list" where
  "bs_write_loop wr msg i st =
     (if i < length (clients st)
      then if wr (clients st ! i) = Write_Failed
           then ((if bs_mode st = 1 then st\<lparr>bs_client_fd := -1, clients := []\<rparr>
                  else st\<lparr>clients := butlast ((clients st)[i := last (clients st)])\<rparr>),
                 [Closed (clients st ! i)])
           else (case bs_write_loop wr msg (i + 1) st of (st', ev) \<Rightarrow>
                   (st', (case wr (clients st ! i) of Wrote n \<Rightarrow> [Written (clients st ! i) (take n msg)] | _ \<Rightarrow> []) @ ev))
      else (st, []))"
  by pat_completeness auto
termination
  by (relation "measure (\<lambda>(wr, msg, i, st). length (clients st) - i)") auto

declare bs_write_loop.simps [simp del]

definition basestation_send_position ::
    "aircraft_db \<Rightarrow> nat \<Rightarrow> (int \<Rightarrow> write_result) \<Rightarrow> string option \<Rightarrow> string option \<Rightarrow> real \<Rightarrow> real \<Rightarrow> int \<Rightarrow> u64 \<Rightarrow>
     bs_state \<Rightarrow> bs_state \<times> bs_event list" where
  "basestation_send_position db now wr reg flight lat lon alt_ft ts st =
     (if \<not> bs_active st \<or> (case reg of None \<Rightarrow> True | Some r \<Rightarrow> cstr r = []) then (st, [])
      else case aircraft_db_lookup db reg of
             None \<Rightarrow> (st, [])
           | Some hex \<Rightarrow>
               case bs_derive_track hex lat lon ts (bs_track st) of (tr, track) \<Rightarrow>
                 let st = st\<lparr>bs_track := tr\<rparr>;
                     msg = bs_message now hex flight lat lon alt_ft track
                 in if length msg \<ge> 512 then (st, []) else bs_write_loop wr msg 0 st)"

section \<open>The table of previous positions\<close>

lemma atan2_range: "- pi < atan2 y x \<and> atan2 y x \<le> pi"
proof -
  have a: "- (pi / 2) < arctan z" "arctan z < pi / 2" for z by (rule arctan_lbound arctan_ubound)+
  have "arctan (y / x) \<le> 0" if "x < 0" "0 \<le> y" using that by (simp add: divide_nonneg_neg)
  moreover have "0 < arctan (y / x)" if "x < 0" "y < 0" using that by (simp add: divide_neg_neg)
  ultimately show ?thesis using a [of "y / x"] pi_gt_zero unfolding atan2_def by (auto simp del: zero_less_arctan_iff arctan_le_zero_iff)
qed

lemma fmod_range: "0 \<le> x \<Longrightarrow> 0 < y \<Longrightarrow> 0 \<le> fmod x y \<and> fmod x y < y"
proof -
  assume xy: "0 \<le> x" "0 < y"
  define k :: real where "k = of_int \<lfloor>x / y\<rfloor>"
  have "k \<le> x / y" "x / y < k + 1" unfolding k_def by linarith+
  then have "y * k \<le> x" "x < y * k + y"
    using xy by (simp_all add: pos_le_divide_eq pos_divide_less_eq algebra_simps)
  moreover have "fmod x y = x - y * k" using xy by (simp add: fmod_def k_def)
  ultimately show ?thesis by simp
qed

lemma bs_bearing_range: "0 \<le> bs_bearing lat1 lon1 lat2 lon2 \<and> bs_bearing lat1 lon1 lat2 lon2 < 360"
proof -
  have "0 \<le> atan2 y x * 180 / pi + 360" for y x
  proof -
    have "- 180 < atan2 y x * 180 / pi" using atan2_range [of y x] pi_gt_zero by (simp add: field_simps)
    then show ?thesis by simp
  qed
  then show ?thesis unfolding bs_bearing_def Let_def by (intro fmod_range) auto
qed

lemma derived_range:
  assumes "derived t lat lon ts = Some (gs, deg)"
  shows "0.5 < gs \<and> gs < 700 \<and> 0 \<le> deg \<and> deg < 360 \<and> 10 ^ 10 < unat (ts - tr_timestamp_ns t) \<and>
    unat (ts - tr_timestamp_ns t) < 7200 * 10 ^ 9"
proof -
  define u where "u = unat (ts - tr_timestamp_ns t)"
  have d: "10 < real u / 10 ^ 9" "real u / 10 ^ 9 < 7200" "0.5 < gs" "gs < 700" "deg = bs_bearing (tr_lat t) (tr_lon t) lat lon"
    using assms unfolding derived_def Let_def u_def [symmetric] by (auto split: if_splits)
  from d(1,2) have "real (10 ^ 10) < real u" "real u < real (7200 * 10 ^ 9)" by simp_all
  then have "10 ^ 10 < u" "u < 7200 * 10 ^ 9" by (simp_all only: of_nat_less_iff)
  then show ?thesis using d(3-5) bs_bearing_range unfolding u_def by simp
qed

lemma find_hex_Some: "find_hex hex ts = Some i \<Longrightarrow> i < length ts \<and> tr_hex (ts ! i) = hex"
  by (induction ts arbitrary: i) (auto split: if_splits)

lemma find_hex_None: "find_hex hex ts = None \<longleftrightarrow> hex \<notin> tr_hex ` set ts"
  by (induction ts) auto

lemma find_hex_distinct: "distinct (map tr_hex ts) \<Longrightarrow> i < length ts \<Longrightarrow> find_hex (tr_hex (ts ! i)) ts = Some i"
proof (induction ts arbitrary: i)
  case (Cons t ts)
  then show ?case by (cases i) (auto simp: image_iff)
qed simp

lemma oldest_track_less: "oldest_track ts < BS_TRACK_MAX"
proof -
  have "snd (fold (\<lambda>i (oldest, idx). if tr_timestamp_ns (ts ! i) < oldest then (tr_timestamp_ns (ts ! i), i) else (oldest, idx))
       xs s) < BS_TRACK_MAX" if "set xs \<subseteq> {..<BS_TRACK_MAX}" "snd s < BS_TRACK_MAX" for xs s
    using that by (induction xs arbitrary: s) (auto split: prod.split)
  from this [of "[0..<BS_TRACK_MAX]" "(- 1, 0)"] show ?thesis
    unfolding oldest_track_def by (simp add: BS_TRACK_MAX_def atLeast0LessThan)
qed

definition bs_track_ok :: "bs_track_t list \<Rightarrow> bool" where
  "bs_track_ok ts \<longleftrightarrow> length ts \<le> BS_TRACK_MAX \<and> distinct (map tr_hex ts) \<and>
     (\<forall>t \<in> set ts. length (tr_hex t) \<le> 6 \<and> CHR 0x00 \<notin> set (tr_hex t))"

definition hex_wf :: "string \<Rightarrow> bool" where
  "hex_wf hex \<longleftrightarrow> length hex \<le> 6 \<and> CHR 0x00 \<notin> set hex"

lemma bs_track_step:
  assumes "bs_track_ok ts" and "hex_wf hex" and "bs_derive_track hex lat lon t ts = (ts', r)"
  shows "bs_track_ok ts' \<and>
    (\<exists>i < length ts'. find_hex hex ts' = Some i \<and>
       ts' ! i = \<lparr>tr_hex = hex, tr_lat = lat, tr_lon = lon, tr_timestamp_ns = t\<rparr>) \<and>
    (\<forall>e \<in> set ts'. tr_hex e \<noteq> hex \<longrightarrow> e \<in> set ts) \<and>
    (\<forall>gs deg. r = Some (gs, deg) \<longrightarrow> 0.5 < gs \<and> gs < 700 \<and> 0 \<le> deg \<and> deg < 360 \<and>
       (\<exists>e \<in> set ts. tr_hex e = hex \<and> 10 ^ 10 < unat (t - tr_timestamp_ns e) \<and> unat (t - tr_timestamp_ns e) < 7200 * 10 ^ 9))"
proof (cases "find_hex hex ts")
  case (Some i)
  note i = find_hex_Some [OF Some]
  define e where "e = \<lparr>tr_hex = hex, tr_lat = lat, tr_lon = lon, tr_timestamp_ns = t\<rparr>"
  have e: "(ts ! i)\<lparr>tr_lat := lat, tr_lon := lon, tr_timestamp_ns := t\<rparr> = e" using i by (cases "ts ! i") (simp add: e_def)
  have ts': "ts' = ts[i := e]" "r = derived (ts ! i) lat lon t" using assms(3) Some e by (simp_all add: bs_derive_track_def)
  have m: "map tr_hex ts' = map tr_hex ts"
    using i by (simp add: ts' map_update e_def list_update_same_conv)
  have d: "distinct (map tr_hex ts')" using m assms(1) by (simp add: bs_track_ok_def)
  have s: "set ts' \<subseteq> insert e (set ts)" unfolding ts' by (rule set_update_subset_insert)
  then have "bs_track_ok ts'" using assms(1,2) d by (auto simp: bs_track_ok_def ts' hex_wf_def e_def dest!: set_update_subset_insert [THEN subsetD])
  moreover have "find_hex hex ts' = Some i" using find_hex_distinct [OF d, of i] i by (simp add: ts' e_def)
  moreover have "\<forall>x \<in> set ts'. tr_hex x \<noteq> hex \<longrightarrow> x \<in> set ts" using s by (auto simp: e_def)
  ultimately show ?thesis using i derived_range [of "ts ! i" lat lon t] by (auto simp: ts' e_def)
next
  case None
  define e where "e = \<lparr>tr_hex = hex, tr_lat = lat, tr_lon = lon, tr_timestamp_ns = t\<rparr>"
  have h: "strncpy 6 hex = hex" using assms(2) by (simp add: hex_wf_def strncpy_id)
  define i where "i = (if length ts < BS_TRACK_MAX then length ts else oldest_track ts)"
  have ts': "ts' = (if length ts < BS_TRACK_MAX then ts @ [e] else ts[i := e])" "r = None"
    using assms(3) None h by (auto simp: bs_derive_track_def e_def Let_def i_def)
  have i: "i < length ts'" "ts' ! i = e"
    using assms(1) oldest_track_less [of ts] by (auto simp: ts' i_def bs_track_ok_def)
  have n: "hex \<notin> tr_hex ` set ts" using None by (simp add: find_hex_None)
  have d: "distinct (map tr_hex ts')"
    using assms(1) n by (auto simp: ts' bs_track_ok_def e_def map_update intro!: distinct_list_update)
  have s: "set ts' \<subseteq> insert e (set ts)" using set_update_subset_insert [of ts i e] by (auto simp: ts')
  then have "bs_track_ok ts'" using assms(1,2) d by (auto simp: bs_track_ok_def ts' hex_wf_def e_def dest!: set_update_subset_insert [THEN subsetD])
  moreover have "find_hex hex ts' = Some i" using find_hex_distinct [OF d i(1)] i(2) by (simp add: e_def)
  moreover have "\<forall>x \<in> set ts'. tr_hex x \<noteq> hex \<longrightarrow> x \<in> set ts" using s by (auto simp: e_def)
  ultimately show ?thesis using i ts'(2) by (auto simp: e_def)
qed



section \<open>Writing to the clients\<close>

definition delivered :: "(int \<Rightarrow> write_result) \<Rightarrow> string \<Rightarrow> int \<Rightarrow> bs_event list" where
  "delivered wr msg fd = (case wr fd of Wrote n \<Rightarrow> [Written fd (take n msg)] | _ \<Rightarrow> [])"

lemma bs_write_loop_unfold:
  "i < length (clients st) \<Longrightarrow> wr (clients st ! i) \<noteq> Write_Failed \<Longrightarrow>
   bs_write_loop wr msg i st = (case bs_write_loop wr msg (i + 1) st of (st', ev) \<Rightarrow> (st', delivered wr msg (clients st ! i) @ ev))"
  by (subst bs_write_loop.simps) (simp add: delivered_def)

lemma bs_write_loop_prefix:
  assumes "clients st = pre @ ok @ rest" "\<forall>fd \<in> set ok. wr fd \<noteq> Write_Failed"
  shows "bs_write_loop wr msg (length pre) st =
    (case bs_write_loop wr msg (length pre + length ok) st of (st', ev) \<Rightarrow> (st', concat (map (delivered wr msg) ok) @ ev))"
  using assms
proof (induction ok arbitrary: pre)
  case (Cons fd ok)
  then show ?case using Cons.IH [of "pre @ [fd]"]
    by (subst bs_write_loop_unfold) (auto simp: nth_append split: prod.splits)
qed (simp split: prod.split)

lemma bs_write_all:
  assumes "\<forall>fd \<in> set (clients st). wr fd \<noteq> Write_Failed"
  shows "bs_write_loop wr msg 0 st = (st, concat (map (delivered wr msg) (clients st)))"
  using bs_write_loop_prefix [of st "[]" "clients st" "[]" wr msg] assms
  by (simp add: bs_write_loop.simps [of wr msg "length (clients st)"])

lemma bs_write_lost:
  assumes "clients st = ok @ fd # rest" "\<forall>fd \<in> set ok. wr fd \<noteq> Write_Failed" "wr fd = Write_Failed"
  shows "bs_write_loop wr msg 0 st =
    ((if bs_mode st = 1 then st\<lparr>bs_client_fd := -1, clients := []\<rparr>
      else st\<lparr>clients := ok @ (if rest = [] then [] else last rest # butlast rest)\<rparr>),
     concat (map (delivered wr msg) ok) @ [Closed fd])"
proof -
  have "bs_write_loop wr msg (length ok) st =
      ((if bs_mode st = 1 then st\<lparr>bs_client_fd := -1, clients := []\<rparr>
        else st\<lparr>clients := ok @ (if rest = [] then [] else last rest # butlast rest)\<rparr>), [Closed fd])"
    using assms(1,3) by (subst bs_write_loop.simps) (auto simp: list_update_append butlast_append)
  then show ?thesis using bs_write_loop_prefix [of st "[]" ok "fd # rest" wr msg] assms by simp
qed

text \<open>
  C40. What a position does to the clients of the server: if no connection is lost, every client is written to
  exactly once, in order, and stays; if one is lost, it is closed and removed and every other client stays, but those
  behind it in the list are not written to, whatever their connection.
\<close>

theorem bs_clients_served:
  assumes "clients st = ok @ rest" "\<forall>fd \<in> set ok. wr fd \<noteq> Write_Failed"
    and "rest \<noteq> [] \<longrightarrow> wr (hd rest) = Write_Failed \<and> bs_mode st = 0" and "distinct (clients st)"
    and "bs_write_loop wr msg 0 st = (st', ev)"
  shows "mset (clients st') = mset ok + mset (tl rest) \<and>
    ev = concat (map (delivered wr msg) ok) @ (if rest = [] then [] else [Closed (hd rest)]) \<and>
    (\<forall>fd \<in> set (tl rest). fd \<in> set (clients st') \<and> (\<forall>m. Written fd m \<notin> set ev)) \<and>
    st' = st\<lparr>clients := clients st'\<rparr>"
proof (cases rest)
  case Nil
  then have "(st', ev) = (st, concat (map (delivered wr msg) ok))"
    using bs_write_all [of st wr msg] assms by simp
  then show ?thesis using Nil assms(1) by simp
next
  case (Cons fd fds)
  have r: "st' = st\<lparr>clients := ok @ (if fds = [] then [] else last fds # butlast fds)\<rparr>"
      "ev = concat (map (delivered wr msg) ok) @ [Closed fd]"
    using bs_write_lost [of st ok fd fds wr msg] assms Cons by auto
  have m: "mset (if fds = [] then [] else last fds # butlast fds) = mset fds"
    by (cases fds rule: rev_cases) auto
  then have c: "mset (clients st') = mset ok + mset fds" by (simp add: r)
  have "\<forall>m. Written x m \<notin> set ev" if "x \<in> set fds" for x
    using that assms(1,4) Cons by (auto simp: r delivered_def split: write_result.splits)
  moreover have "set (clients st') = set ok \<union> set fds" using c by (metis mset_append set_append set_mset_mset)
  ultimately show ?thesis using r c Cons by simp
qed

lemma bs_clients_served_witness:
  "\<exists>st' ev. bs_write_loop (\<lambda>fd. if fd = 5 then Write_Failed else Wrote 2) ''ab'' 0 (bs_initial\<lparr>clients := [4, 5, 6]\<rparr>) = (st', ev) \<and>
     ev = [Written 4 ''ab'', Closed 5] \<and> 6 \<in> set (clients st')"
proof -
  define st where "st = bs_initial\<lparr>clients := [4, 5, 6]\<rparr>"
  define wr where "wr = (\<lambda>fd :: int. if fd = 5 then Write_Failed else Wrote 2)"
  obtain st' ev where e: "bs_write_loop wr ''ab'' 0 st = (st', ev)" by (cases "bs_write_loop wr ''ab'' 0 st")
  have "ev = [Written 4 ''ab'', Closed 5] \<and> 6 \<in> set (clients st')"
    using bs_clients_served [OF _ _ _ _ e, of "[4]" "[5, 6]"] by (simp add: st_def wr_def bs_initial_def delivered_def)
  then show ?thesis using e by (auto simp: st_def wr_def)
qed

section \<open>The message\<close>

fun fields :: "string \<Rightarrow> string list" where
  "fields [] = [[]]"
| "fields (c # s) = (if c = CHR '','' then [] # fields s else case fields s of f # fs \<Rightarrow> (c # f) # fs | [] \<Rightarrow> [[c]])"

lemma fields_nonempty: "fields s \<noteq> []"
  by (cases s) (auto split: list.splits)

lemma fields_append: "CHR '','' \<notin> set a \<Longrightarrow> fields (a @ CHR '','' # b) = a # fields b"
  using fields_nonempty by (induction a) (auto split: list.splits)

lemma fields_single: "CHR '','' \<notin> set a \<Longrightarrow> fields a = [a]"
  by (induction a) auto

lemma comma_not_digit: "\<not> is_digit CHR '',''"
  by (simp add: is_digit_def)

lemma no_comma_dec_nat: "CHR '','' \<notin> set (dec_nat n)"
  using dec_nat_digits comma_not_digit by blast

lemma no_comma_dec_int: "CHR '','' \<notin> set (dec_int i)"
  using no_comma_dec_nat by (auto simp: dec_int_def)

lemma no_comma_pad: "c \<noteq> CHR '','' \<Longrightarrow> CHR '','' \<notin> set s \<Longrightarrow> CHR '','' \<notin> set (pad_left c w s)"
  by (auto simp: pad_left_def)

lemma no_comma_fixed: "CHR '','' \<notin> set (fixed k x)"
  using no_comma_dec_nat by (auto simp: fixed_def Let_def no_comma_pad)

lemma no_comma_times: "CHR '','' \<notin> set (sbs_date s)" "CHR '','' \<notin> set (sbs_time s)"
  using no_comma_dec_nat by (auto simp: sbs_date_def sbs_time_def two_digits_def no_comma_pad split: prod.split)

lemmas no_comma = no_comma_dec_int no_comma_fixed no_comma_times



section \<open>Reachable states\<close>

text \<open>
  The steps of the accept thread (in server mode), of the reconnection thread (in client mode), and of the thread that sends
  positions. The kernel hands out descriptors that are not in use.
\<close>

definition db_wf :: "aircraft_db \<Rightarrow> bool" where
  "db_wf db \<longleftrightarrow> (case db of None \<Rightarrow> True | Some es \<Rightarrow> \<forall>e \<in> set es. hex_wf (db_hex e))"

inductive bs_step :: "bs_state \<Rightarrow> bs_event list \<Rightarrow> bs_state \<Rightarrow> bool" where
  accept: "bs_mode st = 0 \<Longrightarrow> fd \<ge> 0 \<Longrightarrow> fd \<notin> set (clients st) \<Longrightarrow> bs_accept fd st = (st', ev) \<Longrightarrow> bs_step st ev st'"
| reconnect: "bs_mode st = 1 \<Longrightarrow> (\<And>fd. sock = Some fd \<Longrightarrow> fd \<ge> 0) \<Longrightarrow> bs_reconnect sock resolved acc st = (st', ev) \<Longrightarrow> bs_step st ev st'"
| send: "db_wf db \<Longrightarrow> basestation_send_position db now wr reg flight lat lon alt ts st = (st', ev) \<Longrightarrow> bs_step st ev st'"

inductive bs_reachable :: "bs_state \<Rightarrow> bool" where
  start: "(\<And>fd. net_socket net = Some fd \<Longrightarrow> fd \<ge> 0) \<Longrightarrow> basestation_init net endpoint bs_initial = (0, st, ev) \<Longrightarrow> bs_reachable st"
| step: "bs_reachable st \<Longrightarrow> bs_step st ev st' \<Longrightarrow> bs_reachable st'"

definition bs_inv :: "bs_state \<Rightarrow> bool" where
  "bs_inv st \<longleftrightarrow> bs_active st \<and> length (clients st) \<le> BS_MAX_CLIENTS \<and> distinct (clients st) \<and> (\<forall>fd \<in> set (clients st). fd \<ge> 0) \<and>
     bs_track_ok (bs_track st) \<and>
     (bs_mode st = 0 \<and> bs_client_fd st = -1 \<and> bs_remote_host st = None \<and> listen_fd st \<ge> 0 \<or>
      bs_mode st = 1 \<and> clients st = (if bs_client_fd st < 0 then [] else [bs_client_fd st]) \<and> bs_remote_host st \<noteq> None \<and>
        1 \<le> bs_remote_port st \<and> bs_remote_port st \<le> 65535)"

lemma bs_inv_init:
  assumes "\<And>fd. net_socket net = Some fd \<Longrightarrow> fd \<ge> 0" and "basestation_init net endpoint bs_initial = (0, st, ev)"
  shows "bs_inv st"
  using assms
  by (auto simp: basestation_init_def bs_initial_def bs_inv_def bs_client_connect_def bs_set_client_def bs_track_ok_def
      BS_MAX_CLIENTS_def Let_def split: prod.splits option.splits if_splits)

lemma bs_inv_write:
  assumes "bs_inv st" "bs_write_loop wr msg 0 st = (st', ev)"
  shows "bs_inv st'"
proof (cases "\<exists>fd \<in> set (clients st). wr fd = Write_Failed")
  case False
  then show ?thesis using bs_write_all [of st wr msg] assms by simp
next
  case True
  then obtain ok fd rest where c: "clients st = ok @ fd # rest" "wr fd = Write_Failed" "\<forall>fd \<in> set ok. wr fd \<noteq> Write_Failed"
    using split_list_first_prop [of "clients st" "\<lambda>fd. wr fd = Write_Failed"] by blast
  have st': "st' = (if bs_mode st = 1 then st\<lparr>bs_client_fd := -1, clients := []\<rparr>
      else st\<lparr>clients := ok @ (if rest = [] then [] else last rest # butlast rest)\<rparr>)"
    using bs_write_lost [OF c(1,3,2), of msg] assms(2) by simp
  show ?thesis
  proof (cases rest rule: rev_cases)
    case Nil
    then show ?thesis using assms(1) c(1) by (auto simp: st' bs_inv_def BS_MAX_CLIENTS_def split: if_splits)
  next
    case (snoc fds x)
    then show ?thesis using assms(1) c(1) by (auto simp: st' bs_inv_def BS_MAX_CLIENTS_def split: if_splits)
  qed
qed

lemma track_ok_derive: "bs_track_ok ts \<Longrightarrow> hex_wf hex \<Longrightarrow> bs_track_ok (fst (bs_derive_track hex lat lon t ts))"
  using bs_track_step [of ts hex lat lon t] by (cases "bs_derive_track hex lat lon t ts") simp

lemma db_lookup_wf: "db_wf db \<Longrightarrow> aircraft_db_lookup db reg = Some hex \<Longrightarrow> hex_wf hex"
  by (auto simp: db_wf_def aircraft_db_lookup_def bsearch_def Let_def split: option.splits if_splits dest!: bsearch_range_Some)

lemma bs_inv_send:
  assumes "bs_inv st" "db_wf db" "basestation_send_position db now wr reg flight lat lon alt ts st = (st', ev)"
  shows "bs_inv st'"
proof (cases "st' = st")
  case False
  then obtain hex where h: "aircraft_db_lookup db reg = Some hex"
    using assms(3) by (auto simp: basestation_send_position_def split: if_splits option.splits)
  define st1 where "st1 = st\<lparr>bs_track := fst (bs_derive_track hex lat lon ts (bs_track st))\<rparr>"
  have "bs_track_ok (bs_track st)" using assms(1) by (simp add: bs_inv_def)
  then have "bs_track_ok (bs_track st1)" using track_ok_derive db_lookup_wf [OF assms(2) h] by (simp add: st1_def)
  then have "bs_inv st1" using assms(1) by (auto simp: bs_inv_def st1_def)
  moreover have "st' = st1 \<or> (\<exists>msg. bs_write_loop wr msg 0 st1 = (st', ev))"
    using assms(3) h False
    by (auto simp: basestation_send_position_def st1_def Let_def split: if_splits prod.splits)
  ultimately show ?thesis using bs_inv_write by blast
qed (use assms(1) in simp)

text \<open>
  C37. In every state that the program reaches, after a successful start, by any interleaving of new
  clients, reconnections and positions: there are at most 16 clients with different descriptors, the table of previous
  positions is well formed, and in client mode the list of clients is exactly the connection to the remote host, if there is
  one.
\<close>

theorem bs_reachable_invariant:
  assumes "bs_reachable st"
  shows "bs_inv st"
  using assms
proof (induction rule: bs_reachable.induct)
  case (start net endpoint st ev)
  then show ?case by (rule bs_inv_init)
next
  case (step st ev st')
  from step.hyps(2) step.IH show ?case
  proof (induction rule: bs_step.induct)
    case (accept st fd st' ev)
    then show ?case by (auto simp: bs_accept_def bs_inv_def BS_MAX_CLIENTS_def split: if_splits)
  next
    case (reconnect st sock resolved acc st' ev)
    then show ?case
      by (auto simp: bs_reconnect_def bs_client_connect_def bs_set_client_def bs_inv_def BS_MAX_CLIENTS_def
          split: if_splits option.splits)
  next
    case (send db now wr reg flight lat lon alt ts st st' ev)
    then show ?case using bs_inv_send by blast
  qed
qed

lemma bs_reachable_invariant_witness:
  "\<exists>st. bs_reachable st \<and> clients st = [7] \<and> bs_inv st"
proof -
  define net where "net = \<lparr>net_socket = Some 3, net_bind = True, net_listen = True, net_resolved = False, net_connected = False\<rparr>"
  define st where "st = bs_initial\<lparr>bs_active := True, listen_fd := 3\<rparr>"
  have "basestation_init net None bs_initial = (0, st, [])"
    by (simp add: basestation_init_def bs_endpoint_def net_def st_def bs_initial_def)
  then have "bs_reachable st" by (rule bs_reachable.start [rotated]) (simp add: net_def)
  moreover have "bs_step st [] (st\<lparr>clients := [7]\<rparr>)"
    by (rule bs_step.accept [where fd = 7]) (simp_all add: st_def bs_initial_def bs_accept_def BS_MAX_CLIENTS_def)
  ultimately have "bs_reachable (st\<lparr>clients := [7]\<rparr>)" by (rule bs_reachable.step)
  then show ?thesis using bs_reachable_invariant [of "st\<lparr>clients := [7]\<rparr>"] by (intro exI [where x = "st\<lparr>clients := [7]\<rparr>"]) simp
qed

lemma bs_endpoint_port:
  "h \<noteq> [] \<Longrightarrow> bs_endpoint (Some (h @ CHR '':'' # dec_nat n)) = (Some h, int n)"
  "bs_endpoint (Some (CHR '':'' # dec_nat n)) = (None, int n)"
  using strrchr_port [of h n] strrchr_port [of "[]" n] by (simp_all add: bs_endpoint_def atoi_dec_nat)

text \<open>In client mode \<open>basestation_destroy\<close> closes the descriptor of the connection twice.\<close>

theorem bs_double_close:
  assumes "bs_inv st" "bs_mode st = 1" "bs_client_fd st = fd" "fd \<ge> 0"
  shows "snd (basestation_destroy st) = [Closed fd, Closed fd]"
  using assms by (simp add: basestation_destroy_def bs_inv_def Let_def)

text \<open>A database that has been loaded from a file has addresses of six characters.\<close>

lemma loaded_db_wf:
  assumes "sorted_table db_reg qsort" "db_wf db0" "aircraft_db_load qsort (\<lambda>_. True) src db0 = (db, n)"
  shows "db_wf db"
proof (cases src)
  case (Some contents)
  have "hex_wf (db_hex e)" if l: "db_line l = Some e" for l e
  proof -
    obtain h r where "db_fields l = Some (h, r)" "db_hex e = map toupper h"
      using l by (cases "db_fields l") (auto simp: db_line_def db_entry_of_def Let_def split: if_splits)
    moreover from this(1) have "hex_ok h" by (auto simp: db_fields_def Let_def split: option.splits if_splits)
    moreover from this have "CHR 0x00 \<notin> set h" by (auto simp: hex_ok_def list_all_iff less_eq_char_def)
    ultimately show ?thesis by (auto simp: hex_wf_def hex_ok_def dest: toupper_zero [OF sym])
  qed
  then show ?thesis
    using assms(1,3) Some sorted_table.qsort_set [OF assms(1)]
    by (auto simp: db_wf_def aircraft_db_load_def db_read_all set_map_filter Let_def)
qed (use assms in \<open>simp add: aircraft_db_load_def\<close>)

end
