(* ===== verification/Spec2Isabelle.thy ===== *)
theory Spec2Isabelle
  imports AcarsMessage FairLock BlockingQueue Vita49 WaypointDb SbsOutput
begin

text \<open>
  A verification development for iridium-sniffer.
\<close>

unbundle bit_operations_syntax

section \<open>From samples to decoded frames\<close>

fun symbols_of :: "u8 list \<Rightarrow> int list" where
  "symbols_of (a # b # bs) = (2 * uint a + uint b) # symbols_of bs"
| "symbols_of _ = []"

lemma symbols_of_bits:
  assumes "bit_list bs" and "even (length bs)"
  shows "map_symbols_to_bits (symbols_of bs) = bs \<and> set (symbols_of bs) \<subseteq> {0..<4} \<and>
    2 * length (symbols_of bs) = length bs"
  using assms
proof (induction bs rule: symbols_of.induct)
  case (1 a b bs)
  have "a \<in> {0, 1}" "b \<in> {0, 1}" using "1.prems"(1) by (auto simp: bit_list_def)
  then show ?case using 1 by (auto simp: bit_list_def map_symbols_to_bits_def drop_bit_eq_div)
qed (simp_all add: map_symbols_to_bits_def)

lemma symbols_of_append: "even (length xs) \<Longrightarrow> symbols_of (xs @ ys) = symbols_of xs @ symbols_of ys"
  by (induction xs rule: symbols_of.induct) simp_all

lemma symbols_of_access_code:
  assumes "d \<in> {DIR_DOWNLINK, DIR_UPLINK}"
  shows "symbols_of (access_code d) = decode_from 0 (unique_word d)" and "set (unique_word d) \<subseteq> {0..<4}"
  using assms
  by (auto simp: access_code_def access_dl_def access_ul_def unique_word_def IR_UW_DL_def IR_UW_UL_def
      dqpsk_map_def)

lemma encode_starts_with_unique_word:
  assumes "d \<in> {DIR_DOWNLINK, DIR_UPLINK}"
  shows "take 12 (encode_dqpsk 0 (symbols_of (access_code d @ rest))) = unique_word d"
proof -
  have e: "even (length (access_code d))" by simp
  have l: "length (decode_from 0 (unique_word d)) = 12"
    by (simp add: unique_word_def IR_UW_DL_def IR_UW_UL_def)
  then have "take 12 (symbols_of (access_code d @ rest)) = decode_from 0 (unique_word d)"
    by (simp add: symbols_of_append [OF e] symbols_of_access_code(1) [OF assms])
  then show ?thesis
    using encode_decode_dqpsk [OF symbols_of_access_code(2) [OF assms], of 0]
    by (simp add: take_encode_dqpsk)
qed

lemma set_interleave_n:
  assumes "length x = n" and "length y = n"
  shows "set (interleave_n n x y) \<subseteq> set x \<union> set y"
proof
  fix z assume "z \<in> set (interleave_n n x y)"
  then obtain s where s: "s < n" and
    "odd s \<and> z \<in> {x ! (n - Suc s), x ! (n - s)} \<or> even s \<and> z \<in> {y ! (n - Suc (Suc s)), y ! (n - Suc s)}"
    by (auto simp: interleave_n_def split: if_splits)
  moreover have "odd s \<Longrightarrow> n - s < n" using s by (cases s) auto
  ultimately show "z \<in> set x \<union> set y" using assms by (auto intro!: nth_mem)
qed

lemma bit_list_tx_ibc: "bit_list (tx_ibc d hdr he ps)"
proof -
  have "bit_list (tx_block b)" for b
    by (auto simp: tx_block_def bit_list_def [of "[_]"] parity_bit_def split: prod.split)
  moreover have "bit_list (interleave_n 32 x y)" if "bit_list x" "bit_list y" "length x = 32" "length y = 32" for x y
    using that set_interleave_n [of x 32 y] by (auto simp: bit_list_def)
  ultimately have "bit_list (tx_pair p)" for p by (simp add: tx_pair_def split: prod.split)
  moreover have "bit_list (access_code d)"
    by (simp add: access_code_def bit_list_def access_dl_def access_ul_def)
  ultimately show ?thesis by (auto simp: tx_ibc_def intro!: bit_list_concat)
qed


definition broadcast_example :: downmix_frame where
  "broadcast_example = \<lparr>dm_id = 1, dm_timestamp = 7, dm_center_frequency = 1626270833, dm_sample_rate = 250000,
     dm_samples_per_symbol = 10, dm_direction = DIR_UNDEF, dm_magnitude = 20, dm_noise = 0,
     dm_uw_start = 0, dm_num_samples = 470,
     dm_samples = modulate 10 1 (encode_dqpsk 0 (symbols_of (tx_ibc DIR_DOWNLINK 29 1 [((689920, 4), (0, 0))])))\<rparr>"


end
